(* ===== verification/KV_Prelude.thy ===== *)
theory KV_Prelude
  imports Main "HOL-Library.Word" "HOL-Library.List_Lexorder" "HOL-Library.Char_ord"
begin

unbundle bit_operations_syntax

text \<open>
  The shared base of the development: bytes and Go strings, the little-endian codecs and the
  reader primitives of the Go standard library that the storage and log formats are written
  with, \<open>sort.Search\<close>, the \<open>%016d\<close> file names and a directory of named files. Everything
  here models the Go language and its standard library; the components of the program are in
  the theories that import this one.
\<close>

named_theorems codec_simps \<open>encode and decode equations of the byte formats\<close>
named_theorems dir_simps \<open>lookup equations of directories\<close>

section \<open>Bytes and strings\<close>

type_synonym byte = "8 word"
type_synonym bytes = "byte list"

text \<open>
  A Go \<open>string\<close> is a sequence of bytes, which is what a HOL \<open>string\<close> is; Go's \<open><\<close> on strings
  is the bytewise lexicographic order of \<open>List_Lexorder\<close>. A nil slice and an empty slice are
  both the empty list: the program never tells them apart on the paths that are modelled.
\<close>

definition string_bytes :: "string \<Rightarrow> bytes" where
  "string_bytes s = map (\<lambda>c. word_of_nat (of_char c)) s"

definition bytes_string :: "bytes \<Rightarrow> string" where
  "bytes_string bs = map (\<lambda>b. char_of (unat b)) bs"

lemma length_string_bytes [simp]: "length (string_bytes s) = length s"
  by (simp add: string_bytes_def)

lemma unat_of_char_byte: "unat (word_of_nat (of_char c) :: byte) = of_char c"
proof -
  have "(of_char c :: nat) < 256" by (rule nat_of_char_less_256)
  then show ?thesis by (simp add: unat_of_nat)
qed

lemma bytes_string_string_bytes [simp, codec_simps]: "bytes_string (string_bytes s) = s"
  by (simp add: bytes_string_def string_bytes_def o_def unat_of_char_byte map_idI)

section \<open>Little-endian words\<close>

text \<open>\<open>encoding/binary.LittleEndian\<close>: \<open>PutUint32\<close>, \<open>PutUint64\<close> and their readers.\<close>

fun le_bytes :: "nat \<Rightarrow> 'a::len word \<Rightarrow> bytes" where
  "le_bytes 0 w = []"
| "le_bytes (Suc n) w = ucast w # le_bytes n (drop_bit 8 w)"

fun le_word :: "bytes \<Rightarrow> 'a::len word" where
  "le_word [] = 0"
| "le_word (b # bs) = ucast b OR push_bit 8 (le_word bs)"

definition PutUint32 :: "32 word \<Rightarrow> bytes" where
  "PutUint32 w = le_bytes 4 w"

definition PutUint64 :: "64 word \<Rightarrow> bytes" where
  "PutUint64 w = le_bytes 8 w"

definition Uint32 :: "bytes \<Rightarrow> 32 word" where
  "Uint32 bs = le_word bs"

definition Uint64 :: "bytes \<Rightarrow> 64 word" where
  "Uint64 bs = le_word bs"

lemma length_le_bytes [simp]: "length (le_bytes n w) = n"
  by (induction n arbitrary: w) auto

lemma le_word_le_bytes: "le_word (le_bytes n w) = take_bit (8 * n) w"
proof (induction n arbitrary: w)
  case 0
  then show ?case by simp
next
  case (Suc n)
  show ?case
    by (rule bit_eqI) (auto simp: Suc bit_simps)
qed

lemma length_PutUint32 [simp]: "length (PutUint32 w) = 4"
  by (simp add: PutUint32_def)

lemma length_PutUint64 [simp]: "length (PutUint64 w) = 8"
  by (simp add: PutUint64_def)

lemma Uint32_PutUint32 [simp, codec_simps]: "Uint32 (PutUint32 w) = w"
  using take_bit_length_eq[of w] by (simp add: Uint32_def PutUint32_def le_word_le_bytes)

lemma Uint64_PutUint64 [simp, codec_simps]: "Uint64 (PutUint64 w) = w"
  using take_bit_length_eq[of w] by (simp add: Uint64_def PutUint64_def le_word_le_bytes)

text \<open>The conversion \<open>uint32(len(x))\<close> keeps lengths below \<open>2 ^ 32\<close>.\<close>

definition uint32_len :: "'a list \<Rightarrow> 32 word" where
  "uint32_len xs = word_of_nat (length xs)"

lemma unat_uint32_len [simp]: "length xs < 2 ^ 32 \<Longrightarrow> unat (uint32_len xs) = length xs"
  by (simp add: uint32_len_def unat_of_nat)

lemma uint32_len_wraps: "unat (uint32_len xs) = length xs mod 2 ^ 32"
  by (simp add: uint32_len_def unat_of_nat)

section \<open>Readers\<close>

text \<open>
  \<open>io.ReadFull(r, buf)\<close>: the buffer filled and the rest of the stream, \<open>io.EOF\<close> when no byte
  could be read, \<open>io.ErrUnexpectedEOF\<close> when some but not all could. Reading zero bytes always
  succeeds. \<open>binary.Read\<close> of a \<open>uint32\<close> reads four bytes this way.
\<close>

datatype 'a read = ReadOk 'a bytes | ReadEOF | ReadUnexpectedEOF

definition ReadFull :: "nat \<Rightarrow> bytes \<Rightarrow> bytes read" where
  "ReadFull n bs =
     (if n \<le> length bs then ReadOk (take n bs) (drop n bs)
      else if bs = [] then ReadEOF else ReadUnexpectedEOF)"

definition ReadUint32 :: "bytes \<Rightarrow> 32 word read" where
  "ReadUint32 bs =
     (case ReadFull 4 bs of
        ReadOk h rest \<Rightarrow> ReadOk (Uint32 h) rest
      | ReadEOF \<Rightarrow> ReadEOF
      | ReadUnexpectedEOF \<Rightarrow> ReadUnexpectedEOF)"

lemma ReadFull_append [simp, codec_simps]:
  "n = length xs \<Longrightarrow> ReadFull n (xs @ ys) = ReadOk xs ys"
  by (simp add: ReadFull_def)

lemma ReadUint32_PutUint32 [simp, codec_simps]:
  "ReadUint32 (PutUint32 w @ rest) = ReadOk w rest"
  by (simp add: ReadUint32_def)

lemma ReadFull_Nil: "ReadFull n [] = (if n = 0 then ReadOk [] [] else ReadEOF)"
  by (simp add: ReadFull_def)

lemma ReadUint32_Nil [simp]: "ReadUint32 [] = ReadEOF"
  by (simp add: ReadUint32_def ReadFull_def)

lemma ReadFull_OkD: "ReadFull n bs = ReadOk h rest \<Longrightarrow> bs = h @ rest \<and> length h = n"
  by (auto simp: ReadFull_def split: if_splits)

lemma ReadFull_short:
  "length bs < n \<Longrightarrow> ReadFull n bs = ReadEOF \<or> ReadFull n bs = ReadUnexpectedEOF"
  by (simp add: ReadFull_def)

lemma ReadUint32_OkD: "ReadUint32 bs = ReadOk w rest \<Longrightarrow> length bs = 4 + length rest"
  by (auto simp: ReadUint32_def split: read.splits dest!: ReadFull_OkD)

section \<open>sort.Search\<close>

text \<open>
  The standard library's binary search, its loop over \<open>[i, j)\<close> as it is written:
  \<open>h := (i+j)/2; if !f(h) { i = h + 1 } else { j = h }\<close>.
\<close>

function search_loop :: "(nat \<Rightarrow> bool) \<Rightarrow> nat \<Rightarrow> nat \<Rightarrow> nat" where
  "search_loop f i j =
     (if i < j then
        (let h = (i + j) div 2
         in if \<not> f h then search_loop f (h + 1) j else search_loop f i h)
      else i)"
  by pat_completeness auto
termination
  by (relation "measure (\<lambda>(f, i, j). j - i)") (auto simp: Let_def)

declare search_loop.simps [simp del]

definition sort_Search :: "nat \<Rightarrow> (nat \<Rightarrow> bool) \<Rightarrow> nat" where
  "sort_Search n f = search_loop f 0 n"

text \<open>What callers rely on: the predicate is false up to some index and true from there on.\<close>

definition mono_upto :: "nat \<Rightarrow> (nat \<Rightarrow> bool) \<Rightarrow> bool" where
  "mono_upto n f \<longleftrightarrow> (\<forall>a b. a \<le> b \<longrightarrow> b < n \<longrightarrow> f a \<longrightarrow> f b)"

definition splits_at :: "nat \<Rightarrow> (nat \<Rightarrow> bool) \<Rightarrow> nat \<Rightarrow> bool" where
  "splits_at n f m \<longleftrightarrow> m \<le> n \<and> (\<forall>k < m. \<not> f k) \<and> (\<forall>k. m \<le> k \<longrightarrow> k < n \<longrightarrow> f k)"

lemma splits_at_unique: "splits_at n f m \<Longrightarrow> splits_at n f m' \<Longrightarrow> m = m'"
  unfolding splits_at_def by (metis linorder_neqE_nat order_less_le_trans order_refl)

lemma mono_uptoD: "mono_upto n f \<Longrightarrow> f a \<Longrightarrow> a \<le> b \<Longrightarrow> b < n \<Longrightarrow> f b"
  by (auto simp: mono_upto_def)

lemma search_loop_spec:
  "mono_upto n f \<Longrightarrow> i \<le> j \<Longrightarrow> j \<le> n \<Longrightarrow> \<forall>k < i. \<not> f k \<Longrightarrow>
   \<forall>k. j \<le> k \<longrightarrow> k < n \<longrightarrow> f k \<Longrightarrow> splits_at n f (search_loop f i j)"
proof (induction f i j rule: search_loop.induct)
  case (1 f i j)
  show ?case
  proof (cases "i < j")
    case False
    then have "search_loop f i j = i" by (subst search_loop.simps) simp
    moreover have "i = j" using False "1.prems"(2) by simp
    ultimately show ?thesis using "1.prems" by (simp add: splits_at_def)
  next
    case True
    define h where "h = (i + j) div 2"
    have h: "i \<le> h" "h < j" using True by (auto simp: h_def)
    show ?thesis
    proof (cases "f h")
      case fh: True
      have "search_loop f i j = search_loop f i h"
        using True fh by (simp add: search_loop.simps[of f i j] h_def)
      moreover have "\<forall>k. h \<le> k \<longrightarrow> k < n \<longrightarrow> f k"
        using mono_uptoD[OF "1.prems"(1) fh] by blast
      moreover have "h \<le> n" using h "1.prems"(3) by simp
      ultimately show ?thesis
        using "1.IH"(2)[OF True h_def] fh h(1) "1.prems"(1,4) by simp
    next
      case fh: False
      have "search_loop f i j = search_loop f (h + 1) j"
        using True fh by (simp add: search_loop.simps[of f i j] h_def)
      moreover have "\<forall>k < h + 1. \<not> f k"
        using mono_uptoD[OF "1.prems"(1), of _ h] fh h "1.prems"(3) by fastforce
      moreover have "h + 1 \<le> j" using h by simp
      ultimately show ?thesis
        using "1.IH"(1)[OF True h_def fh] "1.prems"(1,3,5) by simp
    qed
  qed
qed

text \<open>On a monotone predicate the search returns the least index that satisfies it.\<close>

lemma sort_Search_splits: "mono_upto n f \<Longrightarrow> splits_at n f (sort_Search n f)"
  unfolding sort_Search_def by (rule search_loop_spec) auto

lemma sort_Search_eqI:
  "mono_upto n f \<Longrightarrow> splits_at n f m \<Longrightarrow> sort_Search n f = m"
  by (rule splits_at_unique[OF sort_Search_splits])

section \<open>File names\<close>

text \<open>
  \<open>fmt.Sprintf("%016d", n)\<close>: decimal digits, padded with zeros to sixteen places; a number
  with more digits is printed in full. \<open>parse_dec\<close> is \<open>%d\<close> of \<open>fmt.Sscanf\<close>: the longest
  run of digits, an error when there is none.
\<close>

definition digit :: "nat \<Rightarrow> char" where
  "digit d = char_of (48 + d)"

fun fixed_digits :: "nat \<Rightarrow> nat \<Rightarrow> string" where
  "fixed_digits 0 n = []"
| "fixed_digits (Suc w) n = fixed_digits w (n div 10) @ [digit (n mod 10)]"

fun dec_width :: "nat \<Rightarrow> nat" where
  "dec_width n = (if n < 10 then 1 else Suc (dec_width (n div 10)))"

declare dec_width.simps [simp del]

definition sprintf_016d :: "nat \<Rightarrow> string" where
  "sprintf_016d n = fixed_digits (max 16 (dec_width n)) n"

definition is_digit :: "char \<Rightarrow> bool" where
  "is_digit c \<longleftrightarrow> 48 \<le> (of_char c :: nat) \<and> (of_char c :: nat) \<le> 57"

definition digits_value :: "string \<Rightarrow> nat" where
  "digits_value s = foldl (\<lambda>a c. 10 * a + (of_char c - 48)) 0 s"

definition parse_dec :: "string \<Rightarrow> (nat \<times> string) option" where
  "parse_dec s =
     (let ds = takeWhile is_digit s
      in if ds = [] then None else Some (digits_value ds, dropWhile is_digit s))"

lemma length_fixed_digits [simp]: "length (fixed_digits w n) = w"
  by (induction w arbitrary: n) auto

lemma of_char_digit: "d < 10 \<Longrightarrow> of_char (digit d) = 48 + d"
  by (simp add: digit_def)

lemma is_digit_digit [simp]: "d < 10 \<Longrightarrow> is_digit (digit d)"
  by (simp add: is_digit_def of_char_digit)

lemma fixed_digits_are_digits: "c \<in> set (fixed_digits w n) \<Longrightarrow> is_digit c"
  by (induction w arbitrary: n) auto

lemma digits_value_fixed: "n < 10 ^ w \<Longrightarrow> digits_value (fixed_digits w n) = n"
proof (induction w arbitrary: n)
  case 0
  then show ?case by (simp add: digits_value_def)
next
  case (Suc w)
  then have "n div 10 < 10 ^ w" by (simp add: less_mult_imp_div_less mult.commute)
  from Suc.IH[OF this] show ?case
    by (simp add: digits_value_def of_char_digit)
qed

lemma less_append_same_length:
  fixes xs ys :: "'a::linorder list"
  shows "length xs = length ys \<Longrightarrow>
    (xs @ us < ys @ vs) \<longleftrightarrow> (xs < ys \<or> xs = ys \<and> us < vs)"
  by (induction xs ys rule: list_induct2) auto

lemma digit_less_iff: "a < 10 \<Longrightarrow> b < 10 \<Longrightarrow> digit a < digit b \<longleftrightarrow> a < b"
  by (simp add: less_char_def of_char_digit)

lemma fixed_digits_inj: "m < 10 ^ w \<Longrightarrow> n < 10 ^ w \<Longrightarrow> fixed_digits w m = fixed_digits w n \<Longrightarrow> m = n"
  using digits_value_fixed by metis

lemma less_by_div_mod:
  "(m :: nat) < n \<longleftrightarrow> m div 10 < n div 10 \<or> m div 10 = n div 10 \<and> m mod 10 < n mod 10"
proof -
  have aux: "a < 10 \<Longrightarrow> b < 10 \<Longrightarrow> 10 * p + a < 10 * q + b \<longleftrightarrow> p < q \<or> p = q \<and> a < b"
    for a b p q :: nat by arith
  show ?thesis
    using aux[of "m mod 10" "n mod 10" "m div 10" "n div 10"] by simp
qed

lemma fixed_digits_less_iff:
  "m < 10 ^ w \<Longrightarrow> n < 10 ^ w \<Longrightarrow> fixed_digits w m < fixed_digits w n \<longleftrightarrow> m < n"
proof (induction w arbitrary: m n)
  case 0
  then show ?case by simp
next
  case (Suc w)
  then have b: "m div 10 < 10 ^ w" "n div 10 < 10 ^ w"
    by (simp_all add: less_mult_imp_div_less mult.commute)
  have "fixed_digits (Suc w) m < fixed_digits (Suc w) n \<longleftrightarrow>
      m div 10 < n div 10 \<or> m div 10 = n div 10 \<and> m mod 10 < n mod 10"
    using Suc.IH[OF b] fixed_digits_inj[OF b]
    by (auto simp: less_append_same_length digit_less_iff)
  also have "\<dots> \<longleftrightarrow> m < n"
    by (rule less_by_div_mod[symmetric])
  finally show ?case .
qed

lemma dec_width_le: "n < 10 ^ Suc w \<Longrightarrow> dec_width n \<le> Suc w"
proof (induction w arbitrary: n)
  case 0
  then show ?case by (simp add: dec_width.simps)
next
  case (Suc w)
  then have "n div 10 < 10 ^ Suc w" by (simp add: less_mult_imp_div_less mult.commute)
  from Suc.IH[OF this] show ?case by (subst dec_width.simps) simp
qed

lemma sprintf_016d_small: "n < 10 ^ 16 \<Longrightarrow> sprintf_016d n = fixed_digits 16 n"
  using dec_width_le[of n 15] by (simp add: sprintf_016d_def max_def)

text \<open>Below \<open>10 ^ 16\<close> the order of the names is the order of the numbers.\<close>

lemma sprintf_016d_less_iff:
  "m < 10 ^ 16 \<Longrightarrow> n < 10 ^ 16 \<Longrightarrow> sprintf_016d m < sprintf_016d n \<longleftrightarrow> m < n"
  by (simp add: sprintf_016d_small fixed_digits_less_iff)

lemma sprintf_016d_inj:
  "m < 10 ^ 16 \<Longrightarrow> n < 10 ^ 16 \<Longrightarrow> sprintf_016d m = sprintf_016d n \<longleftrightarrow> m = n"
  using fixed_digits_inj[of m 16 n] by (auto simp: sprintf_016d_small)

lemma parse_dec_sprintf:
  assumes "n < 10 ^ 16" and "rest = [] \<or> \<not> is_digit (hd rest)"
  shows "parse_dec (sprintf_016d n @ rest) = Some (n, rest)"
proof -
  have all: "\<forall>c \<in> set (fixed_digits 16 n). is_digit c"
    by (auto dest: fixed_digits_are_digits)
  have "fixed_digits 16 n \<noteq> []" by (metis length_fixed_digits list.size(3) zero_neq_numeral)
  moreover have "takeWhile is_digit (fixed_digits 16 n @ rest) = fixed_digits 16 n"
    using all assms(2) by (cases rest) auto
  moreover have "dropWhile is_digit (fixed_digits 16 n @ rest) = rest"
    using all assms(2) by (cases rest) auto
  ultimately show ?thesis
    using assms(1) by (simp add: sprintf_016d_small parse_dec_def digits_value_fixed)
qed

section \<open>Directories\<close>

text \<open>
  A directory of files: an association list from names to contents, sorted by name, so that
  \<open>filepath.Glob\<close>, which returns its matches in lexical order, is a filter.
\<close>

type_synonym dir = "(string \<times> bytes) list"

abbreviation dir_get :: "dir \<Rightarrow> string \<Rightarrow> bytes option" where
  "dir_get d p \<equiv> map_of d p"

fun dir_put :: "string \<Rightarrow> bytes \<Rightarrow> dir \<Rightarrow> dir" where
  "dir_put p c [] = [(p, c)]"
| "dir_put p c ((q, b) # d) =
     (if p < q then (p, c) # (q, b) # d
      else if p = q then (p, c) # d
      else (q, b) # dir_put p c d)"

definition dir_remove :: "string \<Rightarrow> dir \<Rightarrow> dir" where
  "dir_remove p d = filter (\<lambda>f. fst f \<noteq> p) d"

definition dir_ok :: "dir \<Rightarrow> bool" where
  "dir_ok d \<longleftrightarrow> sorted_wrt (<) (map fst d)"

definition has_suffix :: "string \<Rightarrow> string \<Rightarrow> bool" where
  "has_suffix suf s \<longleftrightarrow> length suf \<le> length s \<and> drop (length s - length suf) s = suf"

definition Glob :: "string \<Rightarrow> dir \<Rightarrow> string list" where
  "Glob suf d = filter (has_suffix suf) (map fst d)"

lemma dir_get_put [simp, dir_simps]: "dir_get (dir_put p c d) q = (if q = p then Some c else dir_get d q)"
  by (induction p c d rule: dir_put.induct) auto

lemma dir_get_remove [simp, dir_simps]: "dir_get (dir_remove p d) q = (if q = p then None else dir_get d q)"
  by (induction d) (auto simp: dir_remove_def)

lemma set_dir_put: "fst ` set (dir_put p c d) = insert p (fst ` set d)"
  by (induction p c d rule: dir_put.induct) auto

lemma dir_ok_Nil [simp]: "dir_ok []"
  by (simp add: dir_ok_def)

lemma dir_ok_Cons: "dir_ok ((q, b) # d) \<longleftrightarrow> (\<forall>p \<in> fst ` set d. q < p) \<and> dir_ok d"
  by (simp add: dir_ok_def)

lemma dir_ok_put [simp]: "dir_ok d \<Longrightarrow> dir_ok (dir_put p c d)"
proof (induction p c d rule: dir_put.induct)
  case (1 p c)
  show ?case by (simp add: dir_ok_def)
next
  case (2 p c q b d)
  then show ?case
    by (simp add: dir_ok_Cons set_dir_put) (meson less_trans linorder_neqE)
qed

lemma dir_ok_remove [simp]: "dir_ok d \<Longrightarrow> dir_ok (dir_remove p d)"
  unfolding dir_ok_def dir_remove_def
  by (simp add: sorted_wrt_map sorted_wrt_filter)

lemma has_suffix_append [simp]: "has_suffix suf (xs @ suf)"
  by (simp add: has_suffix_def)

lemma sorted_Glob: "dir_ok d \<Longrightarrow> sorted_wrt (<) (Glob suf d)"
  unfolding dir_ok_def Glob_def by (rule sorted_wrt_filter)

lemma set_Glob: "set (Glob suf d) = {p. p \<in> fst ` set d \<and> has_suffix suf p}"
  by (auto simp: Glob_def)

end
