(* ===== verification/KV_Memtable.thy ===== *)
theory KV_Memtable
  imports KV_Prelude
begin

text \<open>
  The sorted in-memory write buffer of \<open>storage/memtable.go\<close>. The lock of the source makes
  every method atomic, so each method is one function on the buffer's state. The theory also
  states the contract of a key-value store as the locale \<open>kv_store\<close>, which the buffer and,
  in later theories, the contents of the whole engine are shown to meet.
\<close>

section \<open>Entries and the buffer\<close>

text \<open>
  \<open>entryKind\<close> is a \<open>uint8\<close>: a file may hold any byte there, so it stays a byte with the two
  named values. \<open>size\<close> is a Go \<open>int\<close> that counts bytes held in memory.
\<close>

record memEntry =
  me_key :: string
  me_value :: bytes
  me_kind :: byte
  me_seq :: nat

definition kindPut :: byte where
  "kindPut = 0"

definition kindDelete :: byte where
  "kindDelete = 1"

record Memtable =
  mt_entries :: "memEntry list"
  mt_size :: nat
  mt_seq :: nat

definition maxMemtableSize :: nat where
  "maxMemtableSize = 4 * 1024 * 1024"

definition NewMemtable :: Memtable where
  "NewMemtable = \<lparr>mt_entries = [], mt_size = 0, mt_seq = 0\<rparr>"

definition Memtable_insert :: "memEntry \<Rightarrow> Memtable \<Rightarrow> Memtable" where
  "Memtable_insert e m =
     (let es = mt_entries m;
          idx = sort_Search (length es) (\<lambda>i. me_key e \<le> me_key (es ! i))
      in if idx < length es \<and> me_key (es ! idx) = me_key e
         then m\<lparr>mt_entries := es[idx := e]\<rparr>
         else m\<lparr>mt_entries := take idx es @ e # drop idx es\<rparr>)"

definition Memtable_Put :: "string \<Rightarrow> bytes \<Rightarrow> Memtable \<Rightarrow> Memtable" where
  "Memtable_Put k v m =
     (let m1 = m\<lparr>mt_seq := mt_seq m + 1\<rparr>;
          m2 = Memtable_insert \<lparr>me_key = k, me_value = v, me_kind = kindPut, me_seq = mt_seq m1\<rparr> m1
      in m2\<lparr>mt_size := mt_size m2 + (length k + length v + 16)\<rparr>)"

definition Memtable_Delete :: "string \<Rightarrow> Memtable \<Rightarrow> Memtable" where
  "Memtable_Delete k m =
     (let m1 = m\<lparr>mt_seq := mt_seq m + 1\<rparr>;
          m2 = Memtable_insert \<lparr>me_key = k, me_value = [], me_kind = kindDelete, me_seq = mt_seq m1\<rparr> m1
      in m2\<lparr>mt_size := mt_size m2 + (length k + 16)\<rparr>)"

definition Memtable_Get :: "string \<Rightarrow> Memtable \<Rightarrow> bytes option" where
  "Memtable_Get k m =
     (let es = mt_entries m;
          idx = sort_Search (length es) (\<lambda>i. k \<le> me_key (es ! i))
      in if idx \<ge> length es \<or> me_key (es ! idx) \<noteq> k then None
         else if me_kind (es ! idx) = kindDelete then None
         else Some (me_value (es ! idx)))"

definition Memtable_ShouldFlush :: "Memtable \<Rightarrow> bool" where
  "Memtable_ShouldFlush m \<longleftrightarrow> mt_size m \<ge> maxMemtableSize"

definition Memtable_Size :: "Memtable \<Rightarrow> nat" where
  "Memtable_Size m = mt_size m"

definition Memtable_Snapshot :: "Memtable \<Rightarrow> memEntry list" where
  "Memtable_Snapshot m = mt_entries m"

section \<open>Sorted entry lists\<close>

text \<open>
  Entry lists occur as buffer contents, as table contents and as merge inputs. \<open>keys_sorted\<close>
  is what \<open>SSTableWriter.Write\<close> demands of its input; \<open>lookup_entry\<close> is the entry of a key.
\<close>

definition keys_sorted :: "memEntry list \<Rightarrow> bool" where
  "keys_sorted es \<longleftrightarrow> sorted_wrt (<) (map me_key es)"

definition lookup_entry :: "memEntry list \<Rightarrow> string \<Rightarrow> memEntry option" where
  "lookup_entry es k = find (\<lambda>e. me_key e = k) es"

definition live_value :: "memEntry option \<Rightarrow> bytes option" where
  "live_value r = (case r of None \<Rightarrow> None
     | Some e \<Rightarrow> if me_kind e = kindDelete then None else Some (me_value e))"

lemma kinds_distinct [simp]: "kindPut \<noteq> kindDelete" "kindDelete \<noteq> kindPut"
  by (simp_all add: kindPut_def kindDelete_def)

lemma live_value_simps [simp]:
  "live_value None = None"
  "me_kind e = kindDelete \<Longrightarrow> live_value (Some e) = None"
  "me_kind e \<noteq> kindDelete \<Longrightarrow> live_value (Some e) = Some (me_value e)"
  by (simp_all add: live_value_def)

lemma keys_sorted_simps [simp]:
  "keys_sorted []"
  "keys_sorted (e # es) \<longleftrightarrow> (\<forall>x \<in> set es. me_key e < me_key x) \<and> keys_sorted es"
  by (simp_all add: keys_sorted_def)

lemma keys_sorted_append:
  "keys_sorted (xs @ ys) \<longleftrightarrow>
     keys_sorted xs \<and> keys_sorted ys \<and> (\<forall>x \<in> set xs. \<forall>y \<in> set ys. me_key x < me_key y)"
  by (induction xs) auto

lemma lookup_entry_simps [simp]:
  "lookup_entry [] k = None"
  "lookup_entry (e # es) k = (if me_key e = k then Some e else lookup_entry es k)"
  by (simp_all add: lookup_entry_def)

lemma lookup_entry_append:
  "lookup_entry (xs @ ys) k =
     (case lookup_entry xs k of None \<Rightarrow> lookup_entry ys k | Some e \<Rightarrow> Some e)"
  by (induction xs) auto

lemma lookup_entry_SomeD: "lookup_entry es k = Some e \<Longrightarrow> e \<in> set es \<and> me_key e = k"
  by (induction es) (auto split: if_splits)

lemma lookup_entry_None: "lookup_entry es k = None \<longleftrightarrow> k \<notin> me_key ` set es"
  by (induction es) auto

lemma lookup_entry_mem:
  "keys_sorted es \<Longrightarrow> e \<in> set es \<Longrightarrow> lookup_entry es (me_key e) = Some e"
  by (induction es) auto

lemma keys_sorted_nth:
  "keys_sorted es \<Longrightarrow> i < j \<Longrightarrow> j < length es \<Longrightarrow> me_key (es ! i) < me_key (es ! j)"
  unfolding keys_sorted_def by (drule sorted_wrt_nth_less[of "(<)" _ i j]) auto

lemma keys_sorted_mono_upto:
  assumes "keys_sorted es"
  shows "mono_upto (length es) (\<lambda>i. k \<le> me_key (es ! i))"
  unfolding mono_upto_def
proof (intro allI impI)
  fix a b assume "a \<le> b" "b < length es" "k \<le> me_key (es ! a)"
  then show "k \<le> me_key (es ! b)"
    using keys_sorted_nth[OF assms, of a b] by (cases "a = b") auto
qed

text \<open>
  Where the binary search lands: the list splits at the found position into the keys below
  and the keys from \<open>k\<close> on.
\<close>

lemma search_split:
  assumes "keys_sorted es"
    and "idx = sort_Search (length es) (\<lambda>i. k \<le> me_key (es ! i))"
  shows "idx \<le> length es" and "\<forall>x \<in> set (take idx es). me_key x < k"
    and "\<forall>x \<in> set (drop idx es). k \<le> me_key x"
proof -
  have s: "splits_at (length es) (\<lambda>i. k \<le> me_key (es ! i)) idx"
    using sort_Search_splits[OF keys_sorted_mono_upto[OF assms(1)]] assms(2) by simp
  then show "idx \<le> length es" by (simp add: splits_at_def)
  show "\<forall>x \<in> set (take idx es). me_key x < k"
    using s by (auto simp: splits_at_def in_set_conv_nth not_le)
  show "\<forall>x \<in> set (drop idx es). k \<le> me_key x"
    using s by (auto simp: splits_at_def in_set_conv_nth)
qed

lemma lookup_entry_search:
  assumes "keys_sorted es"
    and "idx = sort_Search (length es) (\<lambda>i. k \<le> me_key (es ! i))"
  shows "lookup_entry es k =
    (if idx < length es \<and> me_key (es ! idx) = k then Some (es ! idx) else None)"
proof -
  note s = search_split[OF assms]
  have low: "lookup_entry (take idx es) k = None"
    using s(2) by (auto simp: lookup_entry_None)
  have "es = take idx es @ drop idx es" by simp
  then have e: "lookup_entry es k = lookup_entry (drop idx es) k"
    using low lookup_entry_append[of "take idx es" "drop idx es" k] by simp
  show ?thesis
  proof (cases "idx < length es")
    case True
    then have d: "drop idx es = es ! idx # drop (Suc idx) es" by (rule Cons_nth_drop_Suc[symmetric])
    have "keys_sorted (take idx es @ drop idx es)" using assms(1) by simp
    then have "keys_sorted (drop idx es)" unfolding keys_sorted_append by simp
    then have "k \<notin> me_key ` set (drop (Suc idx) es)"
      using s(3) unfolding d by auto
    then have "lookup_entry (drop (Suc idx) es) k = None" by (simp add: lookup_entry_None)
    then show ?thesis using True e d by simp
  qed (use e s(1) in simp)
qed

section \<open>The buffer as a map\<close>

definition mt_wf :: "Memtable \<Rightarrow> bool" where
  "mt_wf m \<longleftrightarrow> keys_sorted (mt_entries m)
     \<and> (\<forall>e \<in> set (mt_entries m). me_seq e \<le> mt_seq m \<and> (me_kind e = kindPut \<or> me_kind e = kindDelete))
     \<and> (\<Sum>e \<leftarrow> mt_entries m. length (me_key e) + length (me_value e) + 16) \<le> mt_size m"

abbreviation mt_lookup :: "Memtable \<Rightarrow> string \<Rightarrow> memEntry option" where
  "mt_lookup m k \<equiv> lookup_entry (mt_entries m) k"

lemma Memtable_Get_lookup: "mt_wf m \<Longrightarrow> Memtable_Get k m = live_value (mt_lookup m k)"
  unfolding Memtable_Get_def Let_def mt_wf_def
  by (subst lookup_entry_search[OF _ refl]) (auto simp: live_value_def)

text \<open>
  The insertion, seen through the split of the list at the search position: a new entry goes
  between the smaller and the larger keys, an existing entry of the key is replaced.
\<close>

lemma Memtable_insert_entries:
  assumes "keys_sorted (mt_entries m)"
  obtains xs ys where
    "mt_entries (Memtable_insert e m) = xs @ e # ys"
    "mt_entries m = xs @ ys \<or> (\<exists>old. me_key old = me_key e \<and> mt_entries m = xs @ old # ys)"
    "\<forall>x \<in> set xs. me_key x < me_key e" "\<forall>y \<in> set ys. me_key e < me_key y"
proof -
  define es where "es = mt_entries m"
  define idx where "idx = sort_Search (length es) (\<lambda>i. me_key e \<le> me_key (es ! i))"
  have srt: "keys_sorted es" using assms by (simp add: es_def)
  note s = search_split[OF srt idx_def]
  have srt2: "keys_sorted (take idx es @ drop idx es)" using srt by simp
  show thesis
  proof (cases "idx < length es \<and> me_key (es ! idx) = me_key e")
    case True
    then have d: "es = take idx es @ es ! idx # drop (Suc idx) es" by (simp add: id_take_nth_drop)
    have "mt_entries (Memtable_insert e m) = es[idx := e]"
      using True by (simp add: Memtable_insert_def Let_def es_def idx_def)
    also have "\<dots> = take idx es @ e # drop (Suc idx) es" using True by (simp add: upd_conv_take_nth_drop)
    finally have 1: "mt_entries (Memtable_insert e m) = take idx es @ e # drop (Suc idx) es" .
    have "keys_sorted (es ! idx # drop (Suc idx) es)"
      using srt d keys_sorted_append by metis
    then have "\<forall>y \<in> set (drop (Suc idx) es). me_key e < me_key y" using True by simp
    with 1 d s(2) True show thesis using that es_def by metis
  next
    case False
    then have 1: "mt_entries (Memtable_insert e m) = take idx es @ e # drop idx es"
      by (auto simp: Memtable_insert_def Let_def es_def[symmetric] idx_def[symmetric])
    have "\<forall>y \<in> set (drop idx es). me_key e < me_key y"
    proof
      fix y assume y: "y \<in> set (drop idx es)"
      then have lt: "idx < length es" by (metis drop_all empty_iff empty_set not_le)
      then have d: "drop idx es = es ! idx # drop (Suc idx) es" by (rule Cons_nth_drop_Suc[symmetric])
      have "me_key e \<le> me_key (es ! idx)" using s(3) d by simp
      moreover have "me_key (es ! idx) \<noteq> me_key e" using False lt by simp
      ultimately have "me_key e < me_key (es ! idx)" by simp
      moreover have "keys_sorted (drop idx es)" using srt2 unfolding keys_sorted_append by simp
      ultimately show "me_key e < me_key y" using y unfolding d by auto
    qed
    with 1 s(2) show thesis using that[of "take idx es" "drop idx es"] by (simp add: es_def)
  qed
qed

lemma Memtable_insert_fields [simp]:
  "mt_size (Memtable_insert e m) = mt_size m" "mt_seq (Memtable_insert e m) = mt_seq m"
  by (simp_all add: Memtable_insert_def Let_def)

lemma keys_sorted_insert:
  assumes "keys_sorted (mt_entries m)"
  shows "keys_sorted (mt_entries (Memtable_insert e m))"
proof -
  obtain xs ys where *: "mt_entries (Memtable_insert e m) = xs @ e # ys"
    "mt_entries m = xs @ ys \<or> (\<exists>old. me_key old = me_key e \<and> mt_entries m = xs @ old # ys)"
    "\<forall>x \<in> set xs. me_key x < me_key e" "\<forall>y \<in> set ys. me_key e < me_key y"
    by (rule Memtable_insert_entries[OF assms])
  from *(2) assms have "keys_sorted (xs @ ys)" by (auto simp: keys_sorted_append)
  with * show ?thesis by (auto simp: keys_sorted_append)
qed

lemma lookup_insert:
  assumes "keys_sorted (mt_entries m)"
  shows "mt_lookup (Memtable_insert e m) k = (if k = me_key e then Some e else mt_lookup m k)"
proof -
  obtain xs ys where *: "mt_entries (Memtable_insert e m) = xs @ e # ys"
    "mt_entries m = xs @ ys \<or> (\<exists>old. me_key old = me_key e \<and> mt_entries m = xs @ old # ys)"
    "\<forall>x \<in> set xs. me_key x < me_key e" "\<forall>y \<in> set ys. me_key e < me_key y"
    by (rule Memtable_insert_entries[OF assms])
  have "lookup_entry xs (me_key e) = None" using *(3) by (auto simp: lookup_entry_None)
  with * show ?thesis by (auto simp: lookup_entry_append split: option.splits)
qed

lemma set_insert_subset:
  assumes "keys_sorted (mt_entries m)"
  shows "set (mt_entries (Memtable_insert e m)) \<subseteq> insert e (set (mt_entries m))"
  by (rule Memtable_insert_entries[OF assms, of e]) auto

lemma weight_insert:
  fixes w :: "memEntry \<Rightarrow> nat"
  assumes "keys_sorted (mt_entries m)"
  shows "(\<Sum>x \<leftarrow> mt_entries (Memtable_insert e m). w x) \<le> (\<Sum>x \<leftarrow> mt_entries m. w x) + w e"
  by (rule Memtable_insert_entries[OF assms, of e]) auto

lemma mt_wf_New [simp]: "mt_wf NewMemtable"
  by (simp add: mt_wf_def NewMemtable_def)

lemma mt_lookup_New [simp]: "mt_lookup NewMemtable k = None"
  by (simp add: NewMemtable_def)

text \<open>\<open>Put\<close> and \<open>Delete\<close> write one entry each: the facts about both rest on this one.\<close>

lemma mt_wf_write:
  assumes "mt_wf m" and "me_seq e \<le> Suc (mt_seq m)" and "me_kind e = kindPut \<or> me_kind e = kindDelete"
    and "length (me_key e) + length (me_value e) + 16 \<le> d"
  shows "mt_wf ((Memtable_insert e (m\<lparr>mt_seq := Suc (mt_seq m)\<rparr>))\<lparr>mt_size := mt_size m + d\<rparr>)"
proof -
  let ?m1 = "m\<lparr>mt_seq := Suc (mt_seq m)\<rparr>"
  have s: "keys_sorted (mt_entries ?m1)" using assms(1) by (simp add: mt_wf_def)
  show ?thesis
    using assms keys_sorted_insert[OF s] set_insert_subset[OF s, of e]
      weight_insert[OF s, of "\<lambda>x. length (me_key x) + length (me_value x) + 16" e]
    by (fastforce simp: mt_wf_def)
qed

lemma mt_wf_Put [simp]: "mt_wf m \<Longrightarrow> mt_wf (Memtable_Put k v m)"
  unfolding Memtable_Put_def Let_def
  using mt_wf_write[of m "\<lparr>me_key = k, me_value = v, me_kind = kindPut, me_seq = Suc (mt_seq m)\<rparr>"
      "length k + length v + 16"] by simp

lemma mt_wf_Delete [simp]: "mt_wf m \<Longrightarrow> mt_wf (Memtable_Delete k m)"
  unfolding Memtable_Delete_def Let_def
  using mt_wf_write[of m "\<lparr>me_key = k, me_value = [], me_kind = kindDelete, me_seq = Suc (mt_seq m)\<rparr>"
      "length k + 16"] by simp

lemma mt_lookup_Put:
  "mt_wf m \<Longrightarrow> mt_lookup (Memtable_Put k v m) q =
     (if q = k then Some \<lparr>me_key = k, me_value = v, me_kind = kindPut, me_seq = Suc (mt_seq m)\<rparr>
      else mt_lookup m q)"
  unfolding Memtable_Put_def Let_def by (simp add: lookup_insert mt_wf_def)

lemma mt_lookup_Delete:
  "mt_wf m \<Longrightarrow> mt_lookup (Memtable_Delete k m) q =
     (if q = k then Some \<lparr>me_key = k, me_value = [], me_kind = kindDelete, me_seq = Suc (mt_seq m)\<rparr>
      else mt_lookup m q)"
  unfolding Memtable_Delete_def Let_def by (simp add: lookup_insert mt_wf_def)

lemma mt_size_Put [simp]: "mt_size (Memtable_Put k v m) = mt_size m + (length k + length v + 16)"
  by (simp add: Memtable_Put_def Let_def)

lemma mt_size_Delete [simp]: "mt_size (Memtable_Delete k m) = mt_size m + (length k + 16)"
  by (simp add: Memtable_Delete_def Let_def)

text \<open>
  \<open>doFlush\<close> and \<open>Close\<close> take a size of zero for an empty buffer; the accounting never lets a
  buffer with entries have that size.
\<close>

lemma mt_size_zero_empty: "mt_wf m \<Longrightarrow> Memtable_Size m = 0 \<Longrightarrow> mt_entries m = []"
  by (cases "mt_entries m") (auto simp: mt_wf_def Memtable_Size_def)

section \<open>The contract of a key-value store\<close>

datatype kv_op = KvPut string bytes | KvDelete string

primrec apply_op :: "kv_op \<Rightarrow> (string \<Rightarrow> bytes option) \<Rightarrow> (string \<Rightarrow> bytes option)" where
  "apply_op (KvPut k v) f = f(k := Some v)"
| "apply_op (KvDelete k) f = f(k := None)"

primrec run_op :: "(string \<Rightarrow> bytes \<Rightarrow> 's \<Rightarrow> 's) \<Rightarrow> (string \<Rightarrow> 's \<Rightarrow> 's) \<Rightarrow> kv_op \<Rightarrow> 's \<Rightarrow> 's" where
  "run_op put del (KvPut k v) s = put k v s"
| "run_op put del (KvDelete k) s = del k s"

locale kv_store =
  fixes put :: "string \<Rightarrow> bytes \<Rightarrow> 's \<Rightarrow> 's"
    and del :: "string \<Rightarrow> 's \<Rightarrow> 's"
    and contents :: "'s \<Rightarrow> string \<Rightarrow> bytes option"
    and invar :: "'s \<Rightarrow> bool"
  assumes contents_put: "invar s \<Longrightarrow> contents (put k v s) = (contents s)(k := Some v)"
    and contents_del: "invar s \<Longrightarrow> contents (del k s) = (contents s)(k := None)"
    and invar_put: "invar s \<Longrightarrow> invar (put k v s)"
    and invar_del: "invar s \<Longrightarrow> invar (del k s)"
begin

lemma run_op_invar: "invar s \<Longrightarrow> invar (run_op put del op s)"
  by (cases op) (simp_all add: invar_put invar_del)

lemma run_op_contents: "invar s \<Longrightarrow> contents (run_op put del op s) = apply_op op (contents s)"
  by (cases op) (simp_all add: contents_put contents_del)

lemma run_ops_refine:
  "invar s \<Longrightarrow> invar (fold (run_op put del) ops s)
     \<and> contents (fold (run_op put del) ops s) = fold apply_op ops (contents s)"
  by (induction ops arbitrary: s) (simp_all add: run_op_invar run_op_contents)

end

interpretation mt: kv_store Memtable_Put Memtable_Delete "\<lambda>m k. Memtable_Get k m" mt_wf
proof unfold_locales
  fix m :: Memtable and k v
  assume wf: "mt_wf m"
  show "(\<lambda>q. Memtable_Get q (Memtable_Put k v m)) = (\<lambda>q. Memtable_Get q m)(k := Some v)"
    using wf by (auto simp: Memtable_Get_lookup mt_lookup_Put)
  show "(\<lambda>q. Memtable_Get q (Memtable_Delete k m)) = (\<lambda>q. Memtable_Get q m)(k := None)"
    using wf by (auto simp: Memtable_Get_lookup mt_lookup_Delete)
qed simp_all

section \<open>Properties\<close>

text \<open>
  Every sequence of puts and deletes on a fresh buffer leaves it well formed (keys
  strictly ascending, sequence numbers bounded by the counter, the size at least the bytes
  held), and \<open>Get\<close>, with its binary search, then returns exactly what the same sequence of
  updates leaves in a finite map.
\<close>

lemma Memtable_refines_map:
  "mt_wf (fold (run_op Memtable_Put Memtable_Delete) ops NewMemtable)
   \<and> Memtable_Get k (fold (run_op Memtable_Put Memtable_Delete) ops NewMemtable)
       = fold apply_op ops (\<lambda>_. None) k"
proof -
  have "(\<lambda>k. Memtable_Get k NewMemtable) = (\<lambda>_. None)"
    by (simp add: Memtable_Get_lookup)
  then show ?thesis
    using mt.run_ops_refine[OF mt_wf_New, of ops] by (metis (no_types, lifting))
qed

end
