(* ===== verification/KV_SSTable.thy ===== *)
theory KV_SSTable
  imports KV_Memtable
begin

unbundle bit_operations_syntax

text \<open>
  The immutable table files of \<open>storage/sstable.go\<close>: the bloom filter with its FNV-1a hash,
  the file format (data block, filter block, footer), the writer and the two readers, and the
  k-way merge used by compaction and by snapshots. Files are byte lists in a directory; an
  open reader holds its path and its filter, as in the source, and reads the file anew on
  every call.
\<close>

section \<open>Bloom filter\<close>

definition bloomSize :: nat where
  "bloomSize = 1024"

definition bloomHashes :: nat where
  "bloomHashes = 7"

type_synonym bloomFilter = bytes

definition newBloom :: bloomFilter where
  "newBloom = replicate bloomSize 0"

text \<open>\<open>fnv.New32a\<close>: the offset basis and \<open>Write\<close>, which xors each byte in and multiplies.\<close>

definition fnv32a_init :: "32 word" where
  "fnv32a_init = 2166136261"

definition fnv32a_Write :: "bytes \<Rightarrow> 32 word \<Rightarrow> 32 word" where
  "fnv32a_Write bs h = foldl (\<lambda>h b. (h XOR ucast b) * 16777619) h bs"

definition bloom_hash :: "string \<Rightarrow> 32 word \<Rightarrow> 32 word" where
  "bloom_hash k seed =
     fnv32a_Write (string_bytes k)
       (fnv32a_Write
          [ucast (drop_bit 24 seed), ucast (drop_bit 16 seed), ucast (drop_bit 8 seed), ucast seed]
          fnv32a_init)"

definition bloom_index :: "string \<Rightarrow> nat \<Rightarrow> nat" where
  "bloom_index k i = unat (bloom_hash k (word_of_nat i)) mod bloomSize"

definition bloom_add :: "string \<Rightarrow> bloomFilter \<Rightarrow> bloomFilter" where
  "bloom_add k b =
     foldl (\<lambda>b i. b[bloom_index k i := (b ! bloom_index k i) OR 1]) b [0..<bloomHashes]"

definition bloom_mightContain :: "bloomFilter \<Rightarrow> string \<Rightarrow> bool" where
  "bloom_mightContain b k = list_all (\<lambda>i. b ! bloom_index k i \<noteq> 0) [0..<bloomHashes]"

text \<open>A filter only gains non-zero bytes, and adding a key makes all of its bytes non-zero.\<close>

definition bloom_le :: "bloomFilter \<Rightarrow> bloomFilter \<Rightarrow> bool" where
  "bloom_le a b \<longleftrightarrow> length a = length b \<and> (\<forall>i < length a. a ! i \<noteq> 0 \<longrightarrow> b ! i \<noteq> 0)"

lemma or_1_nonzero: "(x :: byte) OR 1 \<noteq> 0"
proof
  assume "x OR 1 = 0"
  then have "bit (x OR 1) 0 = bit (0 :: byte) 0" by simp
  then show False by (simp add: bit_simps)
qed

lemma bloom_le_trans [trans]: "bloom_le a b \<Longrightarrow> bloom_le b c \<Longrightarrow> bloom_le a c"
  by (auto simp: bloom_le_def)

lemma bloom_set_fold:
  "length b = bloomSize \<Longrightarrow>
   (let b' = foldl (\<lambda>b i. b[bloom_index k i := (b ! bloom_index k i) OR 1]) b is
    in bloom_le b b' \<and> length b' = bloomSize \<and> (\<forall>i \<in> set is. b' ! bloom_index k i \<noteq> 0))"
proof (induction "is" arbitrary: b)
  case Nil
  then show ?case by (simp add: bloom_le_def)
next
  case (Cons i "is")
  have lt: "bloom_index k i < length b"
    using Cons.prems by (simp add: bloom_index_def bloomSize_def)
  define c where "c = b[bloom_index k i := (b ! bloom_index k i) OR 1]"
  have c: "length c = bloomSize" "bloom_le b c" "c ! bloom_index k i \<noteq> 0"
    using Cons.prems lt or_1_nonzero by (auto simp: c_def bloom_le_def nth_list_update)
  define d where "d = foldl (\<lambda>b i. b[bloom_index k i := (b ! bloom_index k i) OR 1]) c is"
  have d: "bloom_le c d" "length d = bloomSize" "\<forall>i \<in> set is. d ! bloom_index k i \<noteq> 0"
    using Cons.IH[OF c(1)] by (auto simp: Let_def d_def)
  have "d ! bloom_index k i \<noteq> 0" using c d(1) lt Cons.prems by (auto simp: bloom_le_def)
  then show ?case
    using c d bloom_le_trans[OF c(2) d(1)] by (simp add: Let_def c_def[symmetric] d_def[symmetric])
qed

lemma bloom_add_props:
  assumes "length b = bloomSize"
  shows "length (bloom_add k b) = bloomSize" and "bloom_le b (bloom_add k b)"
    and "bloom_mightContain (bloom_add k b) k"
  using bloom_set_fold[OF assms, of k "[0..<bloomHashes]"]
  by (simp_all add: bloom_add_def bloom_mightContain_def list_all_iff Let_def)

lemma bloom_index_less: "bloom_index k i < bloomSize"
  by (simp add: bloom_index_def bloomSize_def)

lemma mightContain_mono:
  "length b = bloomSize \<Longrightarrow> bloom_le b c \<Longrightarrow> bloom_mightContain b k \<Longrightarrow> bloom_mightContain c k"
  by (auto simp: bloom_mightContain_def list_all_iff bloom_le_def bloom_index_less)

lemma length_newBloom [simp]: "length newBloom = bloomSize"
  by (simp add: newBloom_def)

lemma bloom_add_all:
  "length b = bloomSize \<Longrightarrow>
   length (fold bloom_add ks b) = bloomSize \<and> bloom_le b (fold bloom_add ks b)
   \<and> (\<forall>k \<in> set ks. bloom_mightContain (fold bloom_add ks b) k)"
proof (induction ks arbitrary: b)
  case Nil
  then show ?case by (simp add: bloom_le_def)
next
  case (Cons k ks)
  note a = bloom_add_props[OF Cons.prems, of k]
  note ih = Cons.IH[OF a(1)]
  have "bloom_mightContain (fold bloom_add ks (bloom_add k b)) k"
    using ih a mightContain_mono by blast
  then show ?case using ih a bloom_le_trans by auto
qed

section \<open>File format\<close>

definition sstMagic :: "32 word" where
  "sstMagic = 0xDEADB0B5"

definition encode_entry :: "memEntry \<Rightarrow> bytes" where
  "encode_entry e =
     PutUint32 (uint32_len (me_key e)) @ string_bytes (me_key e)
     @ PutUint32 (uint32_len (me_value e)) @ me_value e @ [me_kind e]"

definition data_block :: "memEntry list \<Rightarrow> bytes" where
  "data_block es = concat (map encode_entry es)"

text \<open>
  \<open>SSTableWriter.Write\<close>: the bytes of the whole file. Failures of the disk are the engine's
  concern: \<open>doFlush\<close> and \<open>doCompaction\<close> take the outcome of the write as an argument.
\<close>

definition SSTableWriter_Write :: "memEntry list \<Rightarrow> bytes" where
  "SSTableWriter_Write es =
     (let bloom = fold (\<lambda>e b. bloom_add (me_key e) b) es newBloom;
          bloomOffset = length (data_block es)
      in data_block es @ bloom
         @ PutUint64 (word_of_nat bloomOffset) @ PutUint64 (word_of_nat bloomSize)
         @ PutUint32 (uint32_len es) @ PutUint32 sstMagic)"

datatype sst_error = SstNoFile | SstTooSmall | SstBadMagic | SstSeekBloom | SstReadBloom | SstSeekFooter

record SSTableReader =
  r_path :: string
  r_bloom :: bloomFilter
  r_entryCount :: "32 word"

text \<open>\<open>f.Seek(int64(off), io.SeekStart)\<close> fails on a negative offset; seeking past the end is allowed.\<close>

definition seek_start :: "64 word \<Rightarrow> bytes \<Rightarrow> bytes option" where
  "seek_start off f = (if sint off < 0 then None else Some (drop (nat (sint off)) f))"

definition OpenSSTable :: "dir \<Rightarrow> string \<Rightarrow> sst_error + SSTableReader" where
  "OpenSSTable d p =
     (case dir_get d p of
        None \<Rightarrow> Inl SstNoFile
      | Some f \<Rightarrow>
          if length f < 24 then Inl SstTooSmall
          else
            (let footer = drop (length f - 24) f;
                 magic = Uint32 (take 4 (drop 20 footer))
             in if magic \<noteq> sstMagic then Inl SstBadMagic
                else
                  (let bloomOffset = Uint64 (take 8 footer);
                       entryCount = Uint32 (take 4 (drop 16 footer))
                   in case seek_start bloomOffset f of
                        None \<Rightarrow> Inl SstSeekBloom
                      | Some rest \<Rightarrow>
                          (case ReadFull bloomSize rest of
                             ReadOk bits _ \<Rightarrow>
                               Inr \<lparr>r_path = p, r_bloom = bits, r_entryCount = entryCount\<rparr>
                           | _ \<Rightarrow> Inl SstReadBloom))))"

text \<open>
  One record of the data block, as the loops of \<open>Get\<close> and \<open>IterateAll\<close> read it: any short read
  ends the loop (\<open>break\<close>), which is \<open>None\<close> here.
\<close>

definition read_entry :: "bytes \<Rightarrow> (memEntry \<times> bytes) option" where
  "read_entry bs =
     (case ReadUint32 bs of
        ReadOk keyLen r1 \<Rightarrow>
          (case ReadFull (unat keyLen) r1 of
             ReadOk keyBytes r2 \<Rightarrow>
               (case ReadUint32 r2 of
                  ReadOk valLen r3 \<Rightarrow>
                    (case (if 0 < valLen then ReadFull (unat valLen) r3 else ReadOk [] r3) of
                       ReadOk valBytes r4 \<Rightarrow>
                         (case r4 of
                            [] \<Rightarrow> None
                          | kindByte # r5 \<Rightarrow>
                              Some (\<lparr>me_key = bytes_string keyBytes, me_value = valBytes,
                                     me_kind = kindByte, me_seq = 0\<rparr>, r5))
                     | _ \<Rightarrow> None)
                | _ \<Rightarrow> None)
           | _ \<Rightarrow> None)
      | _ \<Rightarrow> None)"

lemma read_entry_shorter: "read_entry bs = Some (e, rest) \<Longrightarrow> length rest < length bs"
  by (auto simp: read_entry_def dest!: ReadUint32_OkD ReadFull_OkD
      split: read.splits list.splits if_splits)

function sst_scan :: "string \<Rightarrow> bytes \<Rightarrow> (bytes \<times> byte) option" where
  "sst_scan k bs =
     (case read_entry bs of
        None \<Rightarrow> None
      | Some (e, rest) \<Rightarrow>
          if me_key e = k then Some (me_value e, me_kind e)
          else if me_key e > k then None
          else sst_scan k rest)"
  by pat_completeness auto
termination
  by (relation "measure (\<lambda>(k, bs). length bs)") (auto dest: read_entry_shorter)

declare sst_scan.simps [simp del]

definition SSTableReader_Get :: "dir \<Rightarrow> SSTableReader \<Rightarrow> string \<Rightarrow> (bytes \<times> byte) option" where
  "SSTableReader_Get d r k =
     (if \<not> bloom_mightContain (r_bloom r) k then None
      else case dir_get d (r_path r) of None \<Rightarrow> None | Some f \<Rightarrow> sst_scan k f)"

function iterate_loop :: "int \<Rightarrow> int \<Rightarrow> bytes \<Rightarrow> memEntry list" where
  "iterate_loop pos bloomOffset bs =
     (if pos < bloomOffset then
        (case read_entry bs of
           None \<Rightarrow> []
         | Some (e, rest) \<Rightarrow> e # iterate_loop (pos + int (length bs - length rest)) bloomOffset rest)
      else [])"
  by pat_completeness auto
termination
  by (relation "measure (\<lambda>(pos, off, bs). length bs)") (auto dest: read_entry_shorter)

declare iterate_loop.simps [simp del]

definition SSTableReader_IterateAll :: "dir \<Rightarrow> SSTableReader \<Rightarrow> sst_error + memEntry list" where
  "SSTableReader_IterateAll d r =
     (case dir_get d (r_path r) of
        None \<Rightarrow> Inl SstNoFile
      | Some f \<Rightarrow>
          if length f < 24 then Inl SstSeekFooter
          else (let bloomOffset = Uint64 (take 8 (drop (length f - 24) f))
                in Inr (iterate_loop 0 (sint bloomOffset) f)))"

section \<open>Round trips\<close>

definition entry_fits :: "memEntry \<Rightarrow> bool" where
  "entry_fits e \<longleftrightarrow> length (me_key e) < 2 ^ 32 \<and> length (me_value e) < 2 ^ 32"

definition table_fits :: "memEntry list \<Rightarrow> bool" where
  "table_fits es \<longleftrightarrow> list_all entry_fits es \<and> length (data_block es) < 2 ^ 63"

definition forget_seq :: "memEntry \<Rightarrow> memEntry" where
  "forget_seq e = e\<lparr>me_seq := 0\<rparr>"

lemma forget_seq_fields [simp]:
  "me_key (forget_seq e) = me_key e" "me_value (forget_seq e) = me_value e"
  "me_kind (forget_seq e) = me_kind e"
  by (simp_all add: forget_seq_def)

lemma zero_less_uint32_len:
  "length xs < 2 ^ 32 \<Longrightarrow> 0 < uint32_len xs \<longleftrightarrow> xs \<noteq> []"
  by (metis length_0_conv neq0_conv unat_eq_zero unat_uint32_len word_neq_0_conv)

lemma read_encode_entry [simp, codec_simps]:
  assumes "entry_fits e"
  shows "read_entry (encode_entry e @ rest) = Some (forget_seq e, rest)"
  using assms unfolding entry_fits_def
  by (cases "me_value e = []")
     (simp_all add: read_entry_def encode_entry_def forget_seq_def zero_less_uint32_len)

lemma data_block_simps [simp]:
  "data_block [] = []" "data_block (e # es) = encode_entry e @ data_block es"
  by (simp_all add: data_block_def)

lemma length_encode_entry: "length (encode_entry e) = length (me_key e) + length (me_value e) + 9"
  by (simp add: encode_entry_def)

lemma sst_scan_encode:
  "entry_fits e \<Longrightarrow> sst_scan k (encode_entry e @ rest) =
     (if me_key e = k then Some (me_value e, me_kind e) else if me_key e > k then None
      else sst_scan k rest)"
  by (subst sst_scan.simps) simp

lemma iterate_loop_encode:
  "entry_fits e \<Longrightarrow> iterate_loop pos off (encode_entry e @ rest) =
     (if pos < off then forget_seq e # iterate_loop (pos + int (length (encode_entry e))) off rest else [])"
  by (subst iterate_loop.simps) simp

lemma iterate_loop_data_block:
  "list_all entry_fits es \<Longrightarrow> off = pos + int (length (data_block es)) \<Longrightarrow>
   iterate_loop pos off (data_block es @ rest) = map forget_seq es"
proof (induction es arbitrary: pos)
  case Nil
  then show ?case by (subst iterate_loop.simps) simp
next
  case (Cons e es)
  then show ?case by (simp add: iterate_loop_encode length_encode_entry add.assoc)
qed

lemma sst_scan_found:
  "list_all entry_fits es \<Longrightarrow> keys_sorted es \<Longrightarrow> lookup_entry es k = Some e \<Longrightarrow>
   sst_scan k (data_block es @ rest) = Some (me_value e, me_kind e)"
proof (induction es)
  case (Cons x es)
  then show ?case
    using lookup_entry_SomeD[of es k e] by (auto simp: sst_scan_encode split: if_splits)
qed simp

lemma sst_scan_absent:
  "list_all entry_fits es \<Longrightarrow> lookup_entry es k = None \<Longrightarrow> \<exists>x \<in> set es. k < me_key x \<Longrightarrow>
   sst_scan k (data_block es @ rest) = None"
  by (induction es) (auto simp: sst_scan_encode split: if_splits)

text \<open>The filter the writer builds and the parts of the file it writes.\<close>

definition table_bloom :: "memEntry list \<Rightarrow> bloomFilter" where
  "table_bloom es = fold bloom_add (map me_key es) newBloom"

lemma table_bloom_props:
  "length (table_bloom es) = bloomSize"
  "e \<in> set es \<Longrightarrow> bloom_mightContain (table_bloom es) (me_key e)"
  using bloom_add_all[of newBloom "map me_key es"] by (auto simp: table_bloom_def)

definition table_footer :: "memEntry list \<Rightarrow> bytes" where
  "table_footer es = PutUint64 (word_of_nat (length (data_block es))) @ PutUint64 (word_of_nat bloomSize)
     @ PutUint32 (uint32_len es) @ PutUint32 sstMagic"

lemma Write_parts: "SSTableWriter_Write es = data_block es @ table_bloom es @ table_footer es"
proof -
  have "fold (\<lambda>e b. bloom_add (me_key e) b) es b = fold bloom_add (map me_key es) b" for b
    by (induction es arbitrary: b) auto
  then show ?thesis by (simp add: SSTableWriter_Write_def Let_def table_bloom_def table_footer_def)
qed

lemma length_table_footer [simp]: "length (table_footer es) = 24"
  by (simp add: table_footer_def)

lemma length_Write: "length (SSTableWriter_Write es) = length (data_block es) + bloomSize + 24"
  by (simp add: Write_parts table_bloom_props)

lemma Write_footer: "drop (length (SSTableWriter_Write es) - 24) (SSTableWriter_Write es) = table_footer es"
  unfolding length_Write by (simp add: Write_parts table_bloom_props)

lemma footer_fields:
  "Uint64 (take 8 (table_footer es)) = word_of_nat (length (data_block es))"
  "Uint32 (take 4 (drop 16 (table_footer es))) = uint32_len es"
  "Uint32 (take 4 (drop 20 (table_footer es))) = sstMagic"
  "Uint32 (drop 20 (table_footer es)) = sstMagic"
  by (simp_all add: table_footer_def)

lemma sint_word_of_nat_small: "n < 2 ^ 63 \<Longrightarrow> sint (word_of_nat n :: 64 word) = int n"
  by (simp add: signed_of_nat signed_take_bit_int_eq_self)

definition reader_of :: "string \<Rightarrow> memEntry list \<Rightarrow> SSTableReader" where
  "reader_of p es = \<lparr>r_path = p, r_bloom = table_bloom es, r_entryCount = uint32_len es\<rparr>"

lemma Open_Write:
  assumes "dir_get d p = Some (SSTableWriter_Write es)" and "length (data_block es) < 2 ^ 63"
  shows "OpenSSTable d p = Inr (reader_of p es)"
proof -
  have "seek_start (word_of_nat (length (data_block es))) (SSTableWriter_Write es)
      = Some (table_bloom es @ table_footer es)"
    using assms(2) by (simp add: seek_start_def sint_word_of_nat_small Write_parts)
  moreover have "\<not> length (SSTableWriter_Write es) < 24" by (simp add: length_Write)
  ultimately show ?thesis
    using assms(1) unfolding OpenSSTable_def
    by (simp add: Write_footer footer_fields Let_def table_bloom_props reader_of_def)
qed

lemma IterateAll_Write:
  assumes "dir_get d (r_path r) = Some (SSTableWriter_Write es)" and "table_fits es"
  shows "SSTableReader_IterateAll d r = Inr (map forget_seq es)"
proof -
  have "\<not> length (SSTableWriter_Write es) < 24" by (simp add: length_Write)
  moreover have "iterate_loop 0 (int (length (data_block es))) (SSTableWriter_Write es) = map forget_seq es"
    using assms(2) by (simp add: Write_parts table_fits_def iterate_loop_data_block)
  ultimately show ?thesis
    using assms unfolding SSTableReader_IterateAll_def
    by (simp add: Write_footer footer_fields Let_def sint_word_of_nat_small table_fits_def)
qed

lemma Get_Write:
  assumes "dir_get d p = Some (SSTableWriter_Write es)" and "table_fits es" and "keys_sorted es"
    and "lookup_entry es k = Some e"
  shows "SSTableReader_Get d (reader_of p es) k = Some (me_value e, me_kind e)"
proof -
  have "bloom_mightContain (table_bloom es) k"
    using table_bloom_props(2) lookup_entry_SomeD[OF assms(4)] by blast
  moreover have "sst_scan k (SSTableWriter_Write es) = Some (me_value e, me_kind e)"
    using assms(2-4) by (simp add: Write_parts table_fits_def sst_scan_found)
  ultimately show ?thesis
    using assms(1) by (simp add: SSTableReader_Get_def reader_of_def)
qed

lemma Get_Write_absent:
  assumes "dir_get d p = Some (SSTableWriter_Write es)" and "table_fits es"
    and "lookup_entry es k = None"
    and "\<not> bloom_mightContain (table_bloom es) k \<or> (\<exists>x \<in> set es. k < me_key x)"
  shows "SSTableReader_Get d (reader_of p es) k = None"
proof -
  have "(\<exists>x \<in> set es. k < me_key x) \<Longrightarrow> sst_scan k (SSTableWriter_Write es) = None"
    using assms(2,3) by (simp add: Write_parts table_fits_def sst_scan_absent)
  then show ?thesis
    using assms(1,4) by (auto simp: SSTableReader_Get_def reader_of_def)
qed

section \<open>A sample state for the concrete instances\<close>

definition sample_entries :: "memEntry list" where
  "sample_entries =
     [\<lparr>me_key = ''a'', me_value = [1], me_kind = kindPut, me_seq = 1\<rparr>,
      \<lparr>me_key = ''b'', me_value = [], me_kind = kindDelete, me_seq = 2\<rparr>]"

lemma sample_entries_ok:
  "table_fits sample_entries" "keys_sorted sample_entries"
  "length (data_block sample_entries) < 2 ^ 63"
  by (simp_all add: sample_entries_def table_fits_def entry_fits_def keys_sorted_def
      length_encode_entry less_list_code less_char_def)

section \<open>Properties\<close>

text \<open>
  The bloom filter has no false negatives: after any sequence of \<open>add\<close> calls on a fresh
  filter, \<open>mightContain\<close> answers true for every key that was added, whatever was added
  before or after it.
\<close>

lemma bloom_no_false_negatives:
  "list_all (bloom_mightContain (fold bloom_add ks newBloom)) ks"
  using bloom_add_all[of newBloom ks] by (simp add: list_all_iff)

text \<open>
  A table file that was written is read back whole: \<open>OpenSSTable\<close> accepts the written
  bytes and reports the number of entries, and \<open>IterateAll\<close> returns the entries in order (the
  sequence number, which the format does not store, reads as zero). The lengths must fit the
  32-bit length fields and the offset the signed 64-bit seek.
\<close>

lemma SSTable_roundtrip:
  assumes "dir_get d p = Some (SSTableWriter_Write es)" and "table_fits es"
  shows "\<exists>r. OpenSSTable d p = Inr r \<and> r_path r = p \<and> r_entryCount r = uint32_len es
    \<and> SSTableReader_IterateAll d r = Inr (map forget_seq es)"
proof -
  have "OpenSSTable d p = Inr (reader_of p es)"
    using assms Open_Write by (simp add: table_fits_def)
  moreover have "SSTableReader_IterateAll d (reader_of p es) = Inr (map forget_seq es)"
    using assms by (simp add: IterateAll_Write reader_of_def)
  ultimately show ?thesis by (simp add: reader_of_def)
qed

lemma SSTable_roundtrip_witness:
  "\<exists>r. OpenSSTable [(''t'', SSTableWriter_Write sample_entries)] ''t'' = Inr r \<and> r_path r = ''t''
    \<and> r_entryCount r = uint32_len sample_entries
    \<and> SSTableReader_IterateAll [(''t'', SSTableWriter_Write sample_entries)] r = Inr (map forget_seq sample_entries)"
  by (rule SSTable_roundtrip) (simp_all add: sample_entries_ok)

text \<open>
  A point lookup in a written table: for a key of the table \<open>Get\<close> returns that entry's
  value and kind (a tombstone included); for a key that is not in the table it reports absence
  when the filter excludes the key or the table holds a larger key.
\<close>

lemma SSTable_Get_correct:
  assumes "dir_get d p = Some (SSTableWriter_Write es)" and "table_fits es" and "keys_sorted es"
    and "OpenSSTable d p = Inr r"
  shows "case lookup_entry es k of
      Some e \<Rightarrow> SSTableReader_Get d r k = Some (me_value e, me_kind e)
    | None \<Rightarrow> (bloom_mightContain (r_bloom r) k \<longrightarrow> (\<exists>x \<in> set es. k < me_key x)) \<longrightarrow>
        SSTableReader_Get d r k = None"
proof -
  have r: "r = reader_of p es"
    using assms(1,2,4) Open_Write by (simp add: table_fits_def)
  then have "r_bloom r = table_bloom es" by (simp add: reader_of_def)
  with r show ?thesis
    using Get_Write[OF assms(1-3)] Get_Write_absent[OF assms(1,2)]
    by (auto split: option.splits)
qed

lemma SSTable_Get_correct_witness:
  "SSTableReader_Get [(''t'', SSTableWriter_Write sample_entries)] (reader_of ''t'' sample_entries) ''a''
     = Some ([1], kindPut)
   \<and> SSTableReader_Get [(''t'', SSTableWriter_Write sample_entries)] (reader_of ''t'' sample_entries) ''A'' = None"
proof -
  have A: "\<exists>x \<in> set sample_entries. ''A'' < me_key x"
    by (simp add: sample_entries_def less_list_code less_char_def)
  have "lookup_entry sample_entries ''a'' = Some (hd sample_entries)" "lookup_entry sample_entries ''A'' = None"
    by (simp_all add: sample_entries_def lookup_entry_def)
  then show ?thesis
    using SSTable_Get_correct[OF _ sample_entries_ok(1,2) Open_Write[OF _ sample_entries_ok(3)],
        of "[(''t'', SSTableWriter_Write sample_entries)]" "''t''" "''a''"]
      SSTable_Get_correct[OF _ sample_entries_ok(1,2) Open_Write[OF _ sample_entries_ok(3)],
        of "[(''t'', SSTableWriter_Write sample_entries)]" "''t''" "''A''"] A
    by (simp add: sample_entries_def)
qed

end
