(* ===== verification/KV_Merge.thy ===== *)
theory KV_Merge
  imports KV_SSTable
begin

text \<open>
  \<open>MergeEntries\<close> of \<open>storage/sstable.go\<close>: the k-way merge of compaction and of engine
  snapshots, its loop as it is written, and its correctness against the reference
  "for every key the entry of the newest input that has it, tombstones dropped".
\<close>

section \<open>The merge loop\<close>

text \<open>
  The loop keeps a position per input; the model keeps what is left of each input from that
  position on. \<open>min_step\<close> is the body of the loop that looks for the smallest key (the
  first input wins ties), \<open>newest_of\<close> the loop over the later inputs, \<open>advance\<close> the
  increment of every position that stands at the key.
\<close>

definition min_step :: "memEntry list list \<Rightarrow> (string \<times> nat) option \<Rightarrow> nat \<Rightarrow> (string \<times> nat) option" where
  "min_step rems acc i =
     (case rems ! i of
        [] \<Rightarrow> acc
      | e # _ \<Rightarrow>
          (case acc of
             None \<Rightarrow> Some (me_key e, i)
           | Some (minKey, minInput) \<Rightarrow> if me_key e < minKey then Some (me_key e, i) else acc))"

definition min_head :: "memEntry list list \<Rightarrow> (string \<times> nat) option" where
  "min_head rems = foldl (min_step rems) None [0..<length rems]"

definition head_with :: "string \<Rightarrow> memEntry list \<Rightarrow> memEntry option" where
  "head_with k r = (case r of [] \<Rightarrow> None | e # _ \<Rightarrow> if me_key e = k then Some e else None)"

definition newest_of :: "string \<Rightarrow> memEntry list list \<Rightarrow> memEntry \<Rightarrow> memEntry" where
  "newest_of k rs e0 = foldl (\<lambda>ne r. case head_with k r of None \<Rightarrow> ne | Some e \<Rightarrow> e) e0 rs"

definition advance :: "string \<Rightarrow> memEntry list list \<Rightarrow> memEntry list list" where
  "advance k rems = map (\<lambda>r. case head_with k r of None \<Rightarrow> r | Some _ \<Rightarrow> tl r) rems"

definition total_left :: "memEntry list list \<Rightarrow> nat" where
  "total_left rems = sum_list (map length rems)"

text \<open>What the search for the smallest head finds.\<close>

definition min_ok :: "memEntry list list \<Rightarrow> nat \<Rightarrow> (string \<times> nat) option \<Rightarrow> bool" where
  "min_ok rems n acc \<longleftrightarrow>
   (case acc of
      None \<Rightarrow> (\<forall>j < n. rems ! j = [])
    | Some (k, i) \<Rightarrow> i < n \<and> rems ! i \<noteq> [] \<and> me_key (hd (rems ! i)) = k
        \<and> (\<forall>j < n. rems ! j \<noteq> [] \<longrightarrow> k \<le> me_key (hd (rems ! j)))
        \<and> (\<forall>j < i. rems ! j \<noteq> [] \<longrightarrow> k < me_key (hd (rems ! j))))"

lemma min_ok_step:
  assumes "min_ok rems n acc"
  shows "min_ok rems (Suc n) (min_step rems acc n)"
proof (cases "rems ! n")
  case Nil
  with assms show ?thesis
    by (auto simp: min_ok_def min_step_def less_Suc_eq split: option.splits)
next
  case (Cons e r)
  show ?thesis
  proof (cases acc)
    case None
    with assms Cons show ?thesis by (auto simp: min_ok_def min_step_def less_Suc_eq)
  next
    case (Some a)
    obtain k i where "a = (k, i)" by (cases a)
    with assms Cons Some show ?thesis
      by (auto simp: min_ok_def min_step_def less_Suc_eq)
  qed
qed

lemma min_steps_spec: "min_ok rems n (foldl (min_step rems) None [0..<n])"
proof (induction n)
  case 0
  show ?case by (simp add: min_ok_def)
next
  case (Suc n)
  then show ?case using min_ok_step by simp
qed

lemma min_head_None: "min_head rems = None \<Longrightarrow> \<forall>r \<in> set rems. r = []"
  using min_steps_spec[of rems "length rems"] by (auto simp: min_head_def min_ok_def in_set_conv_nth)

lemma min_head_Some:
  assumes "min_head rems = Some (k, i)"
  shows "i < length rems" and "rems ! i \<noteq> []" and "me_key (hd (rems ! i)) = k"
    and "\<forall>r \<in> set rems. r \<noteq> [] \<longrightarrow> k \<le> me_key (hd r)"
    and "\<forall>r \<in> set (take i rems). r \<noteq> [] \<longrightarrow> k < me_key (hd r)"
  using min_steps_spec[of rems "length rems"] assms
  by (auto simp: min_head_def min_ok_def in_set_conv_nth)

lemma head_with_hd: "r \<noteq> [] \<Longrightarrow> head_with (me_key (hd r)) r = Some (hd r)"
  by (cases r) (auto simp: head_with_def)

lemma sum_list_map_less:
  fixes f g :: "'a \<Rightarrow> nat"
  shows "\<forall>x \<in> set xs. f x \<le> g x \<Longrightarrow> y \<in> set xs \<Longrightarrow> f y < g y \<Longrightarrow>
    (\<Sum>x \<leftarrow> xs. f x) < (\<Sum>x \<leftarrow> xs. g x)"
proof (induction xs)
  case (Cons a xs)
  show ?case
  proof (cases "y \<in> set xs")
    case True
    with Cons show ?thesis by (simp add: add_le_less_mono)
  next
    case False
    with Cons.prems have "f a < g a" by auto
    moreover have "(\<Sum>x \<leftarrow> xs. f x) \<le> (\<Sum>x \<leftarrow> xs. g x)"
      using Cons.prems(1) by (intro sum_list_mono) auto
    ultimately show ?thesis by simp
  qed
qed simp

lemma total_left_advance:
  assumes "min_head rems = Some (k, i)"
  shows "total_left (advance k rems) < total_left rems"
proof -
  note m = min_head_Some[OF assms]
  have "length (case head_with k r of None \<Rightarrow> r | Some _ \<Rightarrow> tl r) \<le> length r" for r
    by (simp split: option.splits)
  moreover have "length (case head_with k (rems ! i) of None \<Rightarrow> rems ! i | Some _ \<Rightarrow> tl (rems ! i))
      < length (rems ! i)"
    using m(2,3) head_with_hd[of "rems ! i"] by simp
  moreover have "rems ! i \<in> set rems" using m(1) by simp
  ultimately show ?thesis
    unfolding total_left_def advance_def map_map o_def
    by (intro sum_list_map_less[where y = "rems ! i"]) auto
qed

function merge_loop :: "memEntry list list \<Rightarrow> memEntry list \<Rightarrow> memEntry list" where
  "merge_loop rems result =
     (case min_head rems of
        None \<Rightarrow> result
      | Some (minKey, minInput) \<Rightarrow>
          (let newestEntry = newest_of minKey (drop (minInput + 1) rems) (hd (rems ! minInput));
               rems' = advance minKey rems
           in if me_kind newestEntry = kindDelete then merge_loop rems' result
              else merge_loop rems' (result @ [newestEntry])))"
  by pat_completeness auto
termination
  by (relation "measure (\<lambda>(rems, result). total_left rems)") (auto dest: total_left_advance)

declare merge_loop.simps [simp del]

definition MergeEntries :: "memEntry list list \<Rightarrow> memEntry list" where
  "MergeEntries inputs = sort_key me_key (merge_loop inputs [])"

section \<open>Reference: the newest input wins\<close>

definition newest_step :: "string \<Rightarrow> memEntry option \<Rightarrow> memEntry list \<Rightarrow> memEntry option" where
  "newest_step k acc r = (case lookup_entry r k of None \<Rightarrow> acc | Some e \<Rightarrow> Some e)"

definition newest_lookup :: "memEntry list list \<Rightarrow> string \<Rightarrow> memEntry option" where
  "newest_lookup rems k = foldl (newest_step k) None rems"

definition drop_tombstone :: "memEntry option \<Rightarrow> memEntry option" where
  "drop_tombstone r = (case r of None \<Rightarrow> None | Some e \<Rightarrow> if me_kind e = kindDelete then None else Some e)"

lemma newest_fold_acc:
  "foldl (newest_step k) acc rems = (case foldl (newest_step k) None rems of None \<Rightarrow> acc | Some e \<Rightarrow> Some e)"
proof (induction rems arbitrary: acc)
  case (Cons r rems)
  show ?case
    unfolding foldl_Cons Cons.IH[of "newest_step k acc r"] Cons.IH[of "newest_step k None r"]
    by (simp add: newest_step_def split: option.splits)
qed simp

lemma newest_lookup_simps [simp]:
  "newest_lookup [] k = None"
  "newest_lookup (r # rems) k =
     (case newest_lookup rems k of None \<Rightarrow> lookup_entry r k | Some e \<Rightarrow> Some e)"
  using newest_fold_acc[of k "newest_step k None r" rems]
  by (simp_all add: newest_lookup_def newest_step_def split: option.splits)

lemma newest_lookup_append:
  "newest_lookup (xs @ ys) k =
     (case newest_lookup ys k of None \<Rightarrow> newest_lookup xs k | Some e \<Rightarrow> Some e)"
  by (induction xs) (auto split: option.splits)

lemma newest_lookup_mem:
  "newest_lookup rems k = Some e \<Longrightarrow> me_key e = k \<and> (\<exists>r \<in> set rems. e \<in> set r)"
  by (induction rems) (auto split: option.splits dest: lookup_entry_SomeD)

text \<open>
  At the smallest key the heads tell everything: in a sorted input whose keys are not below
  \<open>k\<close>, the entry of \<open>k\<close> can only be the head.
\<close>

lemma lookup_is_head:
  "keys_sorted r \<Longrightarrow> r \<noteq> [] \<longrightarrow> k \<le> me_key (hd r) \<Longrightarrow> lookup_entry r k = head_with k r"
proof (cases r)
  case (Cons e r')
  assume "keys_sorted r" and "r \<noteq> [] \<longrightarrow> k \<le> me_key (hd r)"
  then have "\<forall>x \<in> set r'. k < me_key x" using Cons by auto
  then have "lookup_entry r' k = None" by (auto simp: lookup_entry_None)
  then show ?thesis using Cons by (simp add: head_with_def)
qed (simp add: head_with_def)

lemma newest_of_newest_lookup:
  "\<forall>r \<in> set rs. lookup_entry r k = head_with k r \<Longrightarrow>
   newest_of k rs e0 = (case newest_lookup rs k of None \<Rightarrow> e0 | Some e \<Rightarrow> e)"
proof (induction rs arbitrary: e0)
  case (Cons r rs)
  then have "newest_of k (r # rs) e0
      = (case newest_lookup rs k of None \<Rightarrow> (case head_with k r of None \<Rightarrow> e0 | Some e \<Rightarrow> e) | Some e \<Rightarrow> e)"
    by (simp add: newest_of_def)
  then show ?case using Cons.prems by (simp split: option.splits)
qed (simp add: newest_of_def)

lemma min_head_newest:
  assumes "min_head rems = Some (k, i)" and "list_all keys_sorted rems"
  shows "newest_lookup rems k = Some (newest_of k (drop (i + 1) rems) (hd (rems ! i)))"
proof -
  note m = min_head_Some[OF assms(1)]
  have heads: "lookup_entry r k = head_with k r" if "r \<in> set rems" for r
    using lookup_is_head[of r k] assms(2) m(4) that by (auto simp: list_all_iff)
  have split: "rems = take i rems @ rems ! i # drop (i + 1) rems"
    using m(1) by (simp add: id_take_nth_drop)
  have "lookup_entry r k = None" if "r \<in> set (take i rems)" for r
    using heads[of r] m(5) that by (cases r) (auto simp: head_with_def dest: in_set_takeD)
  then have low: "newest_lookup (take i rems) k = None"
    by (metis lookup_entry_None newest_lookup_mem not_Some_eq image_eqI)
  have "newest_of k (drop (i + 1) rems) (hd (rems ! i))
      = (case newest_lookup (drop (i + 1) rems) k of None \<Rightarrow> hd (rems ! i) | Some e \<Rightarrow> e)"
    using heads by (intro newest_of_newest_lookup) (auto dest: in_set_dropD)
  moreover have "lookup_entry (rems ! i) k = Some (hd (rems ! i))"
    using heads[of "rems ! i"] m(1-3) head_with_hd[of "rems ! i"] by simp
  ultimately show ?thesis
    using low by (subst split) (auto simp: newest_lookup_append split: option.splits)
qed

definition input_keys :: "memEntry list list \<Rightarrow> string set" where
  "input_keys rems = (\<Union>r \<in> set rems. me_key ` set r)"

lemma newest_lookup_None: "newest_lookup rems k = None \<longleftrightarrow> k \<notin> input_keys rems"
  by (induction rems) (auto simp: input_keys_def lookup_entry_None split: option.splits)

lemma advance_input:
  assumes "keys_sorted r" and "r \<noteq> [] \<longrightarrow> k \<le> me_key (hd r)"
  defines "r' \<equiv> (case head_with k r of None \<Rightarrow> r | Some _ \<Rightarrow> tl r)"
  shows "keys_sorted r'" and "\<forall>x \<in> set r'. k < me_key x"
    and "q \<noteq> k \<Longrightarrow> lookup_entry r' q = lookup_entry r q"
proof -
  show "keys_sorted r'" using assms by (cases r) (auto simp: head_with_def)
  show "\<forall>x \<in> set r'. k < me_key x" 
    using assms(1,2) by (cases r) (auto simp: r'_def head_with_def)
  show "lookup_entry r' q = lookup_entry r q" if "q \<noteq> k"
    using that by (cases r) (auto simp: r'_def head_with_def)
qed

lemma advance_props:
  assumes "min_head rems = Some (k, i)" and "list_all keys_sorted rems"
  shows "list_all keys_sorted (advance k rems)" and "\<forall>q \<in> input_keys (advance k rems). k < q"
    and "q \<noteq> k \<Longrightarrow> newest_lookup (advance k rems) q = newest_lookup rems q"
proof -
  have a: "keys_sorted r" "r \<noteq> [] \<longrightarrow> k \<le> me_key (hd r)" if "r \<in> set rems" for r
    using min_head_Some(4)[OF assms(1)] assms(2) that by (auto simp: list_all_iff)
  show "list_all keys_sorted (advance k rems)"
    using advance_input(1)[OF a] by (auto simp: advance_def list_all_iff)
  show "\<forall>q \<in> input_keys (advance k rems). k < q"
    using advance_input(2)[OF a] by (auto simp: advance_def input_keys_def)
  have "\<forall>r \<in> set rems. lookup_entry (case head_with k r of None \<Rightarrow> r | Some _ \<Rightarrow> tl r) q = lookup_entry r q"
    if "q \<noteq> k" using advance_input(3)[OF a that] by blast
  then show "newest_lookup (advance k rems) q = newest_lookup rems q" if "q \<noteq> k"
    using that unfolding advance_def by (induction rems) (auto split: option.splits)
qed

lemma merge_loop_correct:
  assumes "list_all keys_sorted rems" and "keys_sorted acc"
    and "\<forall>x \<in> set acc. \<forall>q \<in> input_keys rems. me_key x < q"
  shows "keys_sorted (merge_loop rems acc)
    \<and> lookup_entry (merge_loop rems acc) q =
        (case lookup_entry acc q of Some e \<Rightarrow> Some e | None \<Rightarrow> drop_tombstone (newest_lookup rems q))"
  using assms
proof (induction rems acc rule: merge_loop.induct)
  case (1 rems acc)
  show ?case
  proof (cases "min_head rems")
    case None
    then have "newest_lookup rems q = None"
      using min_head_None[OF None] by (auto simp: newest_lookup_None input_keys_def)
    with None "1.prems" show ?thesis
      by (subst (1 2) merge_loop.simps) (simp add: drop_tombstone_def split: option.splits)
  next
    case (Some ki)
    obtain k i where ki: "ki = (k, i)" by (cases ki)
    with Some have mh: "min_head rems = Some (k, i)" by simp
    define ne where "ne = newest_of k (drop (i + 1) rems) (hd (rems ! i))"
    have newest: "newest_lookup rems k = Some ne"
      using min_head_newest[OF mh "1.prems"(1)] by (simp add: ne_def)
    then have nek: "me_key ne = k" and kin: "k \<in> input_keys rems"
      using newest_lookup_mem[OF newest] newest_lookup_None[of rems k] by auto
    note adv = advance_props[OF mh "1.prems"(1)]
    have sub: "input_keys (advance k rems) \<subseteq> input_keys rems"
      using adv(2,3) newest_lookup_None by (metis order_less_irrefl subsetI)
    have accq: "lookup_entry acc k = None"
      using "1.prems"(3) kin by (auto simp: lookup_entry_None)
    have gone: "newest_lookup (advance k rems) k = None"
      using adv(2) by (auto simp: newest_lookup_None)
    show ?thesis
    proof (cases "me_kind ne = kindDelete")
      case True
      have "merge_loop rems acc = merge_loop (advance k rems) acc"
        using mh True by (subst merge_loop.simps) (simp add: ne_def)
      moreover have "\<forall>x \<in> set acc. \<forall>q \<in> input_keys (advance k rems). me_key x < q"
        using "1.prems"(3) sub by blast
      note "1.IH"(1)[OF Some ki[symmetric] ne_def refl True adv(1) "1.prems"(2) this]
      ultimately show ?thesis using adv(3)[of q] gone newest accq True
        by (cases "q = k") (auto simp: drop_tombstone_def split: option.splits)
    next
      case False
      have eq: "merge_loop rems acc = merge_loop (advance k rems) (acc @ [ne])"
        using mh False by (subst merge_loop.simps) (simp add: ne_def)
      have srt: "keys_sorted (acc @ [ne])"
        using "1.prems"(2,3) nek kin by (auto simp: keys_sorted_append)
      have "\<forall>x \<in> set (acc @ [ne]). \<forall>q \<in> input_keys (advance k rems). me_key x < q"
        using "1.prems"(3) sub adv(2) nek by auto
      from "1.IH"(2)[OF Some ki[symmetric] ne_def refl False adv(1) srt this]
      show ?thesis using eq adv(3)[of q] gone newest accq False nek
        by (cases "q = k") (auto simp: drop_tombstone_def lookup_entry_append split: option.splits)
    qed
  qed
qed

lemma sort_key_sorted: "keys_sorted es \<Longrightarrow> sort_key me_key es = es"
  unfolding keys_sorted_def
  by (metis strict_sorted_imp_sorted sort_key_id_if_sorted)

lemma MergeEntries_spec:
  assumes "list_all keys_sorted inputs"
  shows "keys_sorted (MergeEntries inputs)"
    and "lookup_entry (MergeEntries inputs) k = drop_tombstone (newest_lookup inputs k)"
  using merge_loop_correct[OF assms, of "[]"] by (auto simp: MergeEntries_def sort_key_sorted)

lemma MergeEntries_mem:
  assumes "list_all keys_sorted inputs" and "e \<in> set (MergeEntries inputs)"
  shows "me_kind e \<noteq> kindDelete" and "newest_lookup inputs (me_key e) = Some e"
    and "\<exists>r \<in> set inputs. e \<in> set r"
proof -
  have "drop_tombstone (newest_lookup inputs (me_key e)) = Some e"
    using lookup_entry_mem[OF MergeEntries_spec(1)[OF assms(1)] assms(2)]
      MergeEntries_spec(2)[OF assms(1)] by simp
  then show "me_kind e \<noteq> kindDelete" and n: "newest_lookup inputs (me_key e) = Some e"
    by (auto simp: drop_tombstone_def split: option.splits if_splits)
  show "\<exists>r \<in> set inputs. e \<in> set r" using newest_lookup_mem[OF n] by blast
qed

section \<open>Properties\<close>

text \<open>
  C27: \<open>MergeEntries\<close> of sorted inputs given oldest first returns a strictly sorted list that
  holds, for every key, exactly the entry of the newest input that has the key, and nothing
  for a key whose newest entry is a tombstone.
\<close>

theorem MergeEntries_newest_wins:
  assumes "list_all keys_sorted inputs"
  shows "keys_sorted (MergeEntries inputs)
    \<and> lookup_entry (MergeEntries inputs) k = drop_tombstone (newest_lookup inputs k)"
  using MergeEntries_spec[OF assms] by simp

theorem MergeEntries_newest_wins_witness:
  "keys_sorted (MergeEntries [sample_entries, [], sample_entries])
    \<and> lookup_entry (MergeEntries [sample_entries, [], sample_entries]) ''b'' = None"
  using MergeEntries_newest_wins[of "[sample_entries, [], sample_entries]" "''b''"]
  by (simp add: sample_entries_ok) (simp add: keys_sorted_def sample_entries_def lookup_entry_def newest_lookup_def newest_step_def drop_tombstone_def)

end
