(* ===== verification/KV_Engine.thy ===== *)
theory KV_Engine
  imports KV_Merge
begin

text \<open>
  The LSM engine of \<open>storage/engine.go\<close>: the active and the immutable buffer, the list of open
  tables (newest first), the files of its directory, the signals to the two background workers
  and the sequence counter for file names. A method that takes the engine lock several times
  is one function here; compaction, whose merge runs outside the lock, is split where it
  takes the lock again, so that a flush can be placed between its two halves.
\<close>

section \<open>State and operations\<close>

definition compactionThreshold :: nat where
  "compactionThreshold = 8"

record Engine =
  en_dir :: dir
  en_active :: Memtable
  en_immutable :: "Memtable option"
  en_sstables :: "SSTableReader list"
  en_flushCh :: bool
  en_compactCh :: bool
  en_sstableSeq :: nat
  en_closed :: bool

datatype engine_error = EngineClosed | EngineParseSeq string

text \<open>
  The outcome of writing a table file, as the environment decides it: written and synced, or an
  error that leaves no file or a file with some content behind.
\<close>

datatype disk = DiskOk | DiskFail "bytes option"

definition sst_path :: "nat \<Rightarrow> string" where
  "sst_path n = sprintf_016d n @ ''.sst''"

definition disk_write :: "disk \<Rightarrow> string \<Rightarrow> bytes \<Rightarrow> dir \<Rightarrow> dir" where
  "disk_write dk p c d =
     (case dk of
        DiskOk \<Rightarrow> dir_put p c d
      | DiskFail None \<Rightarrow> d
      | DiskFail (Some left) \<Rightarrow> dir_put p left d)"

definition Engine_Put :: "string \<Rightarrow> bytes \<Rightarrow> Engine \<Rightarrow> engine_error option \<times> Engine" where
  "Engine_Put k v e =
     (if en_closed e then (Some EngineClosed, e)
      else
        (let active = Memtable_Put k v (en_active e);
             e1 = e\<lparr>en_active := active\<rparr>
         in (None, if Memtable_ShouldFlush active then e1\<lparr>en_flushCh := True\<rparr> else e1)))"

definition Engine_Delete :: "string \<Rightarrow> Engine \<Rightarrow> engine_error option \<times> Engine" where
  "Engine_Delete k e =
     (if en_closed e then (Some EngineClosed, e)
      else (None, e\<lparr>en_active := Memtable_Delete k (en_active e)\<rparr>))"

text \<open>The loop over the tables: the first table that finds the key decides.\<close>

fun sstables_get :: "dir \<Rightarrow> SSTableReader list \<Rightarrow> string \<Rightarrow> bytes option" where
  "sstables_get d [] k = None"
| "sstables_get d (r # rs) k =
     (case SSTableReader_Get d r k of
        Some (val, kind) \<Rightarrow> if kind = kindDelete then None else Some val
      | None \<Rightarrow> sstables_get d rs k)"

definition Engine_Get :: "string \<Rightarrow> Engine \<Rightarrow> bytes option" where
  "Engine_Get k e =
     (case Memtable_Get k (en_active e) of
        Some val \<Rightarrow> Some val
      | None \<Rightarrow>
          (case (case en_immutable e of None \<Rightarrow> None | Some imm \<Rightarrow> Memtable_Get k imm) of
             Some val \<Rightarrow> Some val
           | None \<Rightarrow> sstables_get (en_dir e) (en_sstables e) k))"

definition doFlush :: "disk \<Rightarrow> Engine \<Rightarrow> Engine" where
  "doFlush dk e =
     (case en_immutable e of
        None \<Rightarrow> e
      | Some imm \<Rightarrow>
          if Memtable_Size imm = 0 then e
          else
            (let seq = en_sstableSeq e + 1;
                 path = sst_path seq;
                 e1 = e\<lparr>en_sstableSeq := seq,
                        en_dir := disk_write dk path (SSTableWriter_Write (Memtable_Snapshot imm)) (en_dir e)\<rparr>
             in if dk \<noteq> DiskOk then e1
                else case OpenSSTable (en_dir e1) path of
                       Inl _ \<Rightarrow> e1
                     | Inr reader \<Rightarrow> e1\<lparr>en_sstables := reader # en_sstables e1, en_immutable := None\<rparr>))"

definition rotateAndFlush :: "disk \<Rightarrow> Engine \<Rightarrow> Engine" where
  "rotateAndFlush dk e =
     (if en_immutable e \<noteq> None then e
      else
        (let e1 = e\<lparr>en_immutable := Some (en_active e), en_active := NewMemtable\<rparr>;
             e2 = doFlush dk e1
         in if length (en_sstables e2) \<ge> compactionThreshold then e2\<lparr>en_compactCh := True\<rparr> else e2))"

text \<open>One turn of \<open>flushWorker\<close> on a flush signal: the signal is taken, then the buffer rotates.\<close>

definition flushWorker_turn :: "disk \<Rightarrow> Engine \<Rightarrow> Engine" where
  "flushWorker_turn dk e = (if en_flushCh e then rotateAndFlush dk (e\<lparr>en_flushCh := False\<rparr>) else e)"

text \<open>
  Compaction: \<open>compaction_read\<close> is the loop that reads the captured tables, oldest first, and
  gives up on the first error; \<open>compaction_finish\<close> is everything after the merge.
\<close>

fun compaction_read :: "dir \<Rightarrow> SSTableReader list \<Rightarrow> sst_error + memEntry list list" where
  "compaction_read d [] = Inr []"
| "compaction_read d (r # rs) =
     (case SSTableReader_IterateAll d r of
        Inl err \<Rightarrow> Inl err
      | Inr es \<Rightarrow> (case compaction_read d rs of Inl err \<Rightarrow> Inl err | Inr inputs \<Rightarrow> Inr (es # inputs)))"

definition compaction_finish :: "disk \<Rightarrow> SSTableReader list \<Rightarrow> memEntry list \<Rightarrow> Engine \<Rightarrow> Engine" where
  "compaction_finish dk toCompact merged e =
     (let seq = en_sstableSeq e + 1;
          newPath = sst_path seq;
          e1 = e\<lparr>en_sstableSeq := seq,
                 en_dir := disk_write dk newPath (SSTableWriter_Write merged) (en_dir e)\<rparr>
      in if dk \<noteq> DiskOk then e1
         else case OpenSSTable (en_dir e1) newPath of
                Inl _ \<Rightarrow> e1
              | Inr newReader \<Rightarrow>
                  e1\<lparr>en_sstables := [newReader],
                     en_dir := fold dir_remove (map r_path toCompact) (en_dir e1)\<rparr>)"

definition doCompaction :: "disk \<Rightarrow> Engine \<Rightarrow> Engine" where
  "doCompaction dk e =
     (let toCompact = en_sstables e
      in if length toCompact < 2 then e
         else case compaction_read (en_dir e) (rev toCompact) of
                Inl _ \<Rightarrow> e
              | Inr inputs \<Rightarrow> compaction_finish dk toCompact (MergeEntries inputs) e)"

text \<open>One turn of \<open>compactionWorker\<close>: on the signal, or on the timer when there are enough tables.\<close>

definition compactionWorker_turn :: "disk \<Rightarrow> bool \<Rightarrow> Engine \<Rightarrow> Engine" where
  "compactionWorker_turn dk tick e =
     (if en_compactCh e then doCompaction dk (e\<lparr>en_compactCh := False\<rparr>)
      else if tick \<and> length (en_sstables e) \<ge> compactionThreshold then doCompaction dk e
      else e)"

definition Engine_Close :: "disk \<Rightarrow> Engine \<Rightarrow> Engine" where
  "Engine_Close dk e =
     (if en_closed e then e
      else
        (let e1 = e\<lparr>en_closed := True\<rparr>;
             e2 = (if Memtable_Size (en_active e1) > 0
                   then e1\<lparr>en_immutable := Some (en_active e1), en_active := NewMemtable\<rparr> else e1)
         in if en_immutable e2 \<noteq> None then doFlush dk e2 else e2))"

text \<open>
  \<open>loadSSTables\<close>: every table file of the directory, newest name first, skipping the ones that
  do not open; the counter restarts at the number of the newest name.
\<close>

definition parse_sst_seq :: "string \<Rightarrow> nat option" where
  "parse_sst_seq p =
     (case parse_dec p of
        None \<Rightarrow> None
      | Some (n, rest) \<Rightarrow> if take 4 rest = ''.sst'' then Some n else None)"

definition open_all :: "dir \<Rightarrow> string list \<Rightarrow> SSTableReader list" where
  "open_all d ps =
     List.map_filter (\<lambda>p. case OpenSSTable d p of Inl _ \<Rightarrow> None | Inr r \<Rightarrow> Some r) ps"

definition loadSSTables :: "dir \<Rightarrow> engine_error + (SSTableReader list \<times> nat)" where
  "loadSSTables d =
     (let paths = rev (Glob ''.sst'' d);
          readers = open_all d paths
      in case paths of
           [] \<Rightarrow> Inr (readers, 0)
         | p # _ \<Rightarrow>
             (case parse_sst_seq p of
                None \<Rightarrow> Inl (EngineParseSeq p)
              | Some seq \<Rightarrow> Inr (readers, seq)))"

definition Engine_Open :: "dir \<Rightarrow> engine_error + Engine" where
  "Engine_Open d =
     (case loadSSTables d of
        Inl err \<Rightarrow> Inl err
      | Inr (readers, seq) \<Rightarrow>
          Inr \<lparr>en_dir = d, en_active = NewMemtable, en_immutable = None, en_sstables = readers,
               en_flushCh = False, en_compactCh = False, en_sstableSeq = seq, en_closed = False\<rparr>)"

section \<open>What the engine holds\<close>

text \<open>
  The abstract contents: all layers, oldest first, and for every key the newest entry of any
  layer, a tombstone meaning "no value". This is the meaning the comments of the source give
  to the layers; \<open>Engine_Get\<close> is compared with it below.
\<close>

definition reader_entries :: "dir \<Rightarrow> SSTableReader \<Rightarrow> memEntry list" where
  "reader_entries d r = (case SSTableReader_IterateAll d r of Inl _ \<Rightarrow> [] | Inr es \<Rightarrow> es)"

definition mem_layers :: "Engine \<Rightarrow> memEntry list list" where
  "mem_layers e =
     (case en_immutable e of None \<Rightarrow> [] | Some imm \<Rightarrow> [mt_entries imm]) @ [mt_entries (en_active e)]"

definition table_layers :: "Engine \<Rightarrow> memEntry list list" where
  "table_layers e = map (reader_entries (en_dir e)) (rev (en_sstables e))"

definition engine_view :: "Engine \<Rightarrow> string \<Rightarrow> bytes option" where
  "engine_view e k = live_value (newest_lookup (table_layers e @ mem_layers e) k)"

text \<open>
  A table is intact when its file is what the writer produced for some sorted entries and the
  reader is the one \<open>OpenSSTable\<close> returns for it.
\<close>

definition table_is :: "dir \<Rightarrow> SSTableReader \<Rightarrow> memEntry list \<Rightarrow> bool" where
  "table_is d r es \<longleftrightarrow> r = reader_of (r_path r) es \<and> dir_get d (r_path r) = Some (SSTableWriter_Write es)
     \<and> table_fits es \<and> keys_sorted es"

definition table_ok :: "dir \<Rightarrow> SSTableReader \<Rightarrow> bool" where
  "table_ok d r \<longleftrightarrow> (\<exists>es. table_is d r es)"

definition en_wf :: "Engine \<Rightarrow> bool" where
  "en_wf e \<longleftrightarrow> dir_ok (en_dir e) \<and> mt_wf (en_active e)
     \<and> (case en_immutable e of None \<Rightarrow> True | Some imm \<Rightarrow> mt_wf imm)
     \<and> list_all (table_ok (en_dir e)) (en_sstables e)
     \<and> (\<exists>ns. map r_path (en_sstables e) = map sst_path ns \<and> sorted_wrt (>) ns
          \<and> list_all (\<lambda>n. n \<le> en_sstableSeq e) ns)
     \<and> en_sstableSeq e < 10 ^ 16"

lemma table_is_entries: "table_is d r es \<Longrightarrow> reader_entries d r = map forget_seq es"
  by (simp add: reader_entries_def table_is_def IterateAll_Write)

lemma table_is_put: "r_path r \<noteq> p \<Longrightarrow> table_is (dir_put p c d) r es \<longleftrightarrow> table_is d r es"
  by (auto simp: table_is_def)

lemma table_is_remove: "r_path r \<noteq> p \<Longrightarrow> table_is (dir_remove p d) r es \<longleftrightarrow> table_is d r es"
  by (auto simp: table_is_def)

lemma reader_entries_put: "r_path r \<noteq> p \<Longrightarrow> reader_entries (dir_put p c d) r = reader_entries d r"
  by (simp add: reader_entries_def SSTableReader_IterateAll_def)

lemma table_ok_put: "r_path r \<noteq> p \<Longrightarrow> table_ok (dir_put p c d) r \<longleftrightarrow> table_ok d r"
  by (simp add: table_ok_def table_is_put)

lemma keys_sorted_forget [simp]: "keys_sorted (map forget_seq es) \<longleftrightarrow> keys_sorted es"
  by (simp add: keys_sorted_def o_def)

lemma lookup_forget: "lookup_entry (map forget_seq es) k = map_option forget_seq (lookup_entry es k)"
  by (induction es) auto

lemma live_forget [simp]: "live_value (map_option forget_seq r) = live_value r"
  by (cases r) (auto simp: live_value_def)

lemma live_drop_tombstone [simp]: "live_value (drop_tombstone r) = live_value r"
  by (auto simp: live_value_def drop_tombstone_def split: option.splits)

lemma sst_path_inj: "m < 10 ^ 16 \<Longrightarrow> n < 10 ^ 16 \<Longrightarrow> sst_path m = sst_path n \<longleftrightarrow> m = n"
  using sprintf_016d_inj[of m n] by (simp add: sst_path_def)

text \<open>The name a flush or a compaction takes is not the name of any open table.\<close>

lemma fresh_path:
  assumes "en_wf e" and "Suc (en_sstableSeq e) < 10 ^ 16" and "r \<in> set (en_sstables e)"
  shows "r_path r \<noteq> sst_path (Suc (en_sstableSeq e))"
proof -
  obtain ns where ns: "map r_path (en_sstables e) = map sst_path ns"
    and le: "list_all (\<lambda>n. n \<le> en_sstableSeq e) ns"
    using assms(1) by (auto simp: en_wf_def)
  have "r_path r \<in> set (map r_path (en_sstables e))" using assms(3) by simp
  then obtain n where n: "n \<in> set ns" "r_path r = sst_path n" unfolding ns by auto
  then have "n \<le> en_sstableSeq e" using le by (simp add: list_all_iff)
  then have "n < 10 ^ 16" "n \<noteq> Suc (en_sstableSeq e)" using assms(2) by simp_all
  then show ?thesis using n(2) sst_path_inj[OF _ assms(2)] by simp
qed

lemma table_ok_sorted: "table_ok d r \<Longrightarrow> keys_sorted (reader_entries d r)"
  by (auto simp: table_ok_def table_is_entries) (simp add: table_is_def)

lemma table_layers_sorted: "en_wf e \<Longrightarrow> list_all keys_sorted (table_layers e)"
  by (auto simp: table_layers_def en_wf_def list_all_iff table_ok_sorted)

lemma compaction_read_ok:
  "list_all (table_ok d) rs \<Longrightarrow> compaction_read d rs = Inr (map (reader_entries d) rs)"
proof (induction rs)
  case (Cons r rs)
  then obtain es where "table_is d r es" by (auto simp: table_ok_def)
  then have "SSTableReader_IterateAll d r = Inr (map forget_seq es)"
    by (simp add: table_is_def IterateAll_Write)
  with Cons show ?case by (simp add: reader_entries_def)
qed simp

lemma live_newest_append:
  "live_value (newest_lookup xs k) = live_value (newest_lookup xs' k) \<Longrightarrow>
   live_value (newest_lookup (xs @ ys) k) = live_value (newest_lookup (xs' @ ys) k)"
  by (simp add: newest_lookup_append split: option.splits)

section \<open>Writes\<close>

lemma Put_open:
  "\<not> en_closed e \<Longrightarrow> fst (Engine_Put k v e) = None"
  "\<not> en_closed e \<Longrightarrow> en_active (snd (Engine_Put k v e)) = Memtable_Put k v (en_active e)"
  "en_immutable (snd (Engine_Put k v e)) = en_immutable e"
  "en_sstables (snd (Engine_Put k v e)) = en_sstables e"
  "en_dir (snd (Engine_Put k v e)) = en_dir e"
  "en_sstableSeq (snd (Engine_Put k v e)) = en_sstableSeq e"
  "en_closed (snd (Engine_Put k v e)) = en_closed e"
  by (simp_all add: Engine_Put_def Let_def)

lemma Delete_open:
  "\<not> en_closed e \<Longrightarrow> fst (Engine_Delete k e) = None"
  "\<not> en_closed e \<Longrightarrow> en_active (snd (Engine_Delete k e)) = Memtable_Delete k (en_active e)"
  "en_immutable (snd (Engine_Delete k e)) = en_immutable e"
  "en_sstables (snd (Engine_Delete k e)) = en_sstables e"
  "en_dir (snd (Engine_Delete k e)) = en_dir e"
  "en_sstableSeq (snd (Engine_Delete k e)) = en_sstableSeq e"
  "en_closed (snd (Engine_Delete k e)) = en_closed e"
  by (simp_all add: Engine_Delete_def)

definition en_open :: "Engine \<Rightarrow> bool" where
  "en_open e \<longleftrightarrow> en_wf e \<and> \<not> en_closed e"

lemma en_wf_Put: "en_wf e \<Longrightarrow> \<not> en_closed e \<Longrightarrow> en_wf (snd (Engine_Put k v e))"
  unfolding en_wf_def by (simp add: Put_open)

lemma en_wf_Delete: "en_wf e \<Longrightarrow> \<not> en_closed e \<Longrightarrow> en_wf (snd (Engine_Delete k e))"
  unfolding en_wf_def by (simp add: Delete_open)

lemma engine_view_active:
  "engine_view e k =
     live_value (case mt_lookup (en_active e) k of
        Some x \<Rightarrow> Some x
      | None \<Rightarrow> newest_lookup (table_layers e
          @ (case en_immutable e of None \<Rightarrow> [] | Some imm \<Rightarrow> [mt_entries imm])) k)"
  unfolding engine_view_def mem_layers_def append_assoc[symmetric]
  by (simp add: newest_lookup_append split: option.splits)

lemma lower_layers_cong:
  "en_dir e' = en_dir e \<Longrightarrow> en_sstables e' = en_sstables e \<Longrightarrow> table_layers e' = table_layers e"
  by (simp add: table_layers_def)

lemma view_Put:
  assumes "en_open e"
  shows "engine_view (snd (Engine_Put k v e)) = (engine_view e)(k := Some v)"
proof
  fix q
  show "engine_view (snd (Engine_Put k v e)) q = ((engine_view e)(k := Some v)) q"
    using assms lower_layers_cong[OF Put_open(5,4), of k v e]
    by (simp add: engine_view_active Put_open mt_lookup_Put en_open_def en_wf_def cong: option.case_cong)
qed

lemma view_Delete:
  assumes "en_open e"
  shows "engine_view (snd (Engine_Delete k e)) = (engine_view e)(k := None)"
proof
  fix q
  show "engine_view (snd (Engine_Delete k e)) q = ((engine_view e)(k := None)) q"
    using assms lower_layers_cong[OF Delete_open(5,4), of k e]
    by (simp add: engine_view_active Delete_open mt_lookup_Delete en_open_def en_wf_def cong: option.case_cong)
qed

interpretation en: kv_store "\<lambda>k v e. snd (Engine_Put k v e)" "\<lambda>k e. snd (Engine_Delete k e)" engine_view en_open
  by unfold_locales
    (simp_all add: view_Put view_Delete, simp_all add: en_open_def en_wf_Put en_wf_Delete Put_open Delete_open)

section \<open>Reads\<close>

text \<open>
  A lookup in a table may be trusted for a key that is in the table, that the filter excludes,
  or that is below the largest key; otherwise the scan runs on into the filter block.
\<close>

definition probe_safe :: "memEntry list \<Rightarrow> string \<Rightarrow> bool" where
  "probe_safe es k \<longleftrightarrow> list_ex (\<lambda>x. k \<le> me_key x) es \<or> \<not> bloom_mightContain (table_bloom es) k"

lemma Get_table_is:
  assumes "table_is d r es" and "probe_safe es k"
  shows "SSTableReader_Get d r k = map_option (\<lambda>x. (me_value x, me_kind x)) (lookup_entry es k)"
proof (cases "lookup_entry es k")
  case None
  then have "k \<notin> me_key ` set es" by (simp add: lookup_entry_None)
  then have "\<not> bloom_mightContain (table_bloom es) k \<or> (\<exists>x \<in> set es. k < me_key x)"
    using assms(2) unfolding probe_safe_def list_ex_iff by (metis image_eqI order_le_imp_less_or_eq)
  then show ?thesis
    using assms(1) None Get_Write_absent[of d "r_path r" es k] by (simp add: table_is_def)
next
  case (Some x)
  then show ?thesis
    using assms(1) Get_Write[of d "r_path r" es k x] by (simp add: table_is_def)
qed

lemma reader_entries_bloom:
  assumes "table_is d r es"
  shows "table_bloom (reader_entries d r) = r_bloom r"
proof -
  have "r_bloom r = table_bloom es" using assms unfolding table_is_def reader_of_def
    by (metis SSTableReader.select_convs(2))
  then show ?thesis using assms by (simp add: table_is_entries table_bloom_def o_def)
qed

lemma probe_safe_forget: "probe_safe (map forget_seq es) k \<longleftrightarrow> probe_safe es k"
  by (simp add: probe_safe_def list_ex_iff table_bloom_def o_def)

lemma sstables_get_view:
  assumes "list_all (table_ok d) rs" and "list_all (\<lambda>r. probe_safe (reader_entries d r) k) rs"
  shows "sstables_get d rs k = live_value (newest_lookup (map (reader_entries d) (rev rs)) k)"
  using assms
proof (induction rs)
  case (Cons r rs)
  then obtain es where es: "table_is d r es" by (auto simp: table_ok_def)
  then have e: "reader_entries d r = map forget_seq es" by (rule table_is_entries)
  then have "probe_safe es k" using Cons.prems(2) by (simp add: probe_safe_forget)
  note g = Get_table_is[OF es this]
  have "newest_lookup (map (reader_entries d) (rev (r # rs))) k =
      (case lookup_entry es k of
         None \<Rightarrow> newest_lookup (map (reader_entries d) (rev rs)) k | Some x \<Rightarrow> Some (forget_seq x))"
    by (simp add: newest_lookup_append e lookup_forget split: option.splits)
  with g Cons show ?case by (auto simp: live_value_def split: option.splits)
qed simp

text \<open>A tombstone in a buffer: the case in which \<open>Get\<close> looks further down.\<close>

definition buffer_entry :: "Engine \<Rightarrow> string \<Rightarrow> memEntry option" where
  "buffer_entry e k =
     (case mt_lookup (en_active e) k of
        Some x \<Rightarrow> Some x
      | None \<Rightarrow> (case en_immutable e of None \<Rightarrow> None | Some imm \<Rightarrow> mt_lookup imm k))"

definition buffer_tombstone :: "Engine \<Rightarrow> string \<Rightarrow> bool" where
  "buffer_tombstone e k \<longleftrightarrow>
     (case buffer_entry e k of None \<Rightarrow> False | Some x \<Rightarrow> me_kind x = kindDelete)"

lemma engine_view_buffers:
  "engine_view e k =
     (case buffer_entry e k of
        Some x \<Rightarrow> live_value (Some x)
      | None \<Rightarrow> live_value (newest_lookup (table_layers e) k))"
  unfolding engine_view_active buffer_entry_def
  by (auto simp: newest_lookup_append split: option.splits)

lemma Get_view:
  assumes wf: "en_wf e" and nt: "\<not> buffer_tombstone e k"
    and safe: "list_all (\<lambda>r. probe_safe (reader_entries (en_dir e) r) k) (en_sstables e)"
  shows "Engine_Get k e = engine_view e k"
proof -
  have t: "sstables_get (en_dir e) (en_sstables e) k = live_value (newest_lookup (table_layers e) k)"
    using sstables_get_view[OF _ safe] wf by (simp add: en_wf_def table_layers_def)
  have "mt_wf (en_active e)" and i: "\<And>imm. en_immutable e = Some imm \<Longrightarrow> mt_wf imm"
    using wf by (auto simp: en_wf_def)
  then show ?thesis
    unfolding Engine_Get_def engine_view_buffers t
    using nt by (auto simp: Memtable_Get_lookup[OF i] Memtable_Get_lookup buffer_entry_def
        buffer_tombstone_def live_value_def split: option.splits if_splits)
qed

section \<open>Flush and compaction\<close>

text \<open>What \<open>doFlush\<close> and \<open>compaction_finish\<close> do when the disk does its part.\<close>

lemma doFlush_ok:
  assumes "en_immutable e = Some imm" and "Memtable_Size imm \<noteq> 0"
    and "length (data_block (mt_entries imm)) < 2 ^ 63"
  defines "p \<equiv> sst_path (Suc (en_sstableSeq e))"
  shows "doFlush DiskOk e =
    e\<lparr>en_sstableSeq := Suc (en_sstableSeq e),
      en_dir := dir_put p (SSTableWriter_Write (mt_entries imm)) (en_dir e),
      en_sstables := reader_of p (mt_entries imm) # en_sstables e, en_immutable := None\<rparr>"
proof -
  have "OpenSSTable (dir_put p (SSTableWriter_Write (mt_entries imm)) (en_dir e)) p
      = Inr (reader_of p (mt_entries imm))"
    using assms(3) by (intro Open_Write) simp_all
  then show ?thesis
    using assms(1,2) by (simp add: doFlush_def Let_def disk_write_def Memtable_Snapshot_def p_def)
qed

lemma compaction_finish_ok:
  fixes e :: Engine
  assumes "length (data_block merged) < 2 ^ 63"
  defines "p \<equiv> sst_path (Suc (en_sstableSeq e))"
  shows "compaction_finish DiskOk tc merged e =
    e\<lparr>en_sstableSeq := Suc (en_sstableSeq e), en_sstables := [reader_of p merged],
      en_dir := fold dir_remove (map r_path tc) (dir_put p (SSTableWriter_Write merged) (en_dir e))\<rparr>"
proof -
  have "OpenSSTable (dir_put p (SSTableWriter_Write merged) (en_dir e)) p = Inr (reader_of p merged)"
    using assms(1) by (intro Open_Write) simp_all
  then show ?thesis
    by (simp add: compaction_finish_def Let_def disk_write_def p_def)
qed

lemma dir_get_removes: "dir_get (fold dir_remove ps d) q = (if q \<in> set ps then None else dir_get d q)"
  by (induction ps arbitrary: d) auto

lemma dir_ok_removes: "dir_ok d \<Longrightarrow> dir_ok (fold dir_remove ps d)"
  by (induction ps arbitrary: d) auto

lemma r_path_reader_of [simp]: "r_path (reader_of p es) = p"
  by (simp add: reader_of_def)

lemma table_is_reader_of:
  "dir_get d p = Some (SSTableWriter_Write es) \<Longrightarrow> table_fits es \<Longrightarrow> keys_sorted es \<Longrightarrow>
   table_is d (reader_of p es) es"
  by (simp add: table_is_def)

text \<open>
  A layer may be replaced by one that agrees with it on live values: a flushed buffer (which
  loses the sequence numbers) or the merge of the tables (which loses the tombstones).
\<close>

lemma live_newest_mid:
  assumes "\<And>k. live_value (newest_lookup xs k) = live_value (newest_lookup xs' k)"
    and "lookup_entry m' k = map_option forget_seq (lookup_entry m k)"
  shows "live_value (newest_lookup (xs' @ m' # ys) k) = live_value (newest_lookup (xs @ m # ys) k)"
  using assms(2) live_forget[of "lookup_entry m k"] assms(1)[of k]
  by (cases "lookup_entry m k") (auto simp: newest_lookup_append split: option.splits)

lemma table_layers_put:
  assumes "\<And>r. r \<in> set (en_sstables e) \<Longrightarrow> r_path r \<noteq> p"
  shows "map (reader_entries (dir_put p c (en_dir e))) (rev (en_sstables e)) = table_layers e"
  unfolding table_layers_def using assms by (intro map_cong) (simp_all add: reader_entries_put)

lemma doFlush_view:
  assumes wf: "en_wf e" and imm: "en_immutable e = Some imm" and "Memtable_Size imm \<noteq> 0"
    and fits: "table_fits (mt_entries imm)" and seq: "Suc (en_sstableSeq e) < 10 ^ 16"
  shows "engine_view (doFlush DiskOk e) = engine_view e"
proof
  fix k
  let ?p = "sst_path (Suc (en_sstableSeq e))" and ?es = "mt_entries imm"
  let ?d = "dir_put ?p (SSTableWriter_Write ?es) (en_dir e)"
  have ok: "doFlush DiskOk e = e\<lparr>en_sstableSeq := Suc (en_sstableSeq e), en_dir := ?d,
      en_sstables := reader_of ?p ?es # en_sstables e, en_immutable := None\<rparr>"
    using doFlush_ok[OF imm assms(3)] fits by (simp add: table_fits_def)
  have "keys_sorted ?es" using wf imm by (simp add: en_wf_def mt_wf_def)
  then have "reader_entries ?d (reader_of ?p ?es) = map forget_seq ?es"
    using fits by (intro table_is_entries table_is_reader_of) simp_all
  then have tl: "table_layers (doFlush DiskOk e) = table_layers e @ [map forget_seq ?es]"
    using table_layers_put[of e ?p] fresh_path[OF wf seq] unfolding ok by (simp add: table_layers_def)
  have "mem_layers (doFlush DiskOk e) = [mt_entries (en_active e)]"
    "mem_layers e = [?es, mt_entries (en_active e)]"
    unfolding ok by (simp_all add: mem_layers_def imm)
  then show "engine_view (doFlush DiskOk e) k = engine_view e k"
    unfolding engine_view_def tl using live_newest_mid[OF refl lookup_forget] by simp
qed

lemma en_wf_doFlush:
  assumes wf: "en_wf e" and imm: "en_immutable e = Some imm" and "Memtable_Size imm \<noteq> 0"
    and fits: "table_fits (mt_entries imm)" and seq: "Suc (en_sstableSeq e) < 10 ^ 16"
  shows "en_wf (doFlush DiskOk e)"
proof -
  let ?p = "sst_path (Suc (en_sstableSeq e))" and ?es = "mt_entries imm"
  let ?d = "dir_put ?p (SSTableWriter_Write ?es) (en_dir e)"
  have ok: "doFlush DiskOk e = e\<lparr>en_sstableSeq := Suc (en_sstableSeq e), en_dir := ?d,
      en_sstables := reader_of ?p ?es # en_sstables e, en_immutable := None\<rparr>"
    using doFlush_ok[OF imm assms(3)] fits by (simp add: table_fits_def)
  have srt: "keys_sorted ?es" using wf imm by (simp add: en_wf_def mt_wf_def)
  have new: "table_ok ?d (reader_of ?p ?es)"
    unfolding table_ok_def by (rule exI, rule table_is_reader_of) (simp_all add: fits srt)
  have old: "list_all (table_ok ?d) (en_sstables e)"
    using wf fresh_path[OF wf seq] unfolding en_wf_def list_all_iff by (simp add: table_ok_put)
  obtain ns where ns: "map r_path (en_sstables e) = map sst_path ns" "sorted_wrt (>) ns"
    "list_all (\<lambda>n. n \<le> en_sstableSeq e) ns" using wf by (auto simp: en_wf_def)
  then have "map r_path (reader_of ?p ?es # en_sstables e) = map sst_path (Suc (en_sstableSeq e) # ns)"
    "sorted_wrt (>) (Suc (en_sstableSeq e) # ns)"
    "list_all (\<lambda>n. n \<le> Suc (en_sstableSeq e)) (Suc (en_sstableSeq e) # ns)"
    by (auto simp: list_all_iff)
  then have "\<exists>ns'. map r_path (reader_of ?p ?es # en_sstables e) = map sst_path ns'
      \<and> sorted_wrt (>) ns' \<and> list_all (\<lambda>n. n \<le> Suc (en_sstableSeq e)) ns'" by blast
  then show ?thesis
    using wf new old seq unfolding ok by (simp add: en_wf_def)
qed

text \<open>
  The heart of compaction, with or without a flush in between: afterwards the one table left
  holds the live entries of the captured tables, whatever the engine's table list was.
\<close>

lemma compaction_finish_layers:
  assumes "table_fits merged" and "keys_sorted merged"
    and fresh: "sst_path (Suc (en_sstableSeq e)) \<notin> r_path ` set tc"
  shows "table_layers (compaction_finish DiskOk tc merged e) = [map forget_seq merged]"
    and "mem_layers (compaction_finish DiskOk tc merged e) = mem_layers e"
proof -
  let ?p = "sst_path (Suc (en_sstableSeq e))"
  let ?d = "fold dir_remove (map r_path tc) (dir_put ?p (SSTableWriter_Write merged) (en_dir e))"
  have ok: "compaction_finish DiskOk tc merged e =
      e\<lparr>en_sstableSeq := Suc (en_sstableSeq e), en_sstables := [reader_of ?p merged], en_dir := ?d\<rparr>"
    using assms(1) compaction_finish_ok[of merged tc e] by (simp add: table_fits_def)
  have "dir_get ?d ?p = Some (SSTableWriter_Write merged)"
    using fresh by (simp add: dir_get_removes)
  then have "reader_entries ?d (reader_of ?p merged) = map forget_seq merged"
    using assms(1,2) by (intro table_is_entries table_is_reader_of)
  then show "table_layers (compaction_finish DiskOk tc merged e) = [map forget_seq merged]"
    unfolding ok by (simp add: table_layers_def)
  show "mem_layers (compaction_finish DiskOk tc merged e) = mem_layers e"
    unfolding ok by (simp add: mem_layers_def)
qed

lemma live_merged:
  assumes "list_all keys_sorted inputs"
  shows "live_value (newest_lookup [map forget_seq (MergeEntries inputs)] k)
    = live_value (newest_lookup inputs k)"
  using MergeEntries_spec(2)[OF assms] by (simp add: lookup_forget)

lemma doCompaction_unfold:
  assumes "en_wf e" and "2 \<le> length (en_sstables e)"
  shows "doCompaction dk e = compaction_finish dk (en_sstables e) (MergeEntries (table_layers e)) e"
proof -
  have "list_all (table_ok (en_dir e)) (rev (en_sstables e))" using assms(1) by (simp add: en_wf_def)
  from compaction_read_ok[OF this] show ?thesis
    using assms(2) by (simp add: doCompaction_def Let_def table_layers_def)
qed

lemma doCompaction_view:
  assumes wf: "en_wf e" and n: "2 \<le> length (en_sstables e)"
    and fits: "table_fits (MergeEntries (table_layers e))" and seq: "Suc (en_sstableSeq e) < 10 ^ 16"
  shows "engine_view (doCompaction DiskOk e) = engine_view e"
proof
  fix k
  have "sst_path (Suc (en_sstableSeq e)) \<notin> r_path ` set (en_sstables e)"
    using fresh_path[OF wf seq] by (metis imageE)
  note l = compaction_finish_layers[OF fits MergeEntries_spec(1)[OF table_layers_sorted[OF wf]] this]
  show "engine_view (doCompaction DiskOk e) k = engine_view e k"
    unfolding doCompaction_unfold[OF wf n] engine_view_def l
    by (rule live_newest_append) (rule live_merged[OF table_layers_sorted[OF wf]])
qed

end
