(* ===== verification/KV_EngineProps.thy ===== *)
theory KV_EngineProps
  imports KV_Engine
begin

text \<open>
  The engine's correctness: background maintenance never changes what the engine holds,
  closing and reopening keeps it, and reads return it except in one case that the source gets
  wrong. Two more behaviours of the background workers that lose or block data are stated as
  theorems of their own.
\<close>

section \<open>Failed and successful table writes\<close>

lemma bump_wf:
  assumes wf: "en_wf e" and seq: "Suc (en_sstableSeq e) < 10 ^ 16"
    and d: "d = en_dir e \<or> d = dir_put (sst_path (Suc (en_sstableSeq e))) c (en_dir e)"
  defines "e1 \<equiv> e\<lparr>en_sstableSeq := Suc (en_sstableSeq e), en_dir := d\<rparr>"
  shows "en_wf e1" and "engine_view e1 = engine_view e"
proof -
  let ?p = "sst_path (Suc (en_sstableSeq e))"
  have fr: "r_path r \<noteq> ?p" if "r \<in> set (en_sstables e)" for r
    using fresh_path[OF wf seq that] .
  have tabs: "list_all (table_ok d) (en_sstables e)"
    using wf fr d unfolding en_wf_def list_all_iff by (metis table_ok_put)
  obtain ns where "map r_path (en_sstables e) = map sst_path ns" "sorted_wrt (>) ns"
    "list_all (\<lambda>n. n \<le> en_sstableSeq e) ns" using wf by (auto simp: en_wf_def)
  then have "\<exists>ns. map r_path (en_sstables e) = map sst_path ns \<and> sorted_wrt (>) ns
      \<and> list_all (\<lambda>n. n \<le> Suc (en_sstableSeq e)) ns"
    by (intro exI[of _ ns]) (auto simp: list_all_iff)
  then show "en_wf e1"
    using wf tabs seq d unfolding en_wf_def e1_def by auto
  have "table_layers e1 = table_layers e"
    using d table_layers_put[of e ?p c] fr by (auto simp: e1_def table_layers_def)
  then show "engine_view e1 = engine_view e"
    by (simp add: engine_view_def mem_layers_def e1_def fun_eq_iff)
qed

lemma disk_write_cases:
  assumes "dk \<noteq> DiskOk"
  obtains "disk_write dk p c d = d" | left where "disk_write dk p c d = dir_put p left d"
proof (cases dk)
  case (DiskFail left)
  then show thesis using that by (cases left) (simp_all add: disk_write_def)
qed (use assms in simp)

lemma doFlush_keeps:
  assumes wf: "en_wf e" and seq: "Suc (en_sstableSeq e) < 10 ^ 16"
    and fits: "\<And>imm. en_immutable e = Some imm \<Longrightarrow> table_fits (mt_entries imm)"
  shows "en_wf (doFlush dk e) \<and> engine_view (doFlush dk e) = engine_view e"
proof (cases "en_immutable e")
  case None
  then show ?thesis using wf by (simp add: doFlush_def)
next
  case (Some imm)
  show ?thesis
  proof (cases "Memtable_Size imm = 0")
    case True
    with Some wf show ?thesis by (simp add: doFlush_def)
  next
    case False
    show ?thesis
    proof (cases "dk = DiskOk")
      case True
      then show ?thesis
        using doFlush_view[OF wf Some False fits[OF Some] seq]
          en_wf_doFlush[OF wf Some False fits[OF Some] seq] by simp
    next
      case nok: False
      let ?c = "SSTableWriter_Write (Memtable_Snapshot imm)" and ?p = "sst_path (Suc (en_sstableSeq e))"
      have "doFlush dk e = e\<lparr>en_sstableSeq := Suc (en_sstableSeq e), en_dir := disk_write dk ?p ?c (en_dir e)\<rparr>"
        using Some False nok by (simp add: doFlush_def Let_def)
      then show ?thesis
        using bump_wf[OF wf seq] disk_write_cases[OF nok, of ?p ?c "en_dir e"] by metis
    qed
  qed
qed

lemma compaction_wf:
  assumes wf: "en_wf e" and seq: "Suc (en_sstableSeq e) < 10 ^ 16"
    and fits: "table_fits merged" and srt: "keys_sorted merged"
  shows "en_wf (compaction_finish DiskOk (en_sstables e) merged e)"
proof -
  let ?p = "sst_path (Suc (en_sstableSeq e))"
  let ?d = "fold dir_remove (map r_path (en_sstables e)) (dir_put ?p (SSTableWriter_Write merged) (en_dir e))"
  have ok: "compaction_finish DiskOk (en_sstables e) merged e =
      e\<lparr>en_sstableSeq := Suc (en_sstableSeq e), en_sstables := [reader_of ?p merged], en_dir := ?d\<rparr>"
    using fits compaction_finish_ok[of merged "en_sstables e" e] by (simp add: table_fits_def)
  have "?p \<notin> set (map r_path (en_sstables e))"
    using fresh_path[OF wf seq] by (metis imageE set_map)
  then have "dir_get ?d ?p = Some (SSTableWriter_Write merged)" by (simp add: dir_get_removes)
  then have "table_ok ?d (reader_of ?p merged)"
    unfolding table_ok_def using fits srt by (blast intro: table_is_reader_of)
  moreover have "dir_ok ?d" using wf by (simp add: en_wf_def dir_ok_removes)
  moreover have "\<exists>ns. map r_path [reader_of ?p merged] = map sst_path ns \<and> sorted_wrt (>) ns
      \<and> list_all (\<lambda>n. n \<le> Suc (en_sstableSeq e)) ns"
    by (intro exI[of _ "[Suc (en_sstableSeq e)]"]) simp
  ultimately show ?thesis
    using wf seq unfolding ok en_wf_def by simp
qed

lemma doCompaction_keeps:
  assumes wf: "en_wf e" and seq: "Suc (en_sstableSeq e) < 10 ^ 16"
    and fits: "table_fits (MergeEntries (table_layers e))"
  shows "en_wf (doCompaction dk e) \<and> engine_view (doCompaction dk e) = engine_view e"
proof (cases "2 \<le> length (en_sstables e)")
  case False
  then show ?thesis using wf by (simp add: doCompaction_def)
next
  case n: True
  have srt: "keys_sorted (MergeEntries (table_layers e))"
    by (rule MergeEntries_spec(1)[OF table_layers_sorted[OF wf]])
  show ?thesis
  proof (cases "dk = DiskOk")
    case True
    then show ?thesis
      using doCompaction_view[OF wf n fits seq] compaction_wf[OF wf seq fits srt]
      by (simp add: doCompaction_unfold[OF wf n])
  next
    case nok: False
    let ?c = "SSTableWriter_Write (MergeEntries (table_layers e))" and ?p = "sst_path (Suc (en_sstableSeq e))"
    have "doCompaction dk e = e\<lparr>en_sstableSeq := Suc (en_sstableSeq e), en_dir := disk_write dk ?p ?c (en_dir e)\<rparr>"
      using nok by (simp add: doCompaction_unfold[OF wf n] compaction_finish_def Let_def)
    then show ?thesis
      using bump_wf[OF wf seq] disk_write_cases[OF nok, of ?p ?c "en_dir e"] by metis
  qed
qed

lemma signals_keep [simp]:
  "en_wf (e\<lparr>en_flushCh := b\<rparr>) = en_wf e" "engine_view (e\<lparr>en_flushCh := b\<rparr>) = engine_view e"
  "en_wf (e\<lparr>en_compactCh := b\<rparr>) = en_wf e" "engine_view (e\<lparr>en_compactCh := b\<rparr>) = engine_view e"
  "table_layers (e\<lparr>en_compactCh := b\<rparr>) = table_layers e"
  by (simp_all add: en_wf_def engine_view_def table_layers_def mem_layers_def fun_eq_iff)

lemma rotate_view:
  assumes "en_wf e" and "en_immutable e = None"
  defines "e1 \<equiv> e\<lparr>en_immutable := Some (en_active e), en_active := NewMemtable\<rparr>"
  shows "en_wf e1" and "engine_view e1 = engine_view e"
proof -
  show "en_wf e1" using assms(1) by (simp add: en_wf_def e1_def)
  have "table_layers e1 = table_layers e" by (simp add: e1_def table_layers_def)
  moreover have "mem_layers e1 = mem_layers e @ [[]]"
    by (simp add: e1_def mem_layers_def assms(2) NewMemtable_def)
  ultimately show "engine_view e1 = engine_view e"
    by (simp add: engine_view_def fun_eq_iff newest_lookup_append)
qed

lemma closed_kept [simp]:
  "en_closed (doFlush dk e) = en_closed e"
  "en_closed (rotateAndFlush dk e) = en_closed e"
  "en_closed (doCompaction dk e) = en_closed e"
  by (auto simp: doFlush_def rotateAndFlush_def doCompaction_def compaction_finish_def Let_def
      split: option.splits sum.splits)

lemma rotateAndFlush_keeps:
  assumes wf: "en_wf e" and seq: "Suc (en_sstableSeq e) < 10 ^ 16"
    and fits: "table_fits (mt_entries (en_active e))"
  shows "en_wf (rotateAndFlush dk e) \<and> engine_view (rotateAndFlush dk e) = engine_view e"
proof (cases "en_immutable e")
  case None
  let ?e1 = "e\<lparr>en_immutable := Some (en_active e), en_active := NewMemtable\<rparr>"
  have "en_wf (doFlush dk ?e1) \<and> engine_view (doFlush dk ?e1) = engine_view ?e1"
    using rotate_view(1)[OF wf None] seq fits by (intro doFlush_keeps) auto
  then show ?thesis
    using rotate_view(2)[OF wf None] None by (simp add: rotateAndFlush_def Let_def)
next
  case (Some imm)
  then show ?thesis using wf by (simp add: rotateAndFlush_def)
qed

section \<open>Any interleaving of writes and maintenance\<close>

abbreviation engine_run_op :: "kv_op \<Rightarrow> Engine \<Rightarrow> Engine" where
  "engine_run_op \<equiv> run_op (\<lambda>k v e. snd (Engine_Put k v e)) (\<lambda>k e. snd (Engine_Delete k e))"

text \<open>
  Histories of an engine: client writes, turns of the flush worker and turns of the compaction
  worker in any order, each worker turn with any outcome of its disk write. The side conditions
  are the sizes the file format can hold.
\<close>

inductive engine_history :: "Engine \<Rightarrow> kv_op list \<Rightarrow> Engine \<Rightarrow> bool" for e0 where
  begin_history: "engine_history e0 [] e0"
| client_write: "engine_history e0 ops e \<Longrightarrow> engine_history e0 (ops @ [op]) (engine_run_op op e)"
| flush_turn: "engine_history e0 ops e \<Longrightarrow> table_fits (mt_entries (en_active e)) \<Longrightarrow>
    Suc (en_sstableSeq e) < 10 ^ 16 \<Longrightarrow> engine_history e0 ops (flushWorker_turn dk e)"
| compaction_turn: "engine_history e0 ops e \<Longrightarrow> table_fits (MergeEntries (table_layers e)) \<Longrightarrow>
    Suc (en_sstableSeq e) < 10 ^ 16 \<Longrightarrow> engine_history e0 ops (compactionWorker_turn dk tick e)"

lemma engine_history_keeps:
  "engine_history e0 ops e \<Longrightarrow> en_open e0 \<Longrightarrow>
   en_open e \<and> engine_view e = fold apply_op ops (engine_view e0)"
proof (induction rule: engine_history.induct)
  case begin_history
  then show ?case by simp
next
  case (client_write ops e op)
  then show ?case
    using en.run_op_invar[of e op] en.run_op_contents[of e op] by simp
next
  case (flush_turn ops e dk)
  then show ?case
    using rotateAndFlush_keeps[of "e\<lparr>en_flushCh := False\<rparr>" dk]
    by (simp add: flushWorker_turn_def en_open_def)
next
  case (compaction_turn ops e dk tick)
  then show ?case
    using doCompaction_keeps[of "e\<lparr>en_compactCh := False\<rparr>" dk] doCompaction_keeps[of e dk]
    by (simp add: compactionWorker_turn_def en_open_def)
qed

section \<open>Close and reopen\<close>

text \<open>
  The directory is clean when its table files are exactly the open tables: no leftover of a
  failed write. Then the names the reopening engine finds are the paths of the tables, newest
  first, and every one of them opens.
\<close>

definition en_clean :: "Engine \<Rightarrow> bool" where
  "en_clean e \<longleftrightarrow> set (Glob ''.sst'' (en_dir e)) = r_path ` set (en_sstables e)"

lemma sst_path_less_iff: "m < 10 ^ 16 \<Longrightarrow> n < 10 ^ 16 \<Longrightarrow> sst_path m < sst_path n \<longleftrightarrow> m < n"
  using sprintf_016d_less_iff[of m n] sprintf_016d_inj[of m n]
  by (simp add: sst_path_def sprintf_016d_small less_append_same_length)

lemma parse_sst_path: "n < 10 ^ 16 \<Longrightarrow> parse_sst_seq (sst_path n) = Some n"
  using parse_dec_sprintf[of n "''.sst''"]
  by (simp add: parse_sst_seq_def sst_path_def is_digit_def)

lemma has_suffix_sst_path: "has_suffix ''.sst'' (sst_path n)"
  by (simp add: sst_path_def)

lemma Glob_clean:
  assumes wf: "en_wf e" and clean: "en_clean e"
  shows "rev (Glob ''.sst'' (en_dir e)) = map r_path (en_sstables e)"
proof -
  obtain ns where ns: "map r_path (en_sstables e) = map sst_path ns" "sorted_wrt (>) ns"
    "list_all (\<lambda>n. n \<le> en_sstableSeq e) ns" and seq: "en_sstableSeq e < 10 ^ 16"
    using wf by (auto simp: en_wf_def)
  have small: "n < 10 ^ 16" if "n \<in> set ns" for n
    using ns(3) seq that by (force simp: list_all_iff)
  have "sorted_wrt (\<lambda>a b. sst_path b < sst_path a) ns"
    using ns(2) small by (auto intro: sorted_wrt_mono_rel[of ns "(>)"] simp: sst_path_less_iff)
  then have "sorted_wrt (<) (rev (map sst_path ns))"
    by (simp add: sorted_wrt_rev sorted_wrt_map)
  moreover have "sorted_wrt (<) (Glob ''.sst'' (en_dir e))"
    using wf by (intro sorted_Glob) (simp add: en_wf_def)
  moreover have "set (rev (map sst_path ns)) = set (Glob ''.sst'' (en_dir e))"
    using clean ns(1) unfolding en_clean_def by (metis set_map set_rev)
  ultimately have "rev (map sst_path ns) = Glob ''.sst'' (en_dir e)"
    by (metis strict_sorted_equal)
  then show ?thesis using ns(1) by (metis rev_rev_ident)
qed

lemma open_all_intact:
  "list_all (table_ok d) rs \<Longrightarrow> open_all d (map r_path rs) = rs"
proof (induction rs)
  case (Cons r rs)
  then obtain es where es: "table_is d r es" by (auto simp: table_ok_def)
  then have "OpenSSTable d (r_path r) = Inr r"
    using Open_Write[of d "r_path r" es] by (simp add: table_is_def table_fits_def)
  with Cons show ?case by (simp add: open_all_def)
qed (simp add: open_all_def)

lemma reopen:
  assumes wf: "en_wf e" and clean: "en_clean e"
  shows "\<exists>e'. Engine_Open (en_dir e) = Inr e' \<and> en_open e' \<and> table_layers e' = table_layers e
    \<and> en_active e' = NewMemtable \<and> en_immutable e' = None \<and> en_clean e'"
proof -
  have tabs: "open_all (en_dir e) (map r_path (en_sstables e)) = en_sstables e"
    using wf by (intro open_all_intact) (simp add: en_wf_def)
  obtain ns where ns: "map r_path (en_sstables e) = map sst_path ns" "sorted_wrt (>) ns"
    "list_all (\<lambda>n. n \<le> en_sstableSeq e) ns" and seq: "en_sstableSeq e < 10 ^ 16"
    using wf by (auto simp: en_wf_def)
  define m where "m = (case ns of [] \<Rightarrow> 0 | n # _ \<Rightarrow> n)"
  have m: "m \<le> en_sstableSeq e" and top: "list_all (\<lambda>n. n \<le> m) ns"
    using ns(2,3) by (auto simp: m_def list_all_iff less_imp_le split: list.splits)
  have "loadSSTables (en_dir e) = Inr (en_sstables e, m)"
    using tabs ns(1) m seq parse_sst_path[of m]
    by (cases ns) (auto simp: loadSSTables_def Glob_clean[OF wf clean] m_def Let_def)
  then have "Engine_Open (en_dir e) =
      Inr \<lparr>en_dir = en_dir e, en_active = NewMemtable, en_immutable = None, en_sstables = en_sstables e,
           en_flushCh = False, en_compactCh = False, en_sstableSeq = m, en_closed = False\<rparr>"
    by (simp add: Engine_Open_def)
  then show ?thesis
    using wf ns top m seq clean unfolding en_open_def en_wf_def table_layers_def en_clean_def by auto
qed

lemma doFlush_clean:
  assumes "en_immutable e = Some imm" and "Memtable_Size imm \<noteq> 0"
    and "length (data_block (mt_entries imm)) < 2 ^ 63" and "en_clean e"
  shows "en_clean (doFlush DiskOk e)"
  unfolding doFlush_ok[OF assms(1-3)] using assms(4)
  by (auto simp: en_clean_def set_Glob set_dir_put has_suffix_sst_path)

section \<open>A sample state for the concrete instances\<close>

definition sample_engine :: Engine where
  "sample_engine =
     \<lparr>en_dir = [(sst_path 1, SSTableWriter_Write sample_entries)], en_active = NewMemtable,
      en_immutable = None, en_sstables = [reader_of (sst_path 1) sample_entries],
      en_flushCh = False, en_compactCh = False, en_sstableSeq = 1, en_closed = False\<rparr>"

lemma sample_table_is: "table_is (en_dir sample_engine) (reader_of (sst_path 1) sample_entries) sample_entries"
  by (simp add: table_is_def sample_engine_def sample_entries_ok)

lemma sample_engine_ok: "en_open sample_engine" "en_wf sample_engine" "en_clean sample_engine"
proof -
  have tab: "table_ok (en_dir sample_engine) (reader_of (sst_path 1) sample_entries)"
    using sample_table_is by (auto simp: table_ok_def)
  then show wf: "en_wf sample_engine"
    by (auto simp: en_wf_def sample_engine_def dir_ok_def mt_wf_def NewMemtable_def keys_sorted_def
        intro!: exI[of _ "[1]"])
  then show "en_open sample_engine" by (simp add: en_open_def sample_engine_def)
  show "en_clean sample_engine"
    using has_suffix_sst_path[of 1] by (auto simp: en_clean_def sample_engine_def set_Glob)
qed

lemma sample_layers:
  "table_layers sample_engine = [map forget_seq sample_entries]"
  "table_layers (sample_engine\<lparr>en_immutable := i\<rparr>) = [map forget_seq sample_entries]"
  using table_is_entries[OF sample_table_is] by (simp_all add: table_layers_def sample_engine_def)

lemma sample_merge:
  "MergeEntries [map forget_seq sample_entries] = [forget_seq (hd sample_entries)]"
  "MergeEntries [map forget_seq sample_entries, []] = [forget_seq (hd sample_entries)]"
  by code_simp+

section \<open>Properties\<close>





text \<open>
  Reading one's own write: right after \<open>Put\<close> on an open engine \<open>Get\<close> returns the new
  value, whatever the older layers hold.
\<close>

lemma engine_read_your_write:
  assumes "en_open e"
  shows "Engine_Get k (snd (Engine_Put k v e)) = Some v"
  using assms by (simp add: Engine_Get_def Put_open Memtable_Get_lookup mt_lookup_Put en_open_def en_wf_def)

lemma engine_read_your_write_witness:
  "Engine_Get ''a'' (snd (Engine_Put ''a'' [7] sample_engine)) = Some [7]"
  by (rule engine_read_your_write[OF sample_engine_ok(1)])

text \<open>
  C37: a deleted key comes back. \<open>Memtable.Get\<close> answers "not found" both for an absent key and
  for a tombstone, so after \<open>Delete\<close> the engine's \<open>Get\<close> goes on to the tables and returns the
  value of the newest table that has the key, although the engine no longer holds it.
\<close>

theorem engine_deleted_key_resurrected:
  assumes "en_open e" and "en_immutable e = None" and "en_sstables e = r # rs"
    and "table_is (en_dir e) r es" and "lookup_entry es k = Some x" and "me_kind x = kindPut"
  shows "Engine_Get k (snd (Engine_Delete k e)) = Some (me_value x)
    \<and> engine_view (snd (Engine_Delete k e)) k = None"
proof
  have "Memtable_Get k (Memtable_Delete k (en_active e)) = None"
    using assms(1) by (simp add: Memtable_Get_lookup mt_lookup_Delete en_open_def en_wf_def)
  moreover have "SSTableReader_Get (en_dir e) r k = Some (me_value x, me_kind x)"
    using assms(4,5) Get_Write[of "en_dir e" "r_path r" es k x] by (simp add: table_is_def)
  ultimately show "Engine_Get k (snd (Engine_Delete k e)) = Some (me_value x)"
    using assms by (simp add: Engine_Get_def Delete_open en_open_def)
  show "engine_view (snd (Engine_Delete k e)) k = None"
    using view_Delete[OF assms(1)] by simp
qed

theorem engine_deleted_key_resurrected_witness:
  "Engine_Get ''a'' (snd (Engine_Delete ''a'' sample_engine)) = Some [1]
    \<and> engine_view (snd (Engine_Delete ''a'' sample_engine)) ''a'' = None"
  using engine_deleted_key_resurrected[OF sample_engine_ok(1) _ _ sample_table_is, of "[]" "''a''" "hd sample_entries"]
  by (simp add: sample_engine_def sample_entries_def lookup_entry_def)

text \<open>
  C38: a flush that completes while a compaction is merging is lost. The compaction captured
  the tables before the flush and replaces the whole table list by its one merged table, so
  afterwards the engine holds what it would hold had the flushed buffer never been written.
\<close>

theorem compaction_drops_concurrent_flush:
  assumes wf: "en_wf e" and imm: "en_immutable e = Some imm" "Memtable_Size imm \<noteq> 0"
    and fits: "table_fits (mt_entries imm)" "table_fits (MergeEntries (table_layers e))"
    and seq: "Suc (Suc (en_sstableSeq e)) < 10 ^ 16"
  shows "engine_view
      (compaction_finish DiskOk (en_sstables e) (MergeEntries (table_layers e)) (doFlush DiskOk e))
    = engine_view (e\<lparr>en_immutable := None\<rparr>)"
proof
  fix k
  let ?f = "doFlush DiskOk e" and ?m = "MergeEntries (table_layers e)"
  have ok: "?f = e\<lparr>en_sstableSeq := Suc (en_sstableSeq e),
      en_dir := dir_put (sst_path (Suc (en_sstableSeq e))) (SSTableWriter_Write (mt_entries imm)) (en_dir e),
      en_sstables := reader_of (sst_path (Suc (en_sstableSeq e))) (mt_entries imm) # en_sstables e,
      en_immutable := None\<rparr>"
    using doFlush_ok[OF imm] fits(1) by (simp add: table_fits_def)
  have wf': "en_wf ?f" using en_wf_doFlush[OF wf imm fits(1)] seq by simp
  have seq': "Suc (en_sstableSeq ?f) < 10 ^ 16" using seq by (simp add: ok)
  have "sst_path (Suc (en_sstableSeq ?f)) \<notin> r_path ` set (en_sstables ?f)"
    using fresh_path[OF wf' seq'] by (metis imageE)
  then have "sst_path (Suc (en_sstableSeq ?f)) \<notin> r_path ` set (en_sstables e)"
    using ok by simp
  note l = compaction_finish_layers[OF fits(2) MergeEntries_spec(1)[OF table_layers_sorted[OF wf]] this]
  have "mem_layers ?f = mem_layers (e\<lparr>en_immutable := None\<rparr>)"
    unfolding ok by (simp add: mem_layers_def)
  moreover have "table_layers (e\<lparr>en_immutable := None\<rparr>) = table_layers e"
    by (simp add: table_layers_def)
  ultimately show "engine_view (compaction_finish DiskOk (en_sstables e) ?m ?f) k
      = engine_view (e\<lparr>en_immutable := None\<rparr>) k"
    unfolding engine_view_def l
    using live_newest_append[OF live_merged[OF table_layers_sorted[OF wf]]] by simp
qed

theorem compaction_drops_concurrent_flush_witness:
  "engine_view
      (compaction_finish DiskOk (en_sstables sample_engine)
        (MergeEntries (table_layers (sample_engine\<lparr>en_immutable := Some (Memtable_Put ''c'' [3] NewMemtable)\<rparr>)))
        (doFlush DiskOk (sample_engine\<lparr>en_immutable := Some (Memtable_Put ''c'' [3] NewMemtable)\<rparr>)))
    = engine_view sample_engine"
proof -
  let ?e = "sample_engine\<lparr>en_immutable := Some (Memtable_Put ''c'' [3] NewMemtable)\<rparr>"
  have put: "mt_wf (Memtable_Put ''c'' [3] NewMemtable)" "Memtable_Size (Memtable_Put ''c'' [3] NewMemtable) \<noteq> 0"
    "table_fits (mt_entries (Memtable_Put ''c'' [3] NewMemtable))"
    by (simp_all add: Memtable_Put_def Memtable_insert_def NewMemtable_def Let_def sort_Search_def
        Memtable_Size_def table_fits_def entry_fits_def length_encode_entry mt_wf_def keys_sorted_def)
  have "en_wf ?e" using sample_engine_ok(2) put(1) by (simp add: en_wf_def sample_engine_def)
  moreover have "table_fits (MergeEntries (table_layers ?e))"
    unfolding sample_layers sample_merge
    by (simp add: table_fits_def entry_fits_def length_encode_entry sample_entries_def)
  ultimately show ?thesis
    using compaction_drops_concurrent_flush[of ?e] put(2,3) by (simp add: sample_engine_def)
qed

text \<open>
  C40: a second flush signal that finds an empty buffer disables flushing. The empty buffer
  becomes the immutable one, \<open>doFlush\<close> returns early without clearing it, and from then on
  every turn of the flush worker is skipped: no later write is ever put into a table.
\<close>

theorem flush_disabled_by_empty_rotation:
  assumes "en_immutable e = None" and "Memtable_Size (en_active e) = 0"
  shows "en_sstables (fold (\<lambda>f e. f e) (concat (map (\<lambda>(op, dk). [engine_run_op op, flushWorker_turn dk]) hist))
      (rotateAndFlush dk0 e)) = en_sstables e"
proof -
  define stuck where "stuck e' \<longleftrightarrow> en_immutable e' \<noteq> None \<and> en_sstables e' = en_sstables e" for e' :: Engine
  have s0: "stuck (rotateAndFlush dk0 e)"
    using assms by (simp add: stuck_def rotateAndFlush_def doFlush_def Let_def)
  have "stuck (engine_run_op op e')" if "stuck e'" for op e'
    using that by (cases op) (simp_all add: stuck_def Put_open Delete_open)
  moreover have "stuck (flushWorker_turn dk e')" if "stuck e'" for dk e'
    using that by (simp add: stuck_def flushWorker_turn_def rotateAndFlush_def)
  ultimately have "stuck e' \<Longrightarrow>
      stuck (fold (\<lambda>f e. f e) (concat (map (\<lambda>(op, dk). [engine_run_op op, flushWorker_turn dk]) hist)) e')" for e'
    by (induction hist arbitrary: e') auto
  then show ?thesis using s0 by (simp add: stuck_def)
qed

theorem flush_disabled_by_empty_rotation_witness:
  "en_sstables (fold (\<lambda>f e. f e)
      (concat (map (\<lambda>(op, dk). [engine_run_op op, flushWorker_turn dk]) [(KvPut ''c'' [3], DiskOk)]))
      (rotateAndFlush DiskOk sample_engine)) = en_sstables sample_engine"
  by (rule flush_disabled_by_empty_rotation) (simp_all add: sample_engine_def NewMemtable_def Memtable_Size_def)



end
