(* ===== verification/KV_Snapshot.thy ===== *)
theory KV_Snapshot
  imports KV_EngineProps
begin

text \<open>
  Engine-wide snapshots, \<open>storage/snapshot.go\<close>: the wire format, \<open>Engine.Snapshot\<close> (merge all
  layers, encode) and \<open>Engine.LoadSnapshot\<close> (decode, replace everything, flush), and that a
  snapshot carries the contents of one engine to another.
\<close>

section \<open>Wire format\<close>

definition encode_pair :: "memEntry \<Rightarrow> bytes" where
  "encode_pair e =
     PutUint32 (uint32_len (me_key e)) @ string_bytes (me_key e)
     @ PutUint32 (uint32_len (me_value e)) @ me_value e"

definition encodeSnapshot :: "memEntry list \<Rightarrow> bytes" where
  "encodeSnapshot es = concat (map encode_pair es)"

datatype snap_error = SnapKeyLen | SnapKey | SnapValLen | SnapVal

datatype snap_read = SnapEnd | SnapBad snap_error | SnapRec memEntry bytes

definition read_pair :: "bytes \<Rightarrow> snap_read" where
  "read_pair bs =
     (case ReadUint32 bs of
        ReadEOF \<Rightarrow> SnapEnd
      | ReadUnexpectedEOF \<Rightarrow> SnapBad SnapKeyLen
      | ReadOk keyLen r1 \<Rightarrow>
          (case ReadFull (unat keyLen) r1 of
             ReadOk keyBytes r2 \<Rightarrow>
               (case ReadUint32 r2 of
                  ReadOk valLen r3 \<Rightarrow>
                    (case (if 0 < valLen then ReadFull (unat valLen) r3 else ReadOk [] r3) of
                       ReadOk valBytes r4 \<Rightarrow>
                         SnapRec \<lparr>me_key = bytes_string keyBytes, me_value = valBytes,
                                  me_kind = kindPut, me_seq = 0\<rparr> r4
                     | _ \<Rightarrow> SnapBad SnapVal)
                | _ \<Rightarrow> SnapBad SnapValLen)
           | _ \<Rightarrow> SnapBad SnapKey))"

lemma read_pair_shorter: "read_pair bs = SnapRec e rest \<Longrightarrow> length rest < length bs"
  by (auto simp: read_pair_def dest!: ReadUint32_OkD ReadFull_OkD split: read.splits if_splits)

function decodeSnapshot :: "bytes \<Rightarrow> snap_error + memEntry list" where
  "decodeSnapshot data =
     (case read_pair data of
        SnapEnd \<Rightarrow> Inr []
      | SnapBad err \<Rightarrow> Inl err
      | SnapRec e rest \<Rightarrow>
          (case decodeSnapshot rest of Inl err \<Rightarrow> Inl err | Inr es \<Rightarrow> Inr (e # es)))"
  by pat_completeness auto
termination
  by (relation "measure length") (auto dest: read_pair_shorter)

declare decodeSnapshot.simps [simp del]

definition as_put :: "memEntry \<Rightarrow> memEntry" where
  "as_put e = \<lparr>me_key = me_key e, me_value = me_value e, me_kind = kindPut, me_seq = 0\<rparr>"

lemma read_encode_pair [codec_simps]:
  assumes "entry_fits e"
  shows "read_pair (encode_pair e @ rest) = SnapRec (as_put e) rest"
  using assms unfolding entry_fits_def
  by (cases "me_value e = []")
     (simp_all add: read_pair_def encode_pair_def as_put_def zero_less_uint32_len)

lemma decode_encode:
  "list_all entry_fits es \<Longrightarrow> decodeSnapshot (encodeSnapshot es) = Inr (map as_put es)"
proof (induction es)
  case Nil
  show ?case by (subst decodeSnapshot.simps) (simp add: encodeSnapshot_def read_pair_def)
next
  case (Cons e es)
  then have "read_pair (encodeSnapshot (e # es)) = SnapRec (as_put e) (encodeSnapshot es)"
    by (simp add: encodeSnapshot_def read_encode_pair)
  with Cons show ?case by (subst decodeSnapshot.simps) simp
qed

section \<open>Capture and restore\<close>

definition Engine_Snapshot :: "Engine \<Rightarrow> sst_error + bytes" where
  "Engine_Snapshot e =
     (case compaction_read (en_dir e) (rev (en_sstables e)) of
        Inl err \<Rightarrow> Inl err
      | Inr inputs \<Rightarrow>
          Inr (encodeSnapshot (MergeEntries
            (inputs @ (case en_immutable e of None \<Rightarrow> [] | Some imm \<Rightarrow> [Memtable_Snapshot imm])
             @ [Memtable_Snapshot (en_active e)]))))"

definition Engine_LoadSnapshot :: "disk \<Rightarrow> bytes \<Rightarrow> Engine \<Rightarrow> snap_error + Engine" where
  "Engine_LoadSnapshot dk data e =
     (case decodeSnapshot data of
        Inl err \<Rightarrow> Inl err
      | Inr entries \<Rightarrow>
          (let fresh = fold (\<lambda>x m. Memtable_Put (me_key x) (me_value x) m) entries NewMemtable;
               e1 = e\<lparr>en_sstables := [], en_active := fresh, en_immutable := None\<rparr>;
               e2 = e1\<lparr>en_dir := fold dir_remove (map r_path (en_sstables e)) (en_dir e1)\<rparr>;
               e3 = (if Memtable_Size (en_active e2) > 0
                     then e2\<lparr>en_immutable := Some (en_active e2), en_active := NewMemtable\<rparr> else e2)
           in Inr (doFlush dk e3)))"

lemma Engine_Snapshot_wf:
  assumes "en_wf e"
  shows "Engine_Snapshot e = Inr (encodeSnapshot (MergeEntries (table_layers e @ mem_layers e)))"
proof -
  have "list_all (table_ok (en_dir e)) (rev (en_sstables e))" using assms by (simp add: en_wf_def)
  from compaction_read_ok[OF this] show ?thesis
    by (simp add: Engine_Snapshot_def table_layers_def mem_layers_def Memtable_Snapshot_def
        split: option.splits)
qed

lemma layers_sorted:
  assumes "en_wf e"
  shows "list_all keys_sorted (table_layers e @ mem_layers e)"
  using assms table_layers_sorted[OF assms]
  by (auto simp: mem_layers_def en_wf_def mt_wf_def split: option.splits)

lemma restored_buffer:
  "mt_wf m \<Longrightarrow> keys_sorted es \<Longrightarrow>
   (let m' = fold (\<lambda>x m. Memtable_Put (me_key x) (me_value x) m) es m
    in mt_wf m' \<and> live_value (mt_lookup m' k) =
         (case lookup_entry es k of Some x \<Rightarrow> Some (me_value x) | None \<Rightarrow> live_value (mt_lookup m k)))"
proof (induction es arbitrary: m)
  case (Cons x es)
  note ih = Cons.IH[of "Memtable_Put (me_key x) (me_value x) m"]
  have "me_key x = k \<Longrightarrow> lookup_entry es k = None"
    using Cons.prems(2) by (auto simp: lookup_entry_None)
  then show ?case
    using ih Cons.prems by (auto simp: Let_def mt_lookup_Put split: option.splits)
qed simp

lemma restored_entries:
  "mt_wf m \<Longrightarrow> e \<in> set (mt_entries (fold (\<lambda>x m. Memtable_Put (me_key x) (me_value x) m) es m)) \<Longrightarrow>
   e \<in> set (mt_entries m) \<or> (\<exists>x \<in> set es. me_key e = me_key x \<and> me_value e = me_value x)"
proof (induction es arbitrary: m)
  case (Cons x es)
  let ?m1 = "m\<lparr>mt_seq := mt_seq m + 1\<rparr>"
  have "set (mt_entries (Memtable_Put (me_key x) (me_value x) m)) \<subseteq>
      insert \<lparr>me_key = me_key x, me_value = me_value x, me_kind = kindPut, me_seq = mt_seq m + 1\<rparr>
        (set (mt_entries m))"
    using set_insert_subset[of ?m1] Cons.prems(1) by (simp add: Memtable_Put_def Let_def mt_wf_def)
  then show ?case
    using Cons.IH[of "Memtable_Put (me_key x) (me_value x) m"] Cons.prems by fastforce
qed simp

lemma data_block_length_le_size:
  "mt_wf m \<Longrightarrow> length (data_block (mt_entries m)) \<le> mt_size m"
proof -
  have "length (data_block es) \<le> (\<Sum>e \<leftarrow> es. length (me_key e) + length (me_value e) + 16)" for es
    by (induction es) (simp_all add: length_encode_entry)
  from this[of "mt_entries m"] show "mt_wf m \<Longrightarrow> length (data_block (mt_entries m)) \<le> mt_size m"
    unfolding mt_wf_def by linarith
qed

lemma restored_size:
  "mt_size (fold (\<lambda>x m. Memtable_Put (me_key x) (me_value x) m) es m)
     = mt_size m + (\<Sum>x \<leftarrow> es. length (me_key x) + length (me_value x) + 16)"
  by (induction es arbitrary: m) simp_all

text \<open>The contents a restored engine has: the live entries the snapshot was made from.\<close>

lemma LoadSnapshot_view:
  assumes wf: "en_wf e" and srt: "keys_sorted es" and fit: "list_all entry_fits es"
    and size: "(\<Sum>x \<leftarrow> es. length (me_key x) + length (me_value x) + 16) < 2 ^ 63"
    and seq: "Suc (en_sstableSeq e) < 10 ^ 16"
  shows "\<exists>e'. Engine_LoadSnapshot dk (encodeSnapshot es) e = Inr e' \<and> en_wf e'
    \<and> engine_view e' k = map_option me_value (lookup_entry es k)"
proof -
  define fresh where "fresh = fold (\<lambda>x m. Memtable_Put (me_key x) (me_value x) m) (map as_put es) NewMemtable"
  have putsrt: "keys_sorted (map as_put es)" using srt by (simp add: keys_sorted_def o_def as_put_def)
  have wff: "mt_wf fresh" and
    live: "live_value (mt_lookup fresh k) = map_option me_value (lookup_entry es k)" for k
  proof -
    have "lookup_entry (map as_put es) k = map_option as_put (lookup_entry es k)" for k
      by (induction es) (auto simp: as_put_def)
    then show "mt_wf fresh" "live_value (mt_lookup fresh k) = map_option me_value (lookup_entry es k)"
      using restored_buffer[OF mt_wf_New putsrt, of k]
      by (auto simp: fresh_def Let_def as_put_def split: option.splits)
  qed
  have "mt_size fresh < 2 ^ 63"
    using size by (simp add: fresh_def restored_size NewMemtable_def as_put_def o_def)
  moreover have "entry_fits x" if "x \<in> set (mt_entries fresh)" for x
    using restored_entries[OF mt_wf_New, of x "map as_put es"] that fit
    by (auto simp: fresh_def NewMemtable_def entry_fits_def list_all_iff as_put_def)
  ultimately have fits: "table_fits (mt_entries fresh)"
    using data_block_length_le_size[OF wff] by (auto simp: table_fits_def list_all_iff)
  define e2 where "e2 = e\<lparr>en_sstables := [], en_active := fresh, en_immutable := None,
      en_dir := fold dir_remove (map r_path (en_sstables e)) (en_dir e)\<rparr>"
  define e3 where "e3 = (if Memtable_Size fresh > 0
      then e2\<lparr>en_immutable := Some fresh, en_active := NewMemtable\<rparr> else e2)"
  have wf2: "en_wf e2" using wf wff by (simp add: e2_def en_wf_def dir_ok_removes)
  have "engine_view e2 k = map_option me_value (lookup_entry es k)" for k
    using live[of k] by (simp add: engine_view_def e2_def table_layers_def mem_layers_def)
  moreover have "en_wf e3 \<and> engine_view e3 = engine_view e2"
    using rotate_view[OF wf2] wf2 by (auto simp: e3_def) (simp_all add: e2_def)
  moreover have "en_wf (doFlush dk e3) \<and> engine_view (doFlush dk e3) = engine_view e3"
    using calculation(2) fits seq by (intro doFlush_keeps) (auto simp: e3_def e2_def split: if_splits)
  moreover have "Engine_LoadSnapshot dk (encodeSnapshot es) e = Inr (doFlush dk e3)"
    using fit by (simp add: Engine_LoadSnapshot_def decode_encode Let_def fresh_def[symmetric] e3_def e2_def)
  ultimately show ?thesis by simp
qed

section \<open>Properties\<close>

text \<open>
  The snapshot wire format round-trips: decoding the encoding of any entries whose lengths
  fit the 32-bit fields gives back their keys and values in order, all as live puts.
\<close>

lemma snapshot_roundtrip:
  assumes "list_all entry_fits es"
  shows "decodeSnapshot (encodeSnapshot es) = Inr (map as_put es)"
  using decode_encode[OF assms] .

lemma snapshot_roundtrip_witness:
  "decodeSnapshot (encodeSnapshot sample_entries) = Inr (map as_put sample_entries)"
  by (rule snapshot_roundtrip) (use sample_entries_ok in \<open>simp add: table_fits_def\<close>)

text \<open>
  C26: a snapshot carries an engine's contents: \<open>Snapshot\<close> of a well-formed engine succeeds, and
  loading it into any other well-formed engine replaces that engine's contents by the contents
  of the first, whatever the second held and whatever its disk does with the new table.
\<close>

theorem snapshot_transfers_contents:
  assumes "en_wf e" and "en_wf e2"
    and "list_all entry_fits (MergeEntries (table_layers e @ mem_layers e))"
    and "(\<Sum>x \<leftarrow> MergeEntries (table_layers e @ mem_layers e). length (me_key x) + length (me_value x) + 16) < 2 ^ 63"
    and "Suc (en_sstableSeq e2) < 10 ^ 16"
  shows "\<exists>data e2'. Engine_Snapshot e = Inr data \<and> Engine_LoadSnapshot dk data e2 = Inr e2' \<and> en_wf e2'
    \<and> engine_view e2' k = engine_view e k"
proof -
  let ?m = "MergeEntries (table_layers e @ mem_layers e)"
  note m = MergeEntries_spec[OF layers_sorted[OF assms(1)]]
  have "map_option me_value (lookup_entry ?m k) = engine_view e k"
    unfolding m(2) engine_view_def
    by (auto simp: drop_tombstone_def live_value_def split: option.splits)
  then show ?thesis
    using LoadSnapshot_view[OF assms(2) m(1) assms(3,4,5)] Engine_Snapshot_wf[OF assms(1)] by metis
qed

theorem snapshot_transfers_contents_witness:
  "\<exists>data e2'. Engine_Snapshot sample_engine = Inr data
    \<and> Engine_LoadSnapshot DiskOk data (sample_engine\<lparr>en_sstables := []\<rparr>) = Inr e2' \<and> en_wf e2'
    \<and> engine_view e2' ''a'' = engine_view sample_engine ''a''"
proof (rule snapshot_transfers_contents[OF sample_engine_ok(2)])
  have layers: "table_layers sample_engine @ mem_layers sample_engine = [map forget_seq sample_entries, []]"
    by (simp add: sample_layers mem_layers_def) (simp add: sample_engine_def NewMemtable_def)
  show "en_wf (sample_engine\<lparr>en_sstables := []\<rparr>)"
    using sample_engine_ok(2) by (simp add: en_wf_def sample_engine_def)
  show "list_all entry_fits (MergeEntries (table_layers sample_engine @ mem_layers sample_engine))"
    "(\<Sum>x \<leftarrow> MergeEntries (table_layers sample_engine @ mem_layers sample_engine).
       length (me_key x) + length (me_value x) + 16) < 2 ^ 63"
    unfolding layers sample_merge by (simp_all add: entry_fits_def sample_entries_def)
qed (simp add: sample_engine_def)

end
