(* ===== verification/KV_RaftNode.thy ===== *)
theory KV_RaftNode
  imports KV_Prelude "HOL-Library.AList"
begin

text \<open>
  The Raft node of \<open>raft/node.go\<close>. Every function that runs with the node's mutex held is one
  function on the node's state. A goroutine that gives the mutex up around an RPC is split at
  the RPC: \<open>replicate_begin\<close> and \<open>replicate_finish\<close> are the two locked halves of
  \<open>replicateToPeer\<close>, \<open>snapshot_begin\<close>, \<open>snapshot_load\<close>, \<open>snapshot_chunk\<close> and \<open>snapshot_reply\<close> the parts of
  \<open>sendSnapshotToPeer\<close>, \<open>vote_reply\<close> the second half of the goroutines of \<open>startElection\<close>.
  Goroutines a function starts are appended to the node's list of started goroutines, messages
  sent on \<open>ApplyCh\<close> to its list of sent messages. Terms and indices are \<open>uint64\<close> in the source
  and natural numbers here: the model covers runs in which no counter reaches \<open>2 ^ 64\<close>.
\<close>

section \<open>Data\<close>

datatype EntryType = ENTRY_NORMAL | ENTRY_CONFIG

record LogEntry =
  le_index :: nat
  le_term :: nat
  le_data :: bytes
  le_type :: EntryType

record RequestVoteRequest =
  rv_Term :: nat
  rv_CandidateId :: string
  rv_LastLogIndex :: nat
  rv_LastLogTerm :: nat

record RequestVoteResponse =
  rvr_Term :: nat
  rvr_VoteGranted :: bool

record AppendEntriesRequest =
  ae_Term :: nat
  ae_LeaderId :: string
  ae_PrevLogIndex :: nat
  ae_PrevLogTerm :: nat
  ae_Entries :: "LogEntry list"
  ae_LeaderCommit :: nat

record AppendEntriesResponse =
  aer_Term :: nat
  aer_Success :: bool
  aer_MatchIndex :: nat
  aer_ConflictTerm :: nat
  aer_ConflictIndex :: nat

record InstallSnapshotRequest =
  is_Term :: nat
  is_LeaderId :: string
  is_LastIncludedIndex :: nat
  is_LastIncludedTerm :: nat
  is_Offset :: nat
  is_Data :: bytes
  is_Done :: bool

record InstallSnapshotResponse =
  isr_Term :: nat
  isr_Success :: bool

datatype Role = RoleFollower | RoleCandidate | RoleLeader

datatype ApplyMsg =
    CommandMsg LogEntry
  | SnapshotMsg bytes nat nat \<comment> \<open>data, index, term\<close>

record snapshotRecvState =
  rs_lastIncludedIndex :: nat
  rs_lastIncludedTerm :: nat
  rs_data :: bytes

datatype goroutine = GoRequestVote string RequestVoteRequest | GoReplicate string

definition snapshotChunkSize :: nat where
  "snapshotChunkSize = 2 ^ 20"

text \<open>
  The \<open>PersistentState\<close> interface as a record of operations over a storage state. A writing
  operation returns whether it succeeded (\<open>err == nil\<close>) and the new state, a loading operation
  returns \<open>None\<close> for an error.
\<close>

record 's PersistentState =
  ps_SaveHardState :: "nat \<Rightarrow> string \<Rightarrow> 's \<Rightarrow> bool \<times> 's"
  ps_LoadHardState :: "'s \<Rightarrow> (nat \<times> string) option"
  ps_AppendEntries :: "LogEntry list \<Rightarrow> 's \<Rightarrow> bool \<times> 's"
  ps_LoadEntries :: "'s \<Rightarrow> LogEntry list option"
  ps_TruncateSuffix :: "nat \<Rightarrow> 's \<Rightarrow> bool \<times> 's"
  ps_SaveSnapshot :: "bytes \<Rightarrow> nat \<Rightarrow> nat \<Rightarrow> 's \<Rightarrow> bool \<times> 's"
  ps_LoadSnapshot :: "'s \<Rightarrow> (bytes \<times> nat \<times> nat) option"
  ps_LoadSnapshotMeta :: "'s \<Rightarrow> (nat \<times> nat) option"
  ps_TruncatePrefix :: "nat \<Rightarrow> 's \<Rightarrow> bool \<times> 's"

text \<open>
  The node. Go maps are association lists (\<open>map_get\<close> reads a missing key as zero). A timer is
  whether it is armed. \<open>votes\<close> holds, per term, the vote counter that the goroutines of that
  term's election share.
\<close>

record 's Node =
  nodeID :: string
  Peers :: "(string \<times> string) list"
  currentTerm :: nat
  votedFor :: string
  log :: "LogEntry list"
  lastIncludedIndex :: nat
  lastIncludedTerm :: nat
  role :: Role
  leaderID :: string
  commitIndex :: nat
  recvSnapshot :: "snapshotRecvState option"
  nextIndex :: "(string \<times> nat) list"
  matchIndex :: "(string \<times> nat) list"
  storage :: 's
  electionTimer :: bool
  heartbeatTimer :: bool
  ApplyCh :: "ApplyMsg list"
  goroutines :: "goroutine list"
  votes :: "nat \<Rightarrow> nat"
  stopped :: bool

definition map_get :: "(string \<times> nat) list \<Rightarrow> string \<Rightarrow> nat" where
  "map_get m k = (case map_of m k of None \<Rightarrow> 0 | Some v \<Rightarrow> v)"

definition sentinel :: "nat \<Rightarrow> nat \<Rightarrow> LogEntry" where
  "sentinel i t = \<lparr>le_index = i, le_term = t, le_data = [], le_type = ENTRY_NORMAL\<rparr>"

definition NewNode :: "string \<Rightarrow> (string \<times> string) list \<Rightarrow> 's \<Rightarrow> 's Node" where
  "NewNode i peers s =
     \<lparr>nodeID = i, Peers = peers, currentTerm = 0, votedFor = '''', log = [sentinel 0 0],
      lastIncludedIndex = 0, lastIncludedTerm = 0, role = RoleFollower, leaderID = '''',
      commitIndex = 0, recvSnapshot = None, nextIndex = [], matchIndex = [], storage = s,
      electionTimer = False, heartbeatTimer = False, ApplyCh = [], goroutines = [], votes = (\<lambda>_. 0),
      stopped = False\<rparr>"

section \<open>Helpers\<close>

definition logPos :: "nat \<Rightarrow> 's Node \<Rightarrow> nat option" where
  "logPos index n =
     (if index < lastIncludedIndex n then None
      else
        (let pos = index - lastIncludedIndex n
         in if pos \<ge> length (log n) then None else Some pos))"

definition lastLogIndex :: "'s Node \<Rightarrow> nat" where
  "lastLogIndex n = lastIncludedIndex n + (length (log n) - 1)"

definition lastLogTerm :: "'s Node \<Rightarrow> nat" where
  "lastLogTerm n =
     (if length (log n) = 0 then lastIncludedTerm n else le_term (log n ! (length (log n) - 1)))"

definition quorum :: "'s Node \<Rightarrow> nat" where
  "quorum n = (let total = 1 + length (Peers n) in total div 2 + 1)"

definition candidateLogUpToDate :: "nat \<Rightarrow> nat \<Rightarrow> 's Node \<Rightarrow> bool" where
  "candidateLogUpToDate candidateLastIdx candidateLastTerm n =
     (let myLastTerm = lastLogTerm n; myLastIdx = lastLogIndex n
      in if candidateLastTerm \<noteq> myLastTerm then candidateLastTerm > myLastTerm
         else candidateLastIdx \<ge> myLastIdx)"

definition resetElectionTimer :: "'s Node \<Rightarrow> 's Node" where
  "resetElectionTimer n = n\<lparr>electionTimer := True\<rparr>"

definition resetHeartbeatTimer :: "'s Node \<Rightarrow> 's Node" where
  "resetHeartbeatTimer n = n\<lparr>heartbeatTimer := True\<rparr>"

text \<open>Go logs an error of a storage write and goes on; the caller that looks at it is explicit.\<close>

definition store :: "('s \<Rightarrow> bool \<times> 's) \<Rightarrow> 's Node \<Rightarrow> 's Node" where
  "store f n = n\<lparr>storage := snd (f (storage n))\<rparr>"

definition store_ok :: "('s \<Rightarrow> bool \<times> 's) \<Rightarrow> 's Node \<Rightarrow> bool" where
  "store_ok f n = fst (f (storage n))"

section \<open>Committing\<close>

definition advanceCommitTo :: "nat \<Rightarrow> 's Node \<Rightarrow> 's Node" where
  "advanceCommitTo newCommit n =
     (let toNotify = List.map_filter (\<lambda>i. map_option (\<lambda>pos. log n ! pos) (logPos i n))
                       [commitIndex n + 1..<newCommit + 1]
      in n\<lparr>commitIndex := newCommit, ApplyCh := ApplyCh n @ map CommandMsg toNotify\<rparr>)"

definition replicated_count :: "nat \<Rightarrow> 's Node \<Rightarrow> nat" where
  "replicated_count idx n =
     1 + length (filter (\<lambda>(peerID, match). peerID \<noteq> nodeID n \<and> match \<ge> idx) (matchIndex n))"

primrec advance_loop :: "nat \<Rightarrow> 's Node \<Rightarrow> 's Node" where
  "advance_loop 0 n = n"
| "advance_loop (Suc i) n =
     (let idx = Suc i
      in if idx > commitIndex n then
           (case logPos idx n of
              None \<Rightarrow> advance_loop i n
            | Some pos \<Rightarrow>
                if le_term (log n ! pos) \<noteq> currentTerm n then advance_loop i n
                else if replicated_count idx n \<ge> quorum n then advanceCommitTo idx n
                else advance_loop i n)
         else n)"

definition maybeAdvanceCommit :: "'s Node \<Rightarrow> 's Node" where
  "maybeAdvanceCommit n = advance_loop (lastLogIndex n) n"

section \<open>Roles and elections\<close>

definition sendHeartbeats :: "'s Node \<Rightarrow> 's Node" where
  "sendHeartbeats n = n\<lparr>goroutines := goroutines n @ map (\<lambda>p. GoReplicate (fst p)) (Peers n)\<rparr>"

definition becomeLeader :: "'s Node \<Rightarrow> 's Node" where
  "becomeLeader n =
     (let nextIdx = lastLogIndex n + 1;
          n1 = n\<lparr>role := RoleLeader, leaderID := nodeID n,
                 nextIndex := fold (\<lambda>p m. AList.update (fst p) nextIdx m) (Peers n) (nextIndex n),
                 matchIndex := fold (\<lambda>p m. AList.update (fst p) 0 m) (Peers n) (matchIndex n)\<rparr>;
          n2 = resetHeartbeatTimer (sendHeartbeats n1)
      in n2\<lparr>electionTimer := False\<rparr>)"

definition becomeFollower :: "'s PersistentState \<Rightarrow> nat \<Rightarrow> 's Node \<Rightarrow> 's Node" where
  "becomeFollower ps term n =
     (let n1 = n\<lparr>role := RoleFollower, leaderID := ''''\<rparr>;
          n2 = (if term > currentTerm n1
                then store (ps_SaveHardState ps term '''') (n1\<lparr>currentTerm := term, votedFor := ''''\<rparr>)
                else n1)
      in resetElectionTimer n2)"

definition startElection :: "'s PersistentState \<Rightarrow> 's Node \<Rightarrow> 's Node" where
  "startElection ps n =
     (let n1 = n\<lparr>currentTerm := currentTerm n + 1, role := RoleCandidate, votedFor := nodeID n\<rparr>;
          n2 = resetElectionTimer (store (ps_SaveHardState ps (currentTerm n1) (votedFor n1)) n1);
          term = currentTerm n2;
          n3 = n2\<lparr>votes := (votes n2)(term := 1)\<rparr>
      in if 1 \<ge> quorum n3 then becomeLeader n3
         else n3\<lparr>goroutines := goroutines n3
                @ map (\<lambda>p. GoRequestVote (fst p)
                    \<lparr>rv_Term = term, rv_CandidateId = nodeID n3,
                     rv_LastLogIndex = lastLogIndex n3, rv_LastLogTerm = lastLogTerm n3\<rparr>) (Peers n3)\<rparr>)"

definition vote_reply :: "'s PersistentState \<Rightarrow> nat \<Rightarrow> RequestVoteResponse \<Rightarrow> 's Node \<Rightarrow> 's Node" where
  "vote_reply ps term resp n =
     (if rvr_Term resp > currentTerm n then becomeFollower ps (rvr_Term resp) n
      else if rvr_VoteGranted resp \<and> role n = RoleCandidate \<and> currentTerm n = term then
        (let v = votes n term + 1;
             n1 = n\<lparr>votes := (votes n)(term := v)\<rparr>
         in if v \<ge> quorum n1 then becomeLeader n1 else n1)
      else n)"

text \<open>The two timer cases of the event loop \<open>run\<close>; a timer that fired is no longer armed.\<close>

definition run_election_tick :: "'s PersistentState \<Rightarrow> 's Node \<Rightarrow> 's Node" where
  "run_election_tick ps n =
     (let n1 = n\<lparr>electionTimer := False\<rparr>
      in if role n1 \<noteq> RoleLeader then startElection ps n1 else n1)"

definition run_heartbeat_tick :: "'s Node \<Rightarrow> 's Node" where
  "run_heartbeat_tick n =
     (let n1 = n\<lparr>heartbeatTimer := False\<rparr>
      in if role n1 = RoleLeader then resetHeartbeatTimer (sendHeartbeats n1) else n1)"

text \<open>
  The event loop: an event is ready when its channel can be received from (the channel of a timer
  that was never made is \<open>nil\<close> and never ready), and one turn handles one ready event; \<open>None\<close>
  when the loop returns.
\<close>

datatype run_event = RunStop | RunElection | RunHeartbeat

definition run_ready :: "'s Node \<Rightarrow> run_event list" where
  "run_ready n =
     (if stopped n then [RunStop] else []) @ (if electionTimer n then [RunElection] else [])
     @ (if heartbeatTimer n then [RunHeartbeat] else [])"

definition run_turn :: "'s PersistentState \<Rightarrow> run_event \<Rightarrow> 's Node \<Rightarrow> 's Node option" where
  "run_turn ps ev n =
     (case ev of
        RunStop \<Rightarrow> None
      | RunElection \<Rightarrow> Some (run_election_tick ps n)
      | RunHeartbeat \<Rightarrow> Some (run_heartbeat_tick n))"

definition node_Stop :: "'s Node \<Rightarrow> 's Node" where
  "node_Stop n =
     (if stopped n then n else n\<lparr>stopped := True, electionTimer := False, heartbeatTimer := False\<rparr>)"

section \<open>RPC handlers\<close>

definition HandleRequestVote ::
  "'s PersistentState \<Rightarrow> RequestVoteRequest \<Rightarrow> 's Node \<Rightarrow> RequestVoteResponse \<times> 's Node" where
  "HandleRequestVote ps req n =
     (if rv_Term req < currentTerm n then (\<lparr>rvr_Term = currentTerm n, rvr_VoteGranted = False\<rparr>, n)
      else
        (let n1 = (if rv_Term req > currentTerm n then becomeFollower ps (rv_Term req) n else n);
             refuse = \<lparr>rvr_Term = currentTerm n1, rvr_VoteGranted = False\<rparr>;
             alreadyVoted = (votedFor n1 \<noteq> '''' \<and> votedFor n1 \<noteq> rv_CandidateId req)
         in if alreadyVoted then (refuse, n1)
            else if \<not> candidateLogUpToDate (rv_LastLogIndex req) (rv_LastLogTerm req) n1 then (refuse, n1)
            else
              (let n2 = n1\<lparr>votedFor := rv_CandidateId req\<rparr>;
                   n3 = store (ps_SaveHardState ps (currentTerm n2) (votedFor n2)) n2
               in (\<lparr>rvr_Term = currentTerm n1, rvr_VoteGranted = True\<rparr>, resetElectionTimer n3))))"

text \<open>The loop that walks back to the first index of the conflicting term.\<close>

function conflict_loop :: "nat \<Rightarrow> nat \<Rightarrow> 's Node \<Rightarrow> nat" where
  "conflict_loop conflictTerm ci n =
     (if ci > lastIncludedIndex n + 1 then
        (case logPos (ci - 1) n of
           None \<Rightarrow> ci
         | Some p \<Rightarrow>
             if le_term (log n ! p) \<noteq> conflictTerm then ci else conflict_loop conflictTerm (ci - 1) n)
      else ci)"
  by pat_completeness auto
termination
  by (relation "measure (\<lambda>(t, ci, n). ci)") auto

declare conflict_loop.simps [simp del]

text \<open>The loop over the entries of the request, with \<open>idx\<close> the index of the first of them.\<close>

fun append_loop :: "'s PersistentState \<Rightarrow> nat \<Rightarrow> LogEntry list \<Rightarrow> 's Node \<Rightarrow> 's Node" where
  "append_loop ps idx [] n = n"
| "append_loop ps idx (entry # es) n =
     (if idx \<le> lastIncludedIndex n then append_loop ps (idx + 1) es n
      else
        (case logPos idx n of
           Some pos \<Rightarrow>
             if le_term (log n ! pos) \<noteq> le_term entry then
               (let n1 = store (ps_TruncateSuffix ps (idx - 1)) (n\<lparr>log := take pos (log n)\<rparr>)
                in append_loop ps (idx + 1) es (n1\<lparr>log := log n1 @ [entry]\<rparr>))
             else append_loop ps (idx + 1) es n
         | None \<Rightarrow> append_loop ps (idx + 1) es (n\<lparr>log := log n @ [entry]\<rparr>)))"

text \<open>The consistency check: \<open>Some\<close> of the conflict term and index when it fails.\<close>

definition check_prev :: "AppendEntriesRequest \<Rightarrow> 's Node \<Rightarrow> (nat \<times> nat) option" where
  "check_prev req n =
     (if ae_PrevLogIndex req > 0 then
        if ae_PrevLogIndex req > lastLogIndex n then Some (0, lastLogIndex n + 1)
        else
          (case logPos (ae_PrevLogIndex req) n of
             None \<Rightarrow> None
           | Some pos \<Rightarrow>
               if le_term (log n ! pos) \<noteq> ae_PrevLogTerm req
               then Some (le_term (log n ! pos), conflict_loop (le_term (log n ! pos)) (ae_PrevLogIndex req) n)
               else None)
      else None)"

definition accept_entries :: "'s PersistentState \<Rightarrow> AppendEntriesRequest \<Rightarrow> 's Node \<Rightarrow> 's Node" where
  "accept_entries ps req n =
     (let n1 = append_loop ps (ae_PrevLogIndex req + 1) (ae_Entries req) n;
          n2 = (if length (ae_Entries req) > 0 then store (ps_AppendEntries ps (ae_Entries req)) n1 else n1)
      in if ae_LeaderCommit req > commitIndex n2
         then advanceCommitTo (min (ae_LeaderCommit req) (lastLogIndex n2)) n2
         else n2)"

text \<open>A valid leader's message: adopt its term or step back to follower, and note the leader.\<close>

definition follow_leader :: "'s PersistentState \<Rightarrow> nat \<Rightarrow> string \<Rightarrow> 's Node \<Rightarrow> 's Node" where
  "follow_leader ps term leader n =
     (let n1 = (if term > currentTerm n then becomeFollower ps term n
                else resetElectionTimer (n\<lparr>role := RoleFollower\<rparr>))
      in n1\<lparr>leaderID := leader\<rparr>)"

definition HandleAppendEntries ::
  "'s PersistentState \<Rightarrow> AppendEntriesRequest \<Rightarrow> 's Node \<Rightarrow> AppendEntriesResponse \<times> 's Node" where
  "HandleAppendEntries ps req n =
     (if ae_Term req < currentTerm n
      then (\<lparr>aer_Term = currentTerm n, aer_Success = False, aer_MatchIndex = 0,
             aer_ConflictTerm = 0, aer_ConflictIndex = 0\<rparr>, n)
      else
        (let n1 = follow_leader ps (ae_Term req) (ae_LeaderId req) n
         in case check_prev req n1 of
              Some (ct, ci) \<Rightarrow>
                (\<lparr>aer_Term = currentTerm n1, aer_Success = False, aer_MatchIndex = 0,
                  aer_ConflictTerm = ct, aer_ConflictIndex = ci\<rparr>, n1)
            | None \<Rightarrow>
                (let n2 = accept_entries ps req n1
                 in (\<lparr>aer_Term = currentTerm n1, aer_Success = True, aer_MatchIndex = lastLogIndex n2,
                      aer_ConflictTerm = 0, aer_ConflictIndex = 0\<rparr>, n2))))"

definition install_snapshot :: "'s PersistentState \<Rightarrow> snapshotRecvState \<Rightarrow> 's Node \<Rightarrow> bool \<times> 's Node" where
  "install_snapshot ps rs n =
     (let n1 = n\<lparr>recvSnapshot := None\<rparr>;
          save = ps_SaveSnapshot ps (rs_data rs) (rs_lastIncludedIndex rs) (rs_lastIncludedTerm rs);
          n2 = store save n1
      in if \<not> store_ok save n1 then (False, n2)
         else
           (let n3 = store (ps_TruncatePrefix ps (rs_lastIncludedIndex rs)) n2;
                n4 = n3\<lparr>log := [sentinel (rs_lastIncludedIndex rs) (rs_lastIncludedTerm rs)],
                        lastIncludedIndex := rs_lastIncludedIndex rs,
                        lastIncludedTerm := rs_lastIncludedTerm rs\<rparr>;
                n5 = (if rs_lastIncludedIndex rs > commitIndex n4
                      then n4\<lparr>commitIndex := rs_lastIncludedIndex rs\<rparr> else n4)
            in (True, n5\<lparr>ApplyCh := ApplyCh n5
                 @ [SnapshotMsg (rs_data rs) (rs_lastIncludedIndex rs) (rs_lastIncludedTerm rs)]\<rparr>)))"

definition HandleInstallSnapshot ::
  "'s PersistentState \<Rightarrow> InstallSnapshotRequest \<Rightarrow> 's Node \<Rightarrow> InstallSnapshotResponse \<times> 's Node" where
  "HandleInstallSnapshot ps req n =
     (if is_Term req < currentTerm n then (\<lparr>isr_Term = currentTerm n, isr_Success = False\<rparr>, n)
      else
        (let n1 = follow_leader ps (is_Term req) (is_LeaderId req) n;
             resp = (\<lambda>b. \<lparr>isr_Term = currentTerm n1, isr_Success = b\<rparr>)
         in if is_LastIncludedIndex req \<le> lastIncludedIndex n1 then (resp True, n1)
            else
              (let n2 = (if is_Offset req = 0
                         then n1\<lparr>recvSnapshot := Some \<lparr>rs_lastIncludedIndex = is_LastIncludedIndex req,
                                rs_lastIncludedTerm = is_LastIncludedTerm req, rs_data = []\<rparr>\<rparr>
                         else n1)
               in case recvSnapshot n2 of
                    None \<Rightarrow> (resp False, n2)
                  | Some rs \<Rightarrow>
                      if rs_lastIncludedIndex rs \<noteq> is_LastIncludedIndex req
                         \<or> length (rs_data rs) \<noteq> is_Offset req
                      then (resp False, n2)
                      else
                        (let rs' = rs\<lparr>rs_data := rs_data rs @ is_Data req\<rparr>;
                             n3 = n2\<lparr>recvSnapshot := Some rs'\<rparr>
                         in if \<not> is_Done req then (resp True, n3)
                            else (let (ok, n4) = install_snapshot ps rs' n3 in (resp ok, n4))))))"

section \<open>Client and application calls\<close>

definition Propose :: "'s PersistentState \<Rightarrow> bytes \<Rightarrow> 's Node \<Rightarrow> (nat \<times> nat \<times> bool) \<times> 's Node" where
  "Propose ps data n =
     (if role n \<noteq> RoleLeader then ((0, 0, False), n)
      else
        (let entry = \<lparr>le_index = lastLogIndex n + 1, le_term = currentTerm n, le_data = data,
                      le_type = ENTRY_NORMAL\<rparr>;
             n1 = store (ps_AppendEntries ps [entry]) (n\<lparr>log := log n @ [entry]\<rparr>);
             n2 = n1\<lparr>goroutines := goroutines n1 @ map (\<lambda>p. GoReplicate (fst p)) (Peers n1)\<rparr>
         in ((le_index entry, le_term entry, True), maybeAdvanceCommit n2)))"

datatype compact_error = CompactPastCommit | CompactSave | CompactTruncate

definition CompactLog ::
  "'s PersistentState \<Rightarrow> bytes \<Rightarrow> nat \<Rightarrow> nat \<Rightarrow> 's Node \<Rightarrow> compact_error option \<times> 's Node" where
  "CompactLog ps data idx term n =
     (if idx \<le> lastIncludedIndex n then (None, n)
      else if idx > commitIndex n then (Some CompactPastCommit, n)
      else
        (let save = ps_SaveSnapshot ps data idx term;
             n1 = store save n;
             trunc = ps_TruncatePrefix ps idx;
             n2 = store trunc n1
         in if \<not> store_ok save n then (Some CompactSave, n1)
            else if \<not> store_ok trunc n1 then (Some CompactTruncate, n2)
            else
              (let newLog = (case logPos idx n2 of
                               Some pos \<Rightarrow> drop pos (log n2)
                             | None \<Rightarrow> [sentinel idx term])
               in (None, n2\<lparr>log := newLog, lastIncludedIndex := idx, lastIncludedTerm := term\<rparr>))))"

definition LeaderID :: "'s Node \<Rightarrow> string" where
  "LeaderID n = leaderID n"

definition IsLeader :: "'s Node \<Rightarrow> bool" where
  "IsLeader n \<longleftrightarrow> role n = RoleLeader"

definition GetState :: "'s Node \<Rightarrow> nat \<times> bool" where
  "GetState n = (currentTerm n, role n = RoleLeader)"

definition SnapshotIndex :: "'s Node \<Rightarrow> nat" where
  "SnapshotIndex n = lastIncludedIndex n"

definition LastLogIndex :: "'s Node \<Rightarrow> nat" where
  "LastLogIndex n = lastLogIndex n"

definition MatchIndexes :: "'s Node \<Rightarrow> (string \<times> nat) list" where
  "MatchIndexes n = (if role n \<noteq> RoleLeader then [] else matchIndex n)"

section \<open>Replication\<close>

datatype replicate_action = ReplicateStop | ReplicateSnapshot | ReplicateAppend AppendEntriesRequest

definition replicate_begin :: "string \<Rightarrow> 's Node \<Rightarrow> replicate_action" where
  "replicate_begin peer n =
     (if role n \<noteq> RoleLeader then ReplicateStop
      else
        (let nextIdx = map_get (nextIndex n) peer
         in if nextIdx \<le> lastIncludedIndex n then ReplicateSnapshot
            else
              (let prevLogIndex = nextIdx - 1;
                   entries = (if nextIdx \<le> lastLogIndex n
                              then (case logPos nextIdx n of None \<Rightarrow> [] | Some pos \<Rightarrow> drop pos (log n))
                              else []);
                   prevLogTerm = (if prevLogIndex > 0
                                  then (case logPos prevLogIndex n of
                                          None \<Rightarrow> 0 | Some pos \<Rightarrow> le_term (log n ! pos))
                                  else 0)
               in ReplicateAppend \<lparr>ae_Term = currentTerm n, ae_LeaderId = nodeID n,
                    ae_PrevLogIndex = prevLogIndex, ae_PrevLogTerm = prevLogTerm,
                    ae_Entries = entries, ae_LeaderCommit = commitIndex n\<rparr>)))"

primrec conflict_search :: "nat \<Rightarrow> nat \<Rightarrow> nat \<Rightarrow> 's Node \<Rightarrow> nat" where
  "conflict_search 0 conflictTerm newNext n = newNext"
| "conflict_search (Suc i) conflictTerm newNext n =
     (if Suc i > lastIncludedIndex n then
        (case logPos (Suc i) n of
           Some pos \<Rightarrow> if le_term (log n ! pos) = conflictTerm then Suc i + 1
                       else conflict_search i conflictTerm newNext n
         | None \<Rightarrow> conflict_search i conflictTerm newNext n)
      else newNext)"

definition replicate_finish ::
  "'s PersistentState \<Rightarrow> string \<Rightarrow> AppendEntriesRequest \<Rightarrow> AppendEntriesResponse \<Rightarrow> 's Node \<Rightarrow> 's Node" where
  "replicate_finish ps peer req resp n =
     (if aer_Term resp > currentTerm n then becomeFollower ps (aer_Term resp) n
      else if role n \<noteq> RoleLeader \<or> currentTerm n \<noteq> ae_Term req then n
      else if aer_Success resp then
        (let newMatch = ae_PrevLogIndex req + length (ae_Entries req);
             n1 = (if newMatch > map_get (matchIndex n) peer
                   then n\<lparr>matchIndex := AList.update peer newMatch (matchIndex n),
                          nextIndex := AList.update peer (newMatch + 1) (nextIndex n)\<rparr>
                   else n)
         in maybeAdvanceCommit n1)
      else
        (let newNext = (if aer_ConflictTerm resp > 0
                        then conflict_search (lastLogIndex n) (aer_ConflictTerm resp) (aer_ConflictIndex resp) n
                        else aer_ConflictIndex resp);
             clamped = (if newNext < lastIncludedIndex n + 1 then lastIncludedIndex n + 1 else newNext)
         in n\<lparr>nextIndex := AList.update peer clamped (nextIndex n),
              goroutines := goroutines n @ [GoReplicate peer]\<rparr>))"

text \<open>
  A snapshot transfer in progress: what \<open>sendSnapshotToPeer\<close> holds in its local variables. The
  term and the snapshot's position are read with the mutex held (\<open>snapshot_begin\<close>), the data
  afterwards without it (\<open>snapshot_load\<close>), so the storage may have moved on in between.
\<close>

record transfer =
  tr_term :: nat
  tr_lastIncludedIndex :: nat
  tr_lastIncludedTerm :: nat
  tr_data :: bytes

definition snapshot_begin :: "'s Node \<Rightarrow> (nat \<times> nat \<times> nat) option" where
  "snapshot_begin n =
     (if role n \<noteq> RoleLeader then None
      else Some (currentTerm n, lastIncludedIndex n, lastIncludedTerm n))"

definition snapshot_load :: "'s PersistentState \<Rightarrow> nat \<times> nat \<times> nat \<Rightarrow> 's \<Rightarrow> transfer option" where
  "snapshot_load ps hdr s =
     (case hdr of
        (term, idx, lterm) \<Rightarrow>
          (case ps_LoadSnapshot ps s of
             None \<Rightarrow> None
           | Some (data, savedIndex, _) \<Rightarrow>
               if savedIndex \<noteq> idx then None
               else Some \<lparr>tr_term = term, tr_lastIncludedIndex = idx, tr_lastIncludedTerm = lterm,
                          tr_data = data\<rparr>))"

definition snapshot_chunk :: "string \<Rightarrow> transfer \<Rightarrow> nat \<Rightarrow> InstallSnapshotRequest" where
  "snapshot_chunk leader tr offset =
     (let end = min (offset + snapshotChunkSize) (length (tr_data tr))
      in \<lparr>is_Term = tr_term tr, is_LeaderId = leader,
          is_LastIncludedIndex = tr_lastIncludedIndex tr, is_LastIncludedTerm = tr_lastIncludedTerm tr,
          is_Offset = offset, is_Data = take (end - offset) (drop offset (tr_data tr)),
          is_Done = (end \<ge> length (tr_data tr))\<rparr>)"

text \<open>After a chunk's reply: the node, and whether the loop goes on with the next chunk.\<close>

definition snapshot_reply ::
  "'s PersistentState \<Rightarrow> string \<Rightarrow> transfer \<Rightarrow> bool \<Rightarrow> InstallSnapshotResponse \<Rightarrow> 's Node \<Rightarrow> bool \<times> 's Node" where
  "snapshot_reply ps peer tr done resp n =
     (if isr_Term resp > currentTerm n then (False, becomeFollower ps (isr_Term resp) n)
      else if role n \<noteq> RoleLeader \<or> currentTerm n \<noteq> tr_term tr then (False, n)
      else if \<not> isr_Success resp then (False, n)
      else if done then
        (False,
         if tr_lastIncludedIndex tr > map_get (matchIndex n) peer
         then n\<lparr>matchIndex := AList.update peer (tr_lastIncludedIndex tr) (matchIndex n),
                nextIndex := AList.update peer (tr_lastIncludedIndex tr + 1) (nextIndex n)\<rparr>
         else n)
      else (True, n))"

section \<open>Start\<close>

text \<open>
  \<open>Start\<close> on a node fresh from \<open>NewNode\<close>: the restart of a process is \<open>NewNode\<close> on the
  storage the old one left, followed by \<open>Start\<close>. The result is \<open>None\<close> when a load fails.
\<close>

definition Start :: "'s PersistentState \<Rightarrow> 's Node \<Rightarrow> 's Node option" where
  "Start ps n =
     (case ps_LoadSnapshotMeta ps (storage n) of
        None \<Rightarrow> None
      | Some (idx, term) \<Rightarrow>
          (let n1 = (if idx > 0
                     then n\<lparr>lastIncludedIndex := idx, lastIncludedTerm := term,
                            log := [sentinel idx term], commitIndex := idx\<rparr>
                     else n)
           in case ps_LoadHardState ps (storage n1) of
                None \<Rightarrow> None
              | Some (t, v) \<Rightarrow>
                  (let n2 = n1\<lparr>currentTerm := t, votedFor := v\<rparr>
                   in case ps_LoadEntries ps (storage n2) of
                        None \<Rightarrow> None
                      | Some entries \<Rightarrow> Some (resetElectionTimer (n2\<lparr>log := log n2 @ entries\<rparr>)))))"

definition restart :: "'s PersistentState \<Rightarrow> 's Node \<Rightarrow> 's Node option" where
  "restart ps n = Start ps (NewNode (nodeID n) (Peers n) (storage n))"

end
