(* ===== verification/KV_RaftStore.thy ===== *)
theory KV_RaftStore
  imports KV_RaftNode
begin

text \<open>
  Durable state of a node: the in-memory implementation of \<open>raft/memstate.go\<close>, and what a node
  relies on for its votes, as the locale \<open>hard_storage\<close>: a saved term and vote is what is loaded
  later, and no other operation touches it. The lemmas of the locale show that every handler
  keeps the stored term and vote equal to the ones in memory and never takes a vote back.
\<close>

section \<open>The in-memory state\<close>

record memState =
  ms_term :: nat
  ms_voted :: string
  ms_entries :: "LogEntry list"
  ms_snapshot :: bytes
  ms_lastIncludedIndex :: nat
  ms_lastIncludedTerm :: nat

definition newMemState :: memState where
  "newMemState = \<lparr>ms_term = 0, ms_voted = '''', ms_entries = [], ms_snapshot = [],
     ms_lastIncludedIndex = 0, ms_lastIncludedTerm = 0\<rparr>"

definition memState_SaveHardState :: "nat \<Rightarrow> string \<Rightarrow> memState \<Rightarrow> bool \<times> memState" where
  "memState_SaveHardState term v m = (True, m\<lparr>ms_term := term, ms_voted := v\<rparr>)"

definition memState_LoadHardState :: "memState \<Rightarrow> (nat \<times> string) option" where
  "memState_LoadHardState m = Some (ms_term m, ms_voted m)"

definition memState_AppendEntries :: "LogEntry list \<Rightarrow> memState \<Rightarrow> bool \<times> memState" where
  "memState_AppendEntries es m = (True, m\<lparr>ms_entries := ms_entries m @ es\<rparr>)"

definition memState_LoadEntries :: "memState \<Rightarrow> LogEntry list option" where
  "memState_LoadEntries m = Some (ms_entries m)"

definition memState_TruncateSuffix :: "nat \<Rightarrow> memState \<Rightarrow> bool \<times> memState" where
  "memState_TruncateSuffix keepIndex m =
     (True, m\<lparr>ms_entries := filter (\<lambda>e. le_index e \<le> keepIndex) (ms_entries m)\<rparr>)"

definition memState_SaveSnapshot :: "bytes \<Rightarrow> nat \<Rightarrow> nat \<Rightarrow> memState \<Rightarrow> bool \<times> memState" where
  "memState_SaveSnapshot data idx term m =
     (True, m\<lparr>ms_snapshot := data, ms_lastIncludedIndex := idx, ms_lastIncludedTerm := term\<rparr>)"

definition memState_LoadSnapshot :: "memState \<Rightarrow> (bytes \<times> nat \<times> nat) option" where
  "memState_LoadSnapshot m = Some (ms_snapshot m, ms_lastIncludedIndex m, ms_lastIncludedTerm m)"

definition memState_LoadSnapshotMeta :: "memState \<Rightarrow> (nat \<times> nat) option" where
  "memState_LoadSnapshotMeta m = Some (ms_lastIncludedIndex m, ms_lastIncludedTerm m)"

definition memState_TruncatePrefix :: "nat \<Rightarrow> memState \<Rightarrow> bool \<times> memState" where
  "memState_TruncatePrefix discardIndex m =
     (True, m\<lparr>ms_entries := filter (\<lambda>e. le_index e > discardIndex) (ms_entries m)\<rparr>)"

definition memState_ops :: "memState PersistentState" where
  "memState_ops =
     \<lparr>ps_SaveHardState = memState_SaveHardState, ps_LoadHardState = memState_LoadHardState,
      ps_AppendEntries = memState_AppendEntries, ps_LoadEntries = memState_LoadEntries,
      ps_TruncateSuffix = memState_TruncateSuffix, ps_SaveSnapshot = memState_SaveSnapshot,
      ps_LoadSnapshot = memState_LoadSnapshot, ps_LoadSnapshotMeta = memState_LoadSnapshotMeta,
      ps_TruncatePrefix = memState_TruncatePrefix\<rparr>"

lemmas memState_defs =
  memState_ops_def memState_SaveHardState_def memState_LoadHardState_def memState_AppendEntries_def
  memState_LoadEntries_def memState_TruncateSuffix_def memState_SaveSnapshot_def
  memState_LoadSnapshot_def memState_LoadSnapshotMeta_def memState_TruncatePrefix_def

section \<open>Vote discipline\<close>

text \<open>
  \<open>keeps_vote n n'\<close>: the node keeps its identity, its term never falls, and a vote cast in a
  term stays. \<open>calm n n'\<close>: moreover the node does not become candidate or leader, does not
  count votes and starts no vote request.
\<close>

definition keeps_vote :: "'s Node \<Rightarrow> 's Node \<Rightarrow> bool" where
  "keeps_vote n n' \<longleftrightarrow> nodeID n' = nodeID n \<and> Peers n' = Peers n \<and> currentTerm n \<le> currentTerm n'
     \<and> (currentTerm n' = currentTerm n \<longrightarrow> votedFor n \<noteq> '''' \<longrightarrow> votedFor n' = votedFor n)"

definition vote_requests :: "'s Node \<Rightarrow> (string \<times> RequestVoteRequest) set" where
  "vote_requests n = {(p, r). GoRequestVote p r \<in> set (goroutines n)}"

definition calm :: "'s Node \<Rightarrow> 's Node \<Rightarrow> bool" where
  "calm n n' \<longleftrightarrow> keeps_vote n n' \<and> votes n' = votes n \<and> vote_requests n' = vote_requests n
     \<and> (role n' \<noteq> RoleFollower \<longrightarrow> role n' = role n \<and> currentTerm n' = currentTerm n)"

lemma keeps_vote_refl [simp]: "keeps_vote n n"
  by (simp add: keeps_vote_def)

lemma keeps_vote_trans: "keeps_vote a b \<Longrightarrow> keeps_vote b c \<Longrightarrow> keeps_vote a c"
  unfolding keeps_vote_def by (metis le_antisym le_trans)

lemma calm_refl [simp]: "calm n n"
  by (simp add: calm_def)

lemma calm_trans: "calm a b \<Longrightarrow> calm b c \<Longrightarrow> calm a c"
  unfolding calm_def using keeps_vote_trans by metis

text \<open>
  \<open>srel s h\<close> says that the storage state \<open>s\<close> holds the term and vote \<open>h\<close>. Loading may fail, but
  when it succeeds it returns what was saved, for every vote in \<open>okid\<close> (the names that survive
  the coding of the storage). \<open>reopen\<close> is what a new process finds of the storage a crashed one
  left, \<open>None\<close> when it does not open.
\<close>

locale hard_storage =
  fixes ps :: "'s PersistentState" and srel :: "'s \<Rightarrow> nat \<times> string \<Rightarrow> bool" and okid :: "string \<Rightarrow> bool"
    and reopen :: "'s \<Rightarrow> 's option"
  assumes save_hard: "srel s h \<Longrightarrow> srel (snd (ps_SaveHardState ps t v s)) (t, v)"
    and load_hard: "srel s h \<Longrightarrow> okid (snd h) \<Longrightarrow> ps_LoadHardState ps s = None \<or> ps_LoadHardState ps s = Some h"
    and append_hard: "srel s h \<Longrightarrow> srel (snd (ps_AppendEntries ps es s)) h"
    and suffix_hard: "srel s h \<Longrightarrow> srel (snd (ps_TruncateSuffix ps i s)) h"
    and snapshot_hard: "srel s h \<Longrightarrow> srel (snd (ps_SaveSnapshot ps d i t s)) h"
    and prefix_hard: "srel s h \<Longrightarrow> srel (snd (ps_TruncatePrefix ps i s)) h"
    and reopen_hard: "srel s h \<Longrightarrow> reopen s = Some s' \<Longrightarrow> srel s' h"
    and ok_empty: "okid ''''"
begin

definition coherent :: "'s Node \<Rightarrow> bool" where
  "coherent n \<longleftrightarrow> srel (storage n) (currentTerm n, votedFor n)"

definition safe_step :: "'s Node \<Rightarrow> 's Node \<Rightarrow> bool" where
  "safe_step n n' \<longleftrightarrow> calm n n' \<and> (coherent n \<longrightarrow> coherent n') \<and> (votedFor n' = votedFor n \<or> votedFor n' = '''')"

lemma safe_refl [simp]: "safe_step n n"
  by (simp add: safe_step_def)

lemma safe_trans: "safe_step a b \<Longrightarrow> safe_step b c \<Longrightarrow> safe_step a c"
  unfolding safe_step_def using calm_trans by metis

lemma safe_becomeFollower: "currentTerm n \<le> t \<Longrightarrow> safe_step n (becomeFollower ps t n)"
  using save_hard[of "storage n" _ t "''''"]
  by (auto simp: safe_step_def calm_def keeps_vote_def coherent_def becomeFollower_def vote_requests_def
      resetElectionTimer_def store_def Let_def)

lemma safe_follow_leader: "currentTerm n \<le> t \<Longrightarrow> safe_step n (follow_leader ps t l n)"
  using save_hard[of "storage n" _ t "''''"]
  by (auto simp: safe_step_def calm_def keeps_vote_def coherent_def follow_leader_def becomeFollower_def
      resetElectionTimer_def store_def vote_requests_def Let_def)

lemma safe_advanceCommitTo: "safe_step n (advanceCommitTo i n)"
  by (simp add: safe_step_def calm_def keeps_vote_def coherent_def advanceCommitTo_def vote_requests_def Let_def)

lemma safe_advance_loop: "safe_step n (advance_loop i n)"
  by (induction i) (auto simp: Let_def safe_advanceCommitTo split: option.splits)

lemma safe_log_update: "safe_step n (n\<lparr>log := l\<rparr>)"
  by (simp add: safe_step_def calm_def keeps_vote_def coherent_def vote_requests_def)

lemma safe_store:
  assumes "\<And>s h. srel s h \<Longrightarrow> srel (snd (f s)) h"
  shows "safe_step n (store f n)"
  using assms[of "storage n"]
  by (simp add: safe_step_def calm_def keeps_vote_def coherent_def store_def vote_requests_def)

lemmas safe_writes =
  safe_store[OF append_hard] safe_store[OF suffix_hard] safe_store[OF snapshot_hard] safe_store[OF prefix_hard]

lemma safe_append_loop: "safe_step n (append_loop ps idx es n)"
proof (induction es arbitrary: idx n)
  case (Cons entry es)
  have trunc: "safe_step n ((store f (n\<lparr>log := l\<rparr>))\<lparr>log := l'\<rparr>)"
    if "\<And>s h. srel s h \<Longrightarrow> srel (snd (f s)) h" for f l l'
    by (rule safe_trans[OF safe_trans[OF safe_log_update safe_store[OF that]] safe_log_update])
  show ?case
    by (auto simp: Let_def Cons.IH split: option.splits
        intro: safe_trans[OF trunc[OF suffix_hard] Cons.IH] safe_trans[OF safe_log_update Cons.IH])
qed simp

lemma safe_accept_entries: "safe_step n (accept_entries ps req n)"
proof -
  have "safe_step n (store (ps_AppendEntries ps es) (append_loop ps i es n))" for es i
    by (rule safe_trans[OF safe_append_loop safe_writes(1)])
  then show ?thesis
    by (auto simp: accept_entries_def Let_def safe_append_loop
        intro: safe_trans[OF _ safe_advanceCommitTo])
qed

lemma safe_HandleAppendEntries: "safe_step n (snd (HandleAppendEntries ps req n))"
  by (auto simp: HandleAppendEntries_def Let_def safe_follow_leader not_less split: option.splits
      intro: safe_trans[OF safe_follow_leader safe_accept_entries])

lemma safe_recv_update: "safe_step n (n\<lparr>recvSnapshot := r\<rparr>)"
  by (simp add: safe_step_def calm_def keeps_vote_def coherent_def vote_requests_def)

lemma safe_install_snapshot: "safe_step n (snd (install_snapshot ps rs n))"
proof -
  have last: "safe_step m (m\<lparr>log := l, lastIncludedIndex := i, lastIncludedTerm := t, commitIndex := c, ApplyCh := a\<rparr>)"
    "safe_step m (m\<lparr>log := l, lastIncludedIndex := i, lastIncludedTerm := t, ApplyCh := a\<rparr>)" for m l i t c a
    by (simp_all add: safe_step_def calm_def keeps_vote_def coherent_def vote_requests_def)
  have saved: "safe_step n (store (ps_SaveSnapshot ps d i t) (n\<lparr>recvSnapshot := None\<rparr>))" for d i t
    by (rule safe_trans[OF safe_recv_update safe_writes(3)])
  show ?thesis
    by (auto simp: install_snapshot_def Let_def saved
        intro: safe_trans[OF safe_trans[OF saved safe_writes(4)] last(1)]
          safe_trans[OF safe_trans[OF saved safe_writes(4)] last(2)])
qed

lemma safe_HandleInstallSnapshot: "safe_step n (snd (HandleInstallSnapshot ps req n))"
proof -
  have "safe_step m (snd (install_snapshot ps rs (m\<lparr>recvSnapshot := r\<rparr>)))" for m rs r
    by (rule safe_trans[OF safe_recv_update safe_install_snapshot])
  note inst = safe_trans[OF safe_follow_leader this]
  note upd = safe_trans[OF safe_follow_leader safe_recv_update]
  show ?thesis
    by (auto simp: HandleInstallSnapshot_def Let_def not_less safe_follow_leader upd inst case_prod_unfold
        split: option.splits)
qed

lemma safe_goroutines: "vote_requests (n\<lparr>goroutines := g\<rparr>) = vote_requests n \<Longrightarrow> safe_step n (n\<lparr>goroutines := g\<rparr>)"
  by (simp add: safe_step_def calm_def keeps_vote_def coherent_def)

lemma vote_requests_replicate [simp]:
  "vote_requests (n\<lparr>goroutines := goroutines n @ map (\<lambda>p. GoReplicate (f p)) xs\<rparr>) = vote_requests n"
  "vote_requests (n\<lparr>goroutines := goroutines n @ [GoReplicate p]\<rparr>) = vote_requests n"
  by (auto simp: vote_requests_def)

lemma safe_Propose: "safe_step n (snd (Propose ps data n))"
proof -
  have "safe_step n (store (ps_AppendEntries ps es) (n\<lparr>log := l\<rparr>))" for es l
    by (rule safe_trans[OF safe_log_update safe_writes(1)])
  note a = safe_trans[OF this safe_goroutines[OF vote_requests_replicate(1)]]
  show ?thesis
    by (auto simp: Propose_def Let_def maybeAdvanceCommit_def intro: safe_trans[OF a safe_advance_loop])
qed

lemma safe_CompactLog: "safe_step n (snd (CompactLog ps data i t n))"
proof -
  have last: "safe_step m (m\<lparr>log := l, lastIncludedIndex := a, lastIncludedTerm := b\<rparr>)" for m l a b
    by (simp add: safe_step_def calm_def keeps_vote_def coherent_def vote_requests_def)
  note two = safe_trans[OF safe_writes(3) safe_writes(4)]
  show ?thesis
    by (auto simp: CompactLog_def Let_def safe_writes two intro: safe_trans[OF two last])
qed

lemma safe_replicate_finish: "safe_step n (replicate_finish ps peer req resp n)"
proof -
  have idx: "safe_step n (n\<lparr>matchIndex := a, nextIndex := b\<rparr>)" for a b
    by (simp add: safe_step_def calm_def keeps_vote_def coherent_def vote_requests_def)
  have nxt: "safe_step n (n\<lparr>nextIndex := b, goroutines := goroutines n @ [GoReplicate p]\<rparr>)" for b p
    by (auto simp: safe_step_def calm_def keeps_vote_def coherent_def vote_requests_def)
  show ?thesis
    by (auto simp: replicate_finish_def Let_def maybeAdvanceCommit_def safe_becomeFollower nxt
        safe_advance_loop intro: safe_trans[OF idx safe_advance_loop])
qed

lemma safe_snapshot_reply: "safe_step n (snd (snapshot_reply ps peer tr d resp n))"
  by (auto simp: snapshot_reply_def safe_becomeFollower)
    (simp add: safe_step_def calm_def keeps_vote_def coherent_def vote_requests_def)

lemma safe_heartbeat: "safe_step n (run_heartbeat_tick n)"
  by (auto simp: run_heartbeat_tick_def sendHeartbeats_def resetHeartbeatTimer_def Let_def safe_step_def
      calm_def keeps_vote_def coherent_def vote_requests_def)

lemma safe_grant:
  assumes "votedFor m = '''' \<or> votedFor m = c"
  defines "m' \<equiv> resetElectionTimer (store (ps_SaveHardState ps (currentTerm m) c) (m\<lparr>votedFor := c\<rparr>))"
  shows "calm m m' \<and> (coherent m \<longrightarrow> coherent m') \<and> votedFor m' = c"
  using assms(1) save_hard[of "storage m" _ "currentTerm m" c]
  by (auto simp: m'_def calm_def keeps_vote_def coherent_def vote_requests_def store_def resetElectionTimer_def)

lemma safe_HandleRequestVote:
  defines "voted n n' req \<equiv> calm n n' \<and> (coherent n \<longrightarrow> coherent n')
    \<and> (votedFor n' = votedFor n \<or> votedFor n' = '''' \<or> votedFor n' = rv_CandidateId req)"
  shows "voted n (snd (HandleRequestVote ps req n)) req"
proof -
  let ?c = "rv_CandidateId req"
  have keep: "voted n m req" if "safe_step n m" for m using that by (auto simp: voted_def safe_step_def)
  have grant: "voted n (resetElectionTimer (store (ps_SaveHardState ps (currentTerm m) ?c) (m\<lparr>votedFor := ?c\<rparr>))) req"
    if "safe_step n m" "votedFor m = '''' \<or> votedFor m = ?c" for m
    using that(1) safe_grant[OF that(2)] calm_trans unfolding voted_def safe_step_def by blast
  show ?thesis
  proof (cases "rv_Term req > currentTerm n")
    case True
    then have s: "safe_step n (becomeFollower ps (rv_Term req) n)" by (intro safe_becomeFollower) simp
    show ?thesis using True keep[OF s] grant[OF s] by (auto simp: HandleRequestVote_def Let_def)
  next
    case False
    then show ?thesis using keep[of n] grant[of n] by (auto simp: HandleRequestVote_def Let_def)
  qed
qed

lemma coherent_run_election_tick: "coherent n \<Longrightarrow> coherent (run_election_tick ps n)"
  using save_hard[of "storage n" _ "Suc (currentTerm n)" "nodeID n"]
  by (auto simp: run_election_tick_def startElection_def becomeLeader_def resetElectionTimer_def
      resetHeartbeatTimer_def sendHeartbeats_def store_def coherent_def Let_def)

lemma coherent_vote_reply: "coherent n \<Longrightarrow> coherent (vote_reply ps t resp n)"
  using safe_becomeFollower[of n "rvr_Term resp"]
  by (auto simp: vote_reply_def becomeLeader_def resetHeartbeatTimer_def sendHeartbeats_def coherent_def
      safe_step_def Let_def)

lemma restart_hard:
  assumes "coherent n" and "okid (votedFor n)" and "restart ps n = Some n'"
  shows "coherent n' \<and> currentTerm n' = currentTerm n \<and> votedFor n' = votedFor n \<and> role n' = RoleFollower
    \<and> nodeID n' = nodeID n \<and> Peers n' = Peers n \<and> goroutines n' = []"
  using assms load_hard[of "storage n" "(currentTerm n, votedFor n)"]
  by (auto simp: restart_def Start_def NewNode_def resetElectionTimer_def coherent_def Let_def
      split: option.splits if_splits)

end

interpretation ms: hard_storage memState_ops "\<lambda>m h. h = (ms_term m, ms_voted m)" "\<lambda>_. True" Some
  by unfold_locales (simp_all add: memState_defs)

end
