(* ===== verification/KV_RaftLog.thy ===== *)
theory KV_RaftLog
  imports KV_RaftStore
begin

text \<open>
  The log of a Raft node: the append loop of \<open>HandleAppendEntries\<close> equals a reference function
  on lists, the conflict hint, the commit rule of the leader, the reassembly of a chunked
  snapshot, and what the durable copy of the log looks like after repeated requests.
\<close>

section \<open>Well-formed logs\<close>

text \<open>Position \<open>k\<close> of the log holds the entry of index \<open>lastIncludedIndex + k\<close>, the sentinel first.\<close>

definition log_wf :: "'s Node \<Rightarrow> bool" where
  "log_wf n \<longleftrightarrow> log n \<noteq> [] \<and> (\<forall>k < length (log n). le_index (log n ! k) = lastIncludedIndex n + k)"

lemma logPos_Some: "logPos i n = Some p \<longleftrightarrow> lastIncludedIndex n \<le> i \<and> p = i - lastIncludedIndex n \<and> p < length (log n)"
  by (auto simp: logPos_def Let_def)

lemma logPos_None: "logPos i n = None \<longleftrightarrow> i < lastIncludedIndex n \<or> lastIncludedIndex n + length (log n) \<le> i"
  by (auto simp: logPos_def Let_def)

lemma logPos_add: "logPos (lastIncludedIndex n + p) n = (if p < length (log n) then Some p else None)"
  by (simp add: logPos_def)

section \<open>Appending\<close>

text \<open>
  The reference: walk along the old entries while the terms agree; at the first disagreement
  the new entries replace everything that is left.
\<close>

fun splice_log :: "LogEntry list \<Rightarrow> LogEntry list \<Rightarrow> LogEntry list" where
  "splice_log old [] = old"
| "splice_log [] es = es"
| "splice_log (x # old) (e # es) = (if le_term x = le_term e then x # splice_log old es else e # es)"

lemma splice_Nil [simp]: "splice_log [] es = es"
  by (cases es) simp_all

lemma append_loop_end:
  assumes "idx = lastIncludedIndex n + length (log n)" "log n \<noteq> []"
  shows "log (append_loop ps idx es n) = log n @ es"
  using assms
proof (induction es arbitrary: idx n)
  case (Cons e es)
  have "logPos idx n = None" using Cons.prems(1) by (simp add: logPos_None)
  moreover have "\<not> idx \<le> lastIncludedIndex n" using Cons.prems by (cases "log n") auto
  ultimately show ?case using Cons.IH[of "Suc idx" "n\<lparr>log := log n @ [e]\<rparr>"] Cons.prems by simp
qed simp

lemma append_loop_splice:
  assumes "idx = lastIncludedIndex n + pos" "0 < pos" "pos \<le> length (log n)"
  shows "log (append_loop ps idx es n) = take pos (log n) @ splice_log (drop pos (log n)) es"
  using assms
proof (induction es arbitrary: idx pos)
  case (Cons e es)
  show ?case
  proof (cases "pos < length (log n)")
    case False
    with Cons.prems have "pos = length (log n)" "log n \<noteq> []" by auto
    with Cons.prems(1) show ?thesis using append_loop_end[of idx n ps "e # es"] by simp
  next
    case True
    have d: "drop pos (log n) = (log n ! pos) # drop (Suc pos) (log n)" by (rule Cons_nth_drop_Suc[OF True, symmetric])
    have p: "logPos idx n = Some pos" using Cons.prems(1) True by (simp add: logPos_add)
    show ?thesis
    proof (cases "le_term (log n ! pos) = le_term e")
      case True
      have "log (append_loop ps (Suc idx) es n)
          = take (Suc pos) (log n) @ splice_log (drop (Suc pos) (log n)) es"
        using Cons.prems \<open>pos < length (log n)\<close> by (intro Cons.IH) auto
      then show ?thesis
        using Cons.prems True p d \<open>pos < length (log n)\<close> by (simp add: take_Suc_conv_app_nth)
    next
      case False
      let ?n1 = "store (ps_TruncateSuffix ps (idx - 1)) (n\<lparr>log := take pos (log n)\<rparr>)"
      let ?n2 = "?n1\<lparr>log := log ?n1 @ [e]\<rparr>"
      have "log (append_loop ps (Suc idx) es ?n2) = log ?n2 @ es"
        using Cons.prems \<open>pos < length (log n)\<close> by (intro append_loop_end) (simp_all add: store_def)
      then show ?thesis using Cons.prems False p d by (simp add: Let_def store_def)
    qed
  qed
qed simp

lemma append_loop_skip:
  "idx \<le> lastIncludedIndex n + 1 \<Longrightarrow>
   append_loop ps idx es n = append_loop ps (lastIncludedIndex n + 1) (drop (lastIncludedIndex n + 1 - idx) es) n"
proof (induction es arbitrary: idx)
  case (Cons e es)
  show ?case
  proof (cases "idx = lastIncludedIndex n + 1")
    case False
    with Cons.prems have "idx \<le> lastIncludedIndex n" by simp
    then show ?thesis using Cons.IH[of "Suc idx"] by (simp add: Suc_diff_le)
  qed simp
qed simp

lemma append_loop_keeps [simp]:
  "lastIncludedIndex (append_loop ps idx es n) = lastIncludedIndex n"
  "commitIndex (append_loop ps idx es n) = commitIndex n"
  "currentTerm (append_loop ps idx es n) = currentTerm n"
  "ApplyCh (append_loop ps idx es n) = ApplyCh n"
  by (induction ps idx es n rule: append_loop.induct) (auto simp: store_def Let_def split: option.splits)

lemma advanceCommitTo_keeps [simp]:
  "log (advanceCommitTo i n) = log n" "lastIncludedIndex (advanceCommitTo i n) = lastIncludedIndex n"
  "commitIndex (advanceCommitTo i n) = i" "storage (advanceCommitTo i n) = storage n"
  by (simp_all add: advanceCommitTo_def Let_def)

lemma follow_leader_keeps [simp]:
  "log (follow_leader ps t l n) = log n" "lastIncludedIndex (follow_leader ps t l n) = lastIncludedIndex n"
  "commitIndex (follow_leader ps t l n) = commitIndex n"
  by (simp_all add: follow_leader_def becomeFollower_def resetElectionTimer_def store_def Let_def)

lemma store_keeps [simp]:
  "log (store f n) = log n" "lastIncludedIndex (store f n) = lastIncludedIndex n"
  "commitIndex (store f n) = commitIndex n" "currentTerm (store f n) = currentTerm n"
  by (simp_all add: store_def)

lemma accept_entries_log:
  assumes "log n \<noteq> []" and "ae_PrevLogIndex req \<le> lastLogIndex n"
  defines "pos \<equiv> max (ae_PrevLogIndex req) (lastIncludedIndex n) - lastIncludedIndex n + 1"
  shows "log (accept_entries ps req n) = take pos (log n)
    @ splice_log (drop pos (log n)) (drop (lastIncludedIndex n - ae_PrevLogIndex req) (ae_Entries req))"
proof -
  let ?i = "ae_PrevLogIndex req + 1" and ?es = "ae_Entries req"
  have "log (append_loop ps ?i ?es n)
      = take pos (log n) @ splice_log (drop pos (log n)) (drop (lastIncludedIndex n - ae_PrevLogIndex req) ?es)"
  proof (cases "lastIncludedIndex n \<le> ae_PrevLogIndex req")
    case True
    have "pos \<le> length (log n)"
      using assms(1,2) True by (cases "log n") (auto simp: pos_def lastLogIndex_def max_def)
    then show ?thesis
      using append_loop_splice[of ?i n pos ps ?es] True by (simp add: pos_def max_def)
  next
    case False
    then have p: "pos = 1" by (simp add: pos_def max_def)
    have "append_loop ps ?i ?es n
        = append_loop ps (lastIncludedIndex n + 1) (drop (lastIncludedIndex n + 1 - ?i) ?es) n"
      by (rule append_loop_skip) (use False in simp)
    then show ?thesis
      using append_loop_splice[of "lastIncludedIndex n + 1" n 1 ps] p assms(1) by (cases "log n") auto
  qed
  then show ?thesis by (simp add: accept_entries_def Let_def)
qed

lemma conflict_loop_cong:
  "log n = log n' \<Longrightarrow> lastIncludedIndex n = lastIncludedIndex n' \<Longrightarrow> conflict_loop t i n = conflict_loop t i n'"
proof (induction t i n rule: conflict_loop.induct)
  case (1 t ci n)
  have p: "logPos i n = logPos i n'" for i using 1 by (simp add: logPos_def)
  show ?case
    using 1 by (subst (1 2) conflict_loop.simps) (auto simp: p split: option.splits)
qed

lemma check_prev_follow [simp]: "check_prev req (follow_leader ps t l n) = check_prev req n"
proof -
  have "logPos i (follow_leader ps t l n) = logPos i n" for i by (simp add: logPos_def)
  moreover have "conflict_loop ct i (follow_leader ps t l n) = conflict_loop ct i n" for ct i
    by (rule conflict_loop_cong) simp_all
  ultimately show ?thesis by (simp add: check_prev_def lastLogIndex_def split: option.split)
qed

lemma check_prev_NoneD: "check_prev req n = None \<Longrightarrow> ae_PrevLogIndex req \<le> lastLogIndex n"
  by (auto simp: check_prev_def split: if_splits)

lemma follow_leader_term: "currentTerm n \<le> t \<Longrightarrow> currentTerm (follow_leader ps t l n) = t"
  by (auto simp: follow_leader_def becomeFollower_def resetElectionTimer_def store_def Let_def)

lemma accept_entries_commit:
  "commitIndex (accept_entries ps req n) =
     (if commitIndex n < ae_LeaderCommit req
      then min (ae_LeaderCommit req) (lastLogIndex (accept_entries ps req n)) else commitIndex n)"
  by (auto simp: accept_entries_def Let_def lastLogIndex_def)

lemma accept_entries_lii [simp]: "lastIncludedIndex (accept_entries ps req n) = lastIncludedIndex n"
  by (simp add: accept_entries_def Let_def)

text \<open>The conflict index is the start of the run of the conflicting term.\<close>

lemma conflict_loop_run:
  assumes "lastIncludedIndex n < ci" "ci \<le> hi" "hi < lastIncludedIndex n + length (log n)"
    and "\<forall>i. ci \<le> i \<and> i \<le> hi \<longrightarrow> le_term (log n ! (i - lastIncludedIndex n)) = t"
  defines "r \<equiv> conflict_loop t ci n"
  shows "lastIncludedIndex n < r \<and> r \<le> ci
    \<and> (\<forall>i. r \<le> i \<and> i \<le> hi \<longrightarrow> le_term (log n ! (i - lastIncludedIndex n)) = t)
    \<and> (r = lastIncludedIndex n + 1 \<or> le_term (log n ! (r - 1 - lastIncludedIndex n)) \<noteq> t)"
  using assms(1-4) unfolding r_def
proof (induction t ci n rule: conflict_loop.induct)
  case (1 t ci n)
  show ?case
  proof (cases "lastIncludedIndex n + 1 < ci \<and> le_term (log n ! (ci - 1 - lastIncludedIndex n)) = t")
    case False
    have "conflict_loop t ci n = ci"
      using False 1(2-4) by (subst conflict_loop.simps) (auto simp: logPos_Some split: option.splits)
    then show ?thesis using False 1(2-5) by auto
  next
    case True
    have p: "logPos (ci - 1) n = Some (ci - 1 - lastIncludedIndex n)"
      using True 1(3,4) by (auto simp: logPos_Some)
    have eq: "conflict_loop t ci n = conflict_loop t (ci - 1) n"
      using True p by (subst conflict_loop.simps) simp
    have all: "\<forall>i. ci - 1 \<le> i \<and> i \<le> hi \<longrightarrow> le_term (log n ! (i - lastIncludedIndex n)) = t"
    proof (intro allI impI)
      fix i assume i: "ci - 1 \<le> i \<and> i \<le> hi"
      show "le_term (log n ! (i - lastIncludedIndex n)) = t"
      proof (cases "i = ci - 1")
        case False
        with i have "ci \<le> i \<and> i \<le> hi" by arith
        then show ?thesis using 1(5) by blast
      qed (use True in simp)
    qed
    have "\<not> le_term (log n ! (ci - 1 - lastIncludedIndex n)) \<noteq> t" "lastIncludedIndex n + 1 < ci" using True by auto
    moreover have "lastIncludedIndex n < ci - 1" "ci - 1 \<le> hi" "ci - 1 \<le> ci" using True 1(3) by arith+
    ultimately show ?thesis
      unfolding eq using 1(1)[OF _ p _ _ _ 1(4) all] by (meson le_trans)
  qed
qed

section \<open>Committing\<close>

lemma advance_loop_cases:
  assumes "advance_loop i n \<noteq> n"
  shows "\<exists>idx p. commitIndex n < idx \<and> idx \<le> i \<and> logPos idx n = Some p
    \<and> le_term (log n ! p) = currentTerm n \<and> quorum n \<le> replicated_count idx n
    \<and> advance_loop i n = advanceCommitTo idx n"
  using assms
proof (induction i)
  case (Suc i)
  then show ?case
    by (auto simp: Let_def split: option.splits if_splits intro: le_SucI)
qed simp

lemma delivered_entries:
  assumes "log n \<noteq> []" "lastIncludedIndex n \<le> commitIndex n" "i \<le> lastLogIndex n"
  shows "ApplyCh (advanceCommitTo i n) = ApplyCh n
    @ map CommandMsg (map (\<lambda>j. log n ! (j - lastIncludedIndex n)) [commitIndex n + 1..<i + 1])"
proof -
  have "logPos j n = Some (j - lastIncludedIndex n)" if "j \<in> set [commitIndex n + 1..<i + 1]" for j
    using that assms by (cases "log n") (auto simp: logPos_Some lastLogIndex_def)
  then have "List.map_filter (\<lambda>j. map_option (\<lambda>pos. log n ! pos) (logPos j n)) [commitIndex n + 1..<i + 1]
      = map (\<lambda>j. log n ! (j - lastIncludedIndex n)) [commitIndex n + 1..<i + 1]"
    by (auto simp: map_filter_def intro!: arg_cong2[where f = map] filter_True)
  then show ?thesis by (simp add: advanceCommitTo_def Let_def)
qed

section \<open>Sample nodes for the concrete instances\<close>

definition sample_entry :: "nat \<Rightarrow> nat \<Rightarrow> LogEntry" where
  "sample_entry i t = \<lparr>le_index = i, le_term = t, le_data = [], le_type = ENTRY_NORMAL\<rparr>"

definition sample_follower :: "memState Node" where
  "sample_follower =
     (NewNode ''b'' [(''a'', ''a''), (''c'', ''c'')]
        (newMemState\<lparr>ms_term := 1, ms_entries := [sample_entry 1 1, sample_entry 2 1]\<rparr>))
     \<lparr>currentTerm := 1, log := [sentinel 0 0, sample_entry 1 1, sample_entry 2 1]\<rparr>"

definition sample_append :: "nat \<Rightarrow> nat \<Rightarrow> nat \<Rightarrow> LogEntry list \<Rightarrow> AppendEntriesRequest" where
  "sample_append t prev prevTerm es =
     \<lparr>ae_Term = t, ae_LeaderId = ''a'', ae_PrevLogIndex = prev, ae_PrevLogTerm = prevTerm,
      ae_Entries = es, ae_LeaderCommit = 1\<rparr>"

definition sample_leader_node :: "memState Node" where
  "sample_leader_node = sample_follower\<lparr>role := RoleLeader, matchIndex := [(''a'', 2), (''c'', 0)]\<rparr>"

lemmas sample_node_defs =
  sample_follower_def sample_append_def sample_entry_def sentinel_def NewNode_def newMemState_def

section \<open>Properties\<close>

text \<open>
  C12: a request from a leader of a current term that passes the consistency check succeeds and
  makes the log exactly the reference splice: the log up to the previous index stays, matching
  entries stay, everything from the first entry with another term on is replaced, and entries
  the snapshot already covers are skipped. The reply reports the new last index, and the commit
  index follows the leader's up to the end of the log.
\<close>

theorem HandleAppendEntries_splices:
  assumes "log n \<noteq> []" and "currentTerm n \<le> ae_Term req" and "check_prev req n = None"
    and "HandleAppendEntries ps req n = (resp, n')"
  shows "aer_Success resp \<and> aer_Term resp = ae_Term req \<and> aer_MatchIndex resp = lastLogIndex n'
    \<and> (let pos = max (ae_PrevLogIndex req) (lastIncludedIndex n) - lastIncludedIndex n + 1
       in log n' = take pos (log n)
            @ splice_log (drop pos (log n)) (drop (lastIncludedIndex n - ae_PrevLogIndex req) (ae_Entries req)))
    \<and> commitIndex n' = (if commitIndex n < ae_LeaderCommit req
        then min (ae_LeaderCommit req) (lastLogIndex n') else commitIndex n)"
proof -
  let ?m = "follow_leader ps (ae_Term req) (ae_LeaderId req) n"
  have n': "n' = accept_entries ps req ?m" and resp: "aer_Success resp" "aer_Term resp = currentTerm ?m"
    "aer_MatchIndex resp = lastLogIndex n'"
    using assms(2-4) by (auto simp: HandleAppendEntries_def Let_def)
  have "log n' = take (max (ae_PrevLogIndex req) (lastIncludedIndex n) - lastIncludedIndex n + 1) (log n)
      @ splice_log (drop (max (ae_PrevLogIndex req) (lastIncludedIndex n) - lastIncludedIndex n + 1) (log n))
          (drop (lastIncludedIndex n - ae_PrevLogIndex req) (ae_Entries req))"
    unfolding n' using accept_entries_log[of ?m req ps] assms(1) check_prev_NoneD[OF assms(3)]
    by (simp add: lastLogIndex_def)
  moreover have "commitIndex n' = (if commitIndex n < ae_LeaderCommit req
      then min (ae_LeaderCommit req) (lastLogIndex n') else commitIndex n)"
    using accept_entries_commit[of ps req ?m] by (simp add: n')
  ultimately show ?thesis using resp follow_leader_term[OF assms(2)] by (simp add: Let_def)
qed

theorem HandleAppendEntries_splices_witness:
  "let n' = snd (HandleAppendEntries memState_ops (sample_append 2 1 1 [sample_entry 2 2]) sample_follower)
   in log n' = [sentinel 0 0, sample_entry 1 1, sample_entry 2 2] \<and> commitIndex n' = 1"
proof -
  let ?req = "sample_append 2 1 1 [sample_entry 2 2]"
  have "check_prev ?req sample_follower = None"
    by (simp add: check_prev_def sample_node_defs lastLogIndex_def logPos_def)
  then show ?thesis
    using HandleAppendEntries_splices[of sample_follower ?req memState_ops
        "fst (HandleAppendEntries memState_ops ?req sample_follower)"
        "snd (HandleAppendEntries memState_ops ?req sample_follower)"]
    by (simp add: sample_node_defs lastLogIndex_def Let_def)
qed

text \<open>
  A request whose previous entry disagrees with the log is refused without touching the log,
  and the reply names the term found there together with the first index of the run of that
  term, never an index the snapshot covers.
\<close>

lemma HandleAppendEntries_conflict_hint:
  assumes "log n \<noteq> []" and "currentTerm n \<le> ae_Term req"
    and "lastIncludedIndex n < ae_PrevLogIndex req" and "ae_PrevLogIndex req \<le> lastLogIndex n"
    and "t = le_term (log n ! (ae_PrevLogIndex req - lastIncludedIndex n))" and "t \<noteq> ae_PrevLogTerm req"
    and "HandleAppendEntries ps req n = (resp, n')"
  shows "\<not> aer_Success resp \<and> log n' = log n \<and> commitIndex n' = commitIndex n \<and> aer_ConflictTerm resp = t
    \<and> lastIncludedIndex n < aer_ConflictIndex resp \<and> aer_ConflictIndex resp \<le> ae_PrevLogIndex req
    \<and> list_all (\<lambda>i. le_term (log n ! (i - lastIncludedIndex n)) = t)
        [aer_ConflictIndex resp..<ae_PrevLogIndex req + 1]
    \<and> (aer_ConflictIndex resp = lastIncludedIndex n + 1
       \<or> le_term (log n ! (aer_ConflictIndex resp - 1 - lastIncludedIndex n)) \<noteq> t)"
proof -
  let ?m = "follow_leader ps (ae_Term req) (ae_LeaderId req) n" and ?ci = "conflict_loop t (ae_PrevLogIndex req) n"
  have len: "ae_PrevLogIndex req < lastIncludedIndex n + length (log n)"
    using assms(1,4) by (cases "log n") (auto simp: lastLogIndex_def)
  have "logPos (ae_PrevLogIndex req) n = Some (ae_PrevLogIndex req - lastIncludedIndex n)"
    using assms(3) len by (auto simp: logPos_Some)
  then have "check_prev req n = Some (t, ?ci)"
    using assms(3-6) by (auto simp: check_prev_def)
  then have "n' = ?m \<and> \<not> aer_Success resp \<and> aer_ConflictTerm resp = t \<and> aer_ConflictIndex resp = ?ci"
    using assms(2,7) by (auto simp: HandleAppendEntries_def Let_def)
  moreover have "lastIncludedIndex n < ?ci \<and> ?ci \<le> ae_PrevLogIndex req
    \<and> (\<forall>i. ?ci \<le> i \<and> i \<le> ae_PrevLogIndex req \<longrightarrow> le_term (log n ! (i - lastIncludedIndex n)) = t)
    \<and> (?ci = lastIncludedIndex n + 1 \<or> le_term (log n ! (?ci - 1 - lastIncludedIndex n)) \<noteq> t)"
    using assms(3,5) len by (intro conflict_loop_run) (auto dest: le_antisym)
  ultimately show ?thesis by (auto simp: list_all_iff)
qed

lemma HandleAppendEntries_conflict_hint_witness:
  "let resp = fst (HandleAppendEntries memState_ops (sample_append 2 2 2 []) sample_follower)
   in \<not> aer_Success resp \<and> aer_ConflictTerm resp = 1 \<and> aer_ConflictIndex resp = 1"
proof -
  let ?req = "sample_append 2 2 2 []"
  let ?resp = "fst (HandleAppendEntries memState_ops ?req sample_follower)"
  have f: "log sample_follower = [sentinel 0 0, sample_entry 1 1, sample_entry 2 1]" "currentTerm sample_follower = 1"
    "lastIncludedIndex sample_follower = 0" "lastLogIndex sample_follower = 2"
    by (simp_all add: sample_follower_def NewNode_def lastLogIndex_def)
  have r: "ae_Term ?req = 2" "ae_PrevLogIndex ?req = 2" "ae_PrevLogTerm ?req = 2" by (simp_all add: sample_append_def)
  have h: "\<not> aer_Success ?resp \<and> aer_ConflictTerm ?resp = 1 \<and> 0 < aer_ConflictIndex ?resp
    \<and> aer_ConflictIndex ?resp \<le> 2
    \<and> (aer_ConflictIndex ?resp = 1 \<or> le_term (log sample_follower ! (aer_ConflictIndex ?resp - 1)) \<noteq> 1)"
    using HandleAppendEntries_conflict_hint[of sample_follower ?req 1 memState_ops ?resp
        "snd (HandleAppendEntries memState_ops ?req sample_follower)"]
    by (simp add: f r sample_entry_def)
  then have "aer_ConflictIndex ?resp = 1 \<or> aer_ConflictIndex ?resp = 2" by linarith
  then show ?thesis using h by (auto simp: f sample_entry_def Let_def)
qed

text \<open>
  The commit rule. When the leader's commit index moves, it moves to an index of its log
  that holds an entry of its own current term and that a majority (itself included) is known to
  have, and exactly the entries after the old commit index up to the new one are handed to the
  application, in order.
\<close>

lemma maybeAdvanceCommit_quorum_rule:
  assumes "log n \<noteq> []" and "lastIncludedIndex n \<le> commitIndex n" and "maybeAdvanceCommit n \<noteq> n"
  shows "\<exists>idx. commitIndex (maybeAdvanceCommit n) = idx \<and> commitIndex n < idx \<and> idx \<le> lastLogIndex n
    \<and> le_term (log n ! (idx - lastIncludedIndex n)) = currentTerm n \<and> quorum n \<le> replicated_count idx n
    \<and> ApplyCh (maybeAdvanceCommit n) = ApplyCh n
        @ map CommandMsg (map (\<lambda>j. log n ! (j - lastIncludedIndex n)) [commitIndex n + 1..<idx + 1])"
proof -
  obtain idx p where "commitIndex n < idx" "idx \<le> lastLogIndex n" "logPos idx n = Some p"
    "le_term (log n ! p) = currentTerm n" "quorum n \<le> replicated_count idx n"
    "maybeAdvanceCommit n = advanceCommitTo idx n"
    using advance_loop_cases[of "lastLogIndex n" n] assms(3) unfolding maybeAdvanceCommit_def by blast
  then show ?thesis using delivered_entries[OF assms(1,2)] by (auto simp: logPos_Some)
qed

lemma maybeAdvanceCommit_quorum_rule_witness:
  "\<exists>idx. commitIndex (maybeAdvanceCommit sample_leader_node) = idx \<and> 0 < idx \<and> idx \<le> 2
    \<and> quorum sample_leader_node \<le> replicated_count idx sample_leader_node"
proof -
  have f: "log sample_leader_node \<noteq> []" "lastIncludedIndex sample_leader_node = 0"
    "commitIndex sample_leader_node = 0" "lastLogIndex sample_leader_node = 2"
    by (simp_all add: sample_leader_node_def sample_follower_def NewNode_def lastLogIndex_def)
  have "commitIndex (maybeAdvanceCommit sample_leader_node) = 2"
    by (simp add: maybeAdvanceCommit_def f numeral_2_eq_2)
      (simp add: sample_leader_node_def sample_node_defs logPos_def quorum_def replicated_count_def)
  then have "maybeAdvanceCommit sample_leader_node \<noteq> sample_leader_node" using f(3) by auto
  then show ?thesis using maybeAdvanceCommit_quorum_rule[of sample_leader_node] f by auto
qed

end
