(* ===== verification/KV_RaftProps.thy ===== *)
theory KV_RaftProps
  imports KV_RaftLog
begin

text \<open>
  Exchanges between two nodes: a chunked snapshot transfer run to its end, and behaviours of
  \<open>raft/node.go\<close> around persistence and snapshots that lose entries, votes or progress.
\<close>

section \<open>A whole snapshot transfer\<close>

text \<open>
  The loop of \<open>sendSnapshotToPeer\<close> against one follower, with no other traffic: it stops after
  the last chunk or at the first refusal, and returns whether the last reply was a success.
\<close>

function send_chunks :: "'s PersistentState \<Rightarrow> string \<Rightarrow> transfer \<Rightarrow> nat \<Rightarrow> 's Node \<Rightarrow> bool \<times> 's Node" where
  "send_chunks ps leader tr off n =
     (let req = snapshot_chunk leader tr off;
          (resp, n') = HandleInstallSnapshot ps req n
      in if is_Done req \<or> \<not> isr_Success resp then (isr_Success resp, n')
         else send_chunks ps leader tr (off + snapshotChunkSize) n')"
  by pat_completeness auto
termination
  by (relation "measure (\<lambda>(ps, l, tr, off, n). length (tr_data tr) - off)")
    (auto simp: snapshot_chunk_def snapshotChunkSize_def Let_def min_def split: if_splits)

declare send_chunks.simps [simp del]

definition receiving :: "transfer \<Rightarrow> nat \<Rightarrow> memState Node \<Rightarrow> bool" where
  "receiving tr off n \<longleftrightarrow> currentTerm n \<le> tr_term tr \<and> lastIncludedIndex n < tr_lastIncludedIndex tr
     \<and> (off = 0 \<or> recvSnapshot n = Some \<lparr>rs_lastIncludedIndex = tr_lastIncludedIndex tr,
          rs_lastIncludedTerm = tr_lastIncludedTerm tr, rs_data = take off (tr_data tr)\<rparr>)"

lemma chunk_data:
  "off \<le> length (tr_data tr) \<Longrightarrow>
   take off (tr_data tr) @ is_Data (snapshot_chunk l tr off) = take (off + snapshotChunkSize) (tr_data tr)"
  by (auto simp: snapshot_chunk_def Let_def min_def take_add[symmetric])

lemma follow_leader_recv [simp]:
  "recvSnapshot (follow_leader ps t l n) = recvSnapshot n" "ApplyCh (follow_leader ps t l n) = ApplyCh n"
  by (simp_all add: follow_leader_def becomeFollower_def resetElectionTimer_def store_def Let_def)

lemma chunk_fields [simp]:
  "is_Term (snapshot_chunk l tr off) = tr_term tr" "is_LeaderId (snapshot_chunk l tr off) = l"
  "is_LastIncludedIndex (snapshot_chunk l tr off) = tr_lastIncludedIndex tr"
  "is_LastIncludedTerm (snapshot_chunk l tr off) = tr_lastIncludedTerm tr" "is_Offset (snapshot_chunk l tr off) = off"
  "is_Done (snapshot_chunk l tr off) \<longleftrightarrow> length (tr_data tr) \<le> off + snapshotChunkSize"
  by (auto simp: snapshot_chunk_def Let_def)

definition installed :: "transfer \<Rightarrow> memState Node \<Rightarrow> memState Node \<Rightarrow> bool" where
  "installed tr n n' \<longleftrightarrow> log n' = [sentinel (tr_lastIncludedIndex tr) (tr_lastIncludedTerm tr)]
     \<and> lastIncludedIndex n' = tr_lastIncludedIndex tr \<and> recvSnapshot n' = None
     \<and> commitIndex n' = max (commitIndex n) (tr_lastIncludedIndex tr)
     \<and> ApplyCh n' = ApplyCh n @ [SnapshotMsg (tr_data tr) (tr_lastIncludedIndex tr) (tr_lastIncludedTerm tr)]
     \<and> memState_LoadSnapshot (storage n') = Some (tr_data tr, tr_lastIncludedIndex tr, tr_lastIncludedTerm tr)"

lemma chunk_step:
  assumes "receiving tr off n" and "off \<le> length (tr_data tr)"
    and "HandleInstallSnapshot memState_ops (snapshot_chunk l tr off) n = (resp, n')"
  shows "isr_Success resp"
    and "length (tr_data tr) \<le> off + snapshotChunkSize \<Longrightarrow> installed tr n n'"
    and "off + snapshotChunkSize < length (tr_data tr) \<Longrightarrow> receiving tr (off + snapshotChunkSize) n'
      \<and> commitIndex n' = commitIndex n \<and> ApplyCh n' = ApplyCh n"
proof -
  let ?m = "follow_leader memState_ops (tr_term tr) l n"
  let ?rs = "\<lparr>rs_lastIncludedIndex = tr_lastIncludedIndex tr, rs_lastIncludedTerm = tr_lastIncludedTerm tr,
    rs_data = take (off + snapshotChunkSize) (tr_data tr)\<rparr>"
  have t: "currentTerm n \<le> tr_term tr" "lastIncludedIndex n < tr_lastIncludedIndex tr"
    using assms(1) by (simp_all add: receiving_def)
  have d: "take off (tr_data tr) @ is_Data (snapshot_chunk l tr off) = rs_data ?rs"
    using chunk_data[OF assms(2)] by simp
  have "(resp, n') = (if length (tr_data tr) \<le> off + snapshotChunkSize
      then (let (ok, n4) = install_snapshot memState_ops ?rs (?m\<lparr>recvSnapshot := Some ?rs\<rparr>)
            in (\<lparr>isr_Term = currentTerm ?m, isr_Success = ok\<rparr>, n4))
      else (\<lparr>isr_Term = currentTerm ?m, isr_Success = True\<rparr>, ?m\<lparr>recvSnapshot := Some ?rs\<rparr>))"
    using assms(1,2) t d unfolding assms(3)[symmetric]
    by (auto simp: HandleInstallSnapshot_def receiving_def Let_def min_def)
  then have e: "(resp, n') = (if length (tr_data tr) \<le> off + snapshotChunkSize
      then (\<lparr>isr_Term = currentTerm ?m, isr_Success = True\<rparr>,
            snd (install_snapshot memState_ops ?rs (?m\<lparr>recvSnapshot := Some ?rs\<rparr>)))
      else (\<lparr>isr_Term = currentTerm ?m, isr_Success = True\<rparr>, ?m\<lparr>recvSnapshot := Some ?rs\<rparr>))"
    by (auto simp: install_snapshot_def store_ok_def memState_defs Let_def split: if_splits)
  show "isr_Success resp" using e by (auto split: if_splits)
  show "installed tr n n'" if "length (tr_data tr) \<le> off + snapshotChunkSize"
    using e that
    by (auto simp: installed_def install_snapshot_def store_ok_def store_def memState_defs Let_def)
  show "receiving tr (off + snapshotChunkSize) n' \<and> commitIndex n' = commitIndex n \<and> ApplyCh n' = ApplyCh n"
    if "off + snapshotChunkSize < length (tr_data tr)"
    using e that t follow_leader_term[OF t(1), of memState_ops l]
    by (auto simp: receiving_def)
qed

lemma send_chunks_installs:
  "receiving tr off n \<Longrightarrow> off \<le> length (tr_data tr) \<Longrightarrow>
   \<exists>n'. send_chunks memState_ops l tr off n = (True, n') \<and> installed tr n n'"
proof (induction "length (tr_data tr) - off" arbitrary: off n rule: less_induct)
  case less
  obtain resp n1 where h: "HandleInstallSnapshot memState_ops (snapshot_chunk l tr off) n = (resp, n1)" by fastforce
  note c = chunk_step[OF less.prems h]
  show ?case
  proof (cases "length (tr_data tr) \<le> off + snapshotChunkSize")
    case True
    then show ?thesis using c(1,2) h by (subst send_chunks.simps) (simp add: Let_def)
  next
    case False
    then have r: "receiving tr (off + snapshotChunkSize) n1" "commitIndex n1 = commitIndex n" "ApplyCh n1 = ApplyCh n"
      using c(3) by auto
    have "length (tr_data tr) - (off + snapshotChunkSize) < length (tr_data tr) - off"
      using False by (simp add: snapshotChunkSize_def)
    from less.hyps[OF this r(1)] False
    obtain n' where "send_chunks memState_ops l tr (off + snapshotChunkSize) n1 = (True, n')" "installed tr n1 n'"
      by auto
    then show ?thesis
      using False c(1) h r(2,3) by (subst send_chunks.simps) (auto simp: Let_def installed_def)
  qed
qed

section \<open>Requests already in the log\<close>

lemma splice_same:
  "map le_term es = take (length es) (map le_term old) \<Longrightarrow> length es \<le> length old \<Longrightarrow> splice_log old es = old"
  by (induction old es rule: splice_log.induct) auto

lemma append_loop_same:
  assumes "idx = lastIncludedIndex n + pos" "0 < pos" "pos + length es \<le> length (log n)"
    and "\<forall>k < length es. le_term (log n ! (pos + k)) = le_term (es ! k)"
  shows "append_loop ps idx es n = n"
  using assms
proof (induction es arbitrary: idx pos)
  case (Cons e es)
  have "\<forall>k < length es. le_term (log n ! (Suc pos + k)) = le_term (es ! k)"
    using Cons.prems(4) by auto
  then have "append_loop ps (Suc idx) es n = n"
    using Cons.prems(1-3) by (intro Cons.IH[where pos = "Suc pos"]) simp_all
  moreover have "logPos idx n = Some pos" using Cons.prems by (simp add: logPos_add)
  moreover have "le_term (log n ! pos) = le_term e" using Cons.prems(4) by force
  ultimately show ?case using Cons.prems by simp
qed simp

section \<open>Sample states for the concrete instances\<close>

definition sample_transfer :: transfer where
  "sample_transfer = \<lparr>tr_term = 2, tr_lastIncludedIndex = 1, tr_lastIncludedTerm = 1, tr_data = [7]\<rparr>"

definition sample_compacted :: "memState Node" where
  "sample_compacted = sample_follower\<lparr>role := RoleLeader, log := [sentinel 5 1], lastIncludedIndex := 5,
     lastIncludedTerm := 1, commitIndex := 5, nextIndex := [(''b'', 6)]\<rparr>"

text \<open>A storage whose hard-state writes fail and leave the file as it was.\<close>

definition failing_saves :: "memState PersistentState" where
  "failing_saves = memState_ops\<lparr>ps_SaveHardState := (\<lambda>t v m. (False, m))\<rparr>"

definition vote_request :: "nat \<Rightarrow> string \<Rightarrow> RequestVoteRequest" where
  "vote_request t c = \<lparr>rv_Term = t, rv_CandidateId = c, rv_LastLogIndex = 0, rv_LastLogTerm = 0\<rparr>"

section \<open>Properties\<close>

text \<open>
  C20: a snapshot sent in chunks arrives whole. A follower whose snapshot is older accepts every
  chunk; after the last one its storage holds exactly the leader's data with its index and
  term, the application is handed exactly that snapshot, the log starts at it, and the commit
  index is at least the snapshot's.
\<close>

theorem snapshot_transfer_installs:
  assumes "currentTerm n \<le> tr_term tr" and "lastIncludedIndex n < tr_lastIncludedIndex tr"
  shows "\<exists>n'. send_chunks memState_ops leader tr 0 n = (True, n') \<and> installed tr n n'"
  by (rule send_chunks_installs) (use assms in \<open>simp_all add: receiving_def\<close>)

theorem snapshot_transfer_installs_witness:
  "\<exists>n'. send_chunks memState_ops ''a'' sample_transfer 0 sample_follower = (True, n')
    \<and> installed sample_transfer sample_follower n'"
  by (rule snapshot_transfer_installs) (simp_all add: sample_transfer_def sample_node_defs)

text \<open>
  C31: installing a snapshot can drop committed entries. A follower that has committed beyond the
  snapshot, but whose own snapshot is older, accepts it and discards its whole log: afterwards
  the log ends before the commit index and the committed entries are gone from memory.
\<close>

theorem snapshot_drops_committed:
  assumes "currentTerm n \<le> tr_term tr" and "lastIncludedIndex n < tr_lastIncludedIndex tr"
    and "tr_lastIncludedIndex tr < commitIndex n"
  shows "\<exists>n'. send_chunks memState_ops leader tr 0 n = (True, n')
    \<and> commitIndex n' = commitIndex n \<and> lastLogIndex n' < commitIndex n' \<and> logPos (commitIndex n) n' = None"
proof -
  obtain n' where "send_chunks memState_ops leader tr 0 n = (True, n')" "installed tr n n'"
    using send_chunks_installs[of tr 0 n leader] assms(1,2) by (auto simp: receiving_def)
  then show ?thesis using assms(3) by (auto simp: installed_def lastLogIndex_def logPos_None max_def)
qed

theorem snapshot_drops_committed_witness:
  "\<exists>n'. send_chunks memState_ops ''a'' sample_transfer 0 (sample_follower\<lparr>commitIndex := 2\<rparr>) = (True, n')
    \<and> commitIndex n' = 2 \<and> lastLogIndex n' < 2 \<and> logPos 2 n' = None"
  using snapshot_drops_committed[of "sample_follower\<lparr>commitIndex := 2\<rparr>" sample_transfer "''a''"]
  by (simp add: sample_transfer_def sample_node_defs) force

text \<open>
  C30: a request that only repeats entries the follower already has is written to its durable log
  again. The log in memory does not change, but after a restart the repeated entries follow the
  log a second time, so positions no longer match indices.
\<close>

theorem repeated_append_corrupts_restart:
  assumes wf: "log_wf n" and zero: "lastIncludedIndex n = 0" "log n = sentinel 0 0 # ms_entries (storage n)"
      "ms_lastIncludedIndex (storage n) = 0"
    and req: "currentTerm n \<le> ae_Term req" "check_prev req n = None" "ae_Entries req \<noteq> []"
      "ae_Entries req = take (length (ae_Entries req)) (drop (ae_PrevLogIndex req + 1) (log n))"
    and h: "HandleAppendEntries memState_ops req n = (resp, n')"
  shows "log n' = log n \<and> (\<exists>n2. restart memState_ops n' = Some n2 \<and> log n2 = log n @ ae_Entries req \<and> \<not> log_wf n2)"
proof -
  let ?m = "follow_leader memState_ops (ae_Term req) (ae_LeaderId req) n" and ?es = "ae_Entries req"
  have pos: "0 < length ?es" using req(3) by simp
  have "length ?es = min (length ?es) (length (log n) - (ae_PrevLogIndex req + 1))"
    using arg_cong[OF req(4), of length] by (simp only: length_take length_drop min.commute)
  then have len: "ae_PrevLogIndex req + 1 + length ?es \<le> length (log n)" using pos by linarith
  have nth: "log n ! (ae_PrevLogIndex req + 1 + k) = ?es ! k" if "k < length ?es" for k
  proof -
    have "?es ! k = take (length ?es) (drop (ae_PrevLogIndex req + 1) (log n)) ! k"
      by (rule arg_cong[OF req(4), of "\<lambda>l. l ! k"])
    then show ?thesis using that len by simp
  qed
  have same: "append_loop memState_ops (ae_PrevLogIndex req + 1) ?es ?m = ?m"
    using zero(1) len nth by (intro append_loop_same[where pos = "ae_PrevLogIndex req + 1"]) auto
  have st: "ms_entries (storage ?m) = ms_entries (storage n)" "ms_lastIncludedIndex (storage ?m) = 0"
    using zero(3) by (simp_all add: follow_leader_def becomeFollower_def resetElectionTimer_def store_def
        memState_defs Let_def)
  have n': "n' = accept_entries memState_ops req ?m"
    using req(1,2) h by (auto simp: HandleAppendEntries_def Let_def)
  have l': "log n' = log n" and s': "ms_entries (storage n') = ms_entries (storage n) @ ?es"
      "ms_lastIncludedIndex (storage n') = 0"
    using st req(3) same by (simp_all add: n' accept_entries_def store_def memState_defs Let_def)
  obtain n2 where n2: "restart memState_ops n' = Some n2" "log n2 = sentinel 0 0 # ms_entries (storage n')"
      "lastIncludedIndex n2 = 0"
    using s'(2) by (simp add: restart_def Start_def NewNode_def memState_defs resetElectionTimer_def Let_def)
  have log2: "log n2 = log n @ ?es" using n2(2) s'(1) zero(2) by simp
  have idx: "le_index (?es ! 0) = ae_PrevLogIndex req + 1"
  proof -
    have "ae_PrevLogIndex req + 1 < length (log n)" using len pos by linarith
    then have "le_index (log n ! (ae_PrevLogIndex req + 1)) = ae_PrevLogIndex req + 1"
      using wf zero(1) unfolding log_wf_def by simp
    then show ?thesis using nth[OF pos] by simp
  qed
  have "\<not> log_wf n2"
  proof
    assume "log_wf n2"
    then have "le_index (log n2 ! length (log n)) = length (log n)"
      using log2 pos n2(3) by (simp add: log_wf_def)
    moreover have "log n2 ! length (log n) = ?es ! 0" using log2 by (simp add: nth_append)
    ultimately show False using idx len pos by simp
  qed
  then show ?thesis using l' n2(1) log2 by blast
qed

theorem repeated_append_corrupts_restart_witness:
  "let n' = snd (HandleAppendEntries memState_ops (sample_append 1 1 1 [sample_entry 2 1]) sample_follower)
   in log n' = log sample_follower
    \<and> (\<exists>n2. restart memState_ops n' = Some n2 \<and> log n2 = log sample_follower @ [sample_entry 2 1] \<and> \<not> log_wf n2)"
proof -
  let ?req = "sample_append 1 1 1 [sample_entry 2 1]"
  have "log_wf sample_follower"
    by (simp add: log_wf_def sample_node_defs less_Suc_eq numeral_3_eq_3)
  moreover have "check_prev ?req sample_follower = None"
    by (simp add: check_prev_def sample_node_defs lastLogIndex_def logPos_def)
  ultimately show ?thesis
    using repeated_append_corrupts_restart[of sample_follower ?req "fst (HandleAppendEntries memState_ops ?req sample_follower)"
        "snd (HandleAppendEntries memState_ops ?req sample_follower)"]
    by (simp add: sample_node_defs Let_def)
qed

text \<open>
  C32: a follower that lags behind the leader's snapshot is never sent it once the leader has
  clamped its next index. The leader sends an append request at its snapshot's index, the
  follower refuses it for lack of entries, and the reply takes the leader back to the same next
  index: the exchange repeats itself with the follower's log unchanged.
\<close>

theorem lagging_follower_never_gets_snapshot:
  assumes "role n = RoleLeader" and "map_get (nextIndex n) peer = lastIncludedIndex n + 1"
    and "lastLogIndex m < lastIncludedIndex n" and "currentTerm m \<le> currentTerm n"
  shows "\<exists>req resp m' n'. replicate_begin peer n = ReplicateAppend req
    \<and> HandleAppendEntries ps req m = (resp, m') \<and> \<not> aer_Success resp \<and> log m' = log m
    \<and> replicate_finish ps peer req resp n = n' \<and> role n' = RoleLeader \<and> log n' = log n
    \<and> map_get (nextIndex n') peer = lastIncludedIndex n' + 1 \<and> lastLogIndex m' < lastIncludedIndex n'
    \<and> currentTerm m' \<le> currentTerm n' \<and> GoReplicate peer \<in> set (goroutines n')"
proof -
  obtain req where req: "replicate_begin peer n = ReplicateAppend req" "ae_Term req = currentTerm n"
      "ae_PrevLogIndex req = lastIncludedIndex n"
    using assms(1,2) by (simp add: replicate_begin_def Let_def)
  let ?m = "follow_leader ps (ae_Term req) (ae_LeaderId req) m"
  have "check_prev req m = Some (0, lastLogIndex m + 1)"
    using assms(3) req(3) by (simp add: check_prev_def)
  then obtain resp where resp: "HandleAppendEntries ps req m = (resp, ?m)" "\<not> aer_Success resp"
      "aer_ConflictTerm resp = 0" "aer_ConflictIndex resp = lastLogIndex m + 1" "aer_Term resp = currentTerm ?m"
    using assms(4) req(2) by (simp add: HandleAppendEntries_def Let_def)
  have t: "currentTerm ?m = currentTerm n" using follow_leader_term[of m "ae_Term req"] assms(4) req(2) by simp
  let ?n = "replicate_finish ps peer req resp n"
  have n': "?n = n\<lparr>nextIndex := AList.update peer (lastIncludedIndex n + 1) (nextIndex n),
      goroutines := goroutines n @ [GoReplicate peer]\<rparr>"
    using resp t req(2) assms(1,3) by (simp add: replicate_finish_def Let_def)
  have "map_get (nextIndex ?n) peer = lastIncludedIndex ?n + 1" by (simp add: n' map_get_def update_conv)
  moreover have "lastLogIndex ?m < lastIncludedIndex ?n" using assms(3) by (simp add: n' lastLogIndex_def)
  ultimately show ?thesis using req(1) resp(1,2) t assms(1) n' by fastforce
qed

theorem lagging_follower_never_gets_snapshot_witness:
  "\<exists>req resp m' n'. replicate_begin ''b'' sample_compacted = ReplicateAppend req
    \<and> HandleAppendEntries memState_ops req sample_follower = (resp, m') \<and> \<not> aer_Success resp
    \<and> replicate_finish memState_ops ''b'' req resp sample_compacted = n'
    \<and> map_get (nextIndex n') ''b'' = lastIncludedIndex n' + 1"
  using lagging_follower_never_gets_snapshot[of sample_compacted "''b''" sample_follower memState_ops]
  by (simp add: sample_compacted_def map_get_def sample_node_defs lastLogIndex_def) blast

text \<open>
  C33: a vote whose save fails is forgotten by a restart. The error of \<open>SaveHardState\<close> is only
  logged and the vote is granted all the same, so a node on a storage that refuses the write
  votes for one candidate, restarts, and votes for any other candidate in the same term.
\<close>

theorem unsaved_vote_forgotten:
  "rvr_VoteGranted (fst (HandleRequestVote failing_saves (vote_request (Suc t) a) (NewNode i peers newMemState)))
   \<and> (\<exists>n. restart failing_saves
          (snd (HandleRequestVote failing_saves (vote_request (Suc t) a) (NewNode i peers newMemState))) = Some n
        \<and> fst (HandleRequestVote failing_saves (vote_request (Suc t) b) n)
            = \<lparr>rvr_Term = Suc t, rvr_VoteGranted = True\<rparr>)"
  by (simp add: failing_saves_def vote_request_def HandleRequestVote_def becomeFollower_def restart_def
      Start_def NewNode_def newMemState_def memState_defs resetElectionTimer_def store_def
      candidateLogUpToDate_def lastLogIndex_def lastLogTerm_def sentinel_def Let_def)

end
