(* ===== verification/KV_Cluster.thy ===== *)
theory KV_Cluster
  imports KV_RaftStore
begin

text \<open>
  A cluster of Raft nodes over a network that delays, drops, reorders and duplicates messages,
  with nodes that crash and restart on their storage. A step is one locked section of
  \<open>raft/node.go\<close> at one node; restarts and log compaction occur only when \<open>faults\<close> is given: it says
  what a new process finds of the storage a crashed one left. Everything in flight is a message: requests and replies, and the
  local state of a snapshot transfer between two locked sections. The history components
  \<open>granted\<close> and \<open>elected\<close> record every vote cast and every leadership.
\<close>

section \<open>The cluster\<close>

datatype message =
    RVReq string RequestVoteRequest
  | RVResp string nat string RequestVoteResponse \<comment> \<open>candidate, term of its election, voter\<close>
  | AEReq string AppendEntriesRequest
  | AEResp string string AppendEntriesRequest AppendEntriesResponse \<comment> \<open>leader, follower\<close>
  | SnapHeader string string "nat \<times> nat \<times> nat" \<comment> \<open>leader, follower, what was read under the lock\<close>
  | ISReq string string transfer nat \<comment> \<open>leader, follower, transfer, offset\<close>
  | ISResp string string transfer nat InstallSnapshotResponse

record 's cluster =
  nd :: "string \<Rightarrow> 's Node"
  net :: "message set"
  counted :: "(string \<times> nat \<times> string) set"
  granted :: "(nat \<times> string \<times> string) set" \<comment> \<open>term, voter, candidate\<close>
  elected :: "(nat \<times> string) set"

definition send :: "message \<Rightarrow> 's cluster \<Rightarrow> 's cluster" where
  "send m c = c\<lparr>net := insert m (net c)\<rparr>"

definition put_node :: "string \<Rightarrow> 's Node \<Rightarrow> 's cluster \<Rightarrow> 's cluster" where
  "put_node i n c =
     c\<lparr>nd := (nd c)(i := n),
       granted := (if votedFor n \<noteq> '''' then insert (currentTerm n, i, votedFor n) (granted c) else granted c),
       elected := (if role n = RoleLeader then insert (currentTerm n, i) (elected c) else elected c)\<rparr>"

definition peers_of :: "string list \<Rightarrow> string \<Rightarrow> (string \<times> string) list" where
  "peers_of ids i = map (\<lambda>p. (p, p)) (filter (\<lambda>p. p \<noteq> i) ids)"

definition cluster_init :: "'s PersistentState \<Rightarrow> 's \<Rightarrow> string list \<Rightarrow> 's cluster" where
  "cluster_init ps s0 ids =
     \<lparr>nd = (\<lambda>i. case Start ps (NewNode i (peers_of ids i) s0) of
                  Some n \<Rightarrow> n | None \<Rightarrow> NewNode i (peers_of ids i) s0),
      net = {}, counted = {}, granted = {}, elected = {}\<rparr>"

inductive cluster_step :: "('s \<Rightarrow> 's option) option \<Rightarrow> 's PersistentState \<Rightarrow> string list \<Rightarrow> 's cluster \<Rightarrow> 's cluster \<Rightarrow> bool"
  for faults ps ids c where
  election_tick: "i \<in> set ids \<Longrightarrow> cluster_step faults ps ids c (put_node i (run_election_tick ps (nd c i)) c)"
| heartbeat_tick: "i \<in> set ids \<Longrightarrow> cluster_step faults ps ids c (put_node i (run_heartbeat_tick (nd c i)) c)"
| propose: "i \<in> set ids \<Longrightarrow> cluster_step faults ps ids c (put_node i (snd (Propose ps data (nd c i))) c)"
| compact: "faults \<noteq> None \<Longrightarrow> i \<in> set ids \<Longrightarrow> CommandMsg e \<in> set (ApplyCh (nd c i)) \<Longrightarrow>
    cluster_step faults ps ids c (put_node i (snd (CompactLog ps data (le_index e) (le_term e) (nd c i))) c)"
| restart_node: "faults = Some reopen \<Longrightarrow> i \<in> set ids \<Longrightarrow> reopen (storage (nd c i)) = Some s \<Longrightarrow>
    restart ps ((nd c i)\<lparr>storage := s\<rparr>) = Some n \<Longrightarrow>
    cluster_step faults ps ids c (put_node i n c)"
| send_vote_request: "i \<in> set ids \<Longrightarrow> GoRequestVote p req \<in> set (goroutines (nd c i)) \<Longrightarrow>
    cluster_step faults ps ids c (send (RVReq p req) c)"
| handle_vote_request: "RVReq p req \<in> net c \<Longrightarrow> HandleRequestVote ps req (nd c p) = (resp, n) \<Longrightarrow>
    cluster_step faults ps ids c (send (RVResp (rv_CandidateId req) (rv_Term req) p resp) (put_node p n c))"
| handle_vote_reply: "RVResp i t p resp \<in> net c \<Longrightarrow> (i, t, p) \<notin> counted c \<Longrightarrow>
    cluster_step faults ps ids c ((put_node i (vote_reply ps t resp (nd c i)) c)\<lparr>counted := insert (i, t, p) (counted c)\<rparr>)"
| send_append: "i \<in> set ids \<Longrightarrow> GoReplicate p \<in> set (goroutines (nd c i)) \<Longrightarrow>
    replicate_begin p (nd c i) = ReplicateAppend req \<Longrightarrow> cluster_step faults ps ids c (send (AEReq p req) c)"
| handle_append: "AEReq p req \<in> net c \<Longrightarrow> p \<in> set ids \<Longrightarrow> HandleAppendEntries ps req (nd c p) = (resp, n) \<Longrightarrow>
    cluster_step faults ps ids c (send (AEResp (ae_LeaderId req) p req resp) (put_node p n c))"
| handle_append_reply: "AEResp i p req resp \<in> net c \<Longrightarrow> i \<in> set ids \<Longrightarrow>
    cluster_step faults ps ids c (put_node i (replicate_finish ps p req resp (nd c i)) c)"
| begin_snapshot: "i \<in> set ids \<Longrightarrow> GoReplicate p \<in> set (goroutines (nd c i)) \<Longrightarrow>
    replicate_begin p (nd c i) = ReplicateSnapshot \<Longrightarrow> snapshot_begin (nd c i) = Some hdr \<Longrightarrow>
    cluster_step faults ps ids c (send (SnapHeader i p hdr) c)"
| load_snapshot: "SnapHeader i p hdr \<in> net c \<Longrightarrow> snapshot_load ps hdr (storage (nd c i)) = Some tr \<Longrightarrow>
    cluster_step faults ps ids c (send (ISReq i p tr 0) c)"
| handle_snapshot: "ISReq i p tr off \<in> net c \<Longrightarrow> p \<in> set ids \<Longrightarrow>
    HandleInstallSnapshot ps (snapshot_chunk i tr off) (nd c p) = (resp, n) \<Longrightarrow>
    cluster_step faults ps ids c (send (ISResp i p tr off resp) (put_node p n c))"
| handle_snapshot_reply: "ISResp i p tr off resp \<in> net c \<Longrightarrow> i \<in> set ids \<Longrightarrow>
    snapshot_reply ps p tr (is_Done (snapshot_chunk i tr off)) resp (nd c i) = (again, n) \<Longrightarrow>
    cluster_step faults ps ids c
      (let c1 = put_node i n c in if again then send (ISReq i p tr (off + snapshotChunkSize)) c1 else c1)"

inductive cluster_run :: "('s \<Rightarrow> 's option) option \<Rightarrow> 's PersistentState \<Rightarrow> 's \<Rightarrow> string list \<Rightarrow> 's cluster \<Rightarrow> bool" for faults ps s0 ids where
  run_init: "cluster_run faults ps s0 ids (cluster_init ps s0 ids)"
| run_step: "cluster_run faults ps s0 ids c \<Longrightarrow> cluster_step faults ps ids c c' \<Longrightarrow> cluster_run faults ps s0 ids c'"

definition valid_ids :: "string list \<Rightarrow> bool" where
  "valid_ids ids \<longleftrightarrow> distinct ids \<and> '''' \<notin> set ids"

definition voters :: "'s cluster \<Rightarrow> string list \<Rightarrow> nat \<Rightarrow> string \<Rightarrow> string set" where
  "voters c ids t i = {p \<in> set ids. (t, p, i) \<in> granted c}"

section \<open>Quorums\<close>

lemma quorums_meet:
  assumes "A \<subseteq> set ids" "B \<subseteq> set ids" "length ids div 2 + 1 \<le> card A" "length ids div 2 + 1 \<le> card B"
  shows "A \<inter> B \<noteq> {}"
proof
  assume "A \<inter> B = {}"
  then have "card (A \<union> B) = card A + card B"
    using assms(1,2) by (intro card_Un_disjoint) (auto intro: finite_subset)
  moreover have "card (A \<union> B) \<le> length ids"
    using assms(1,2) by (meson Un_least card_length card_mono finite_set le_trans)
  ultimately show False using assms(3,4) by linarith
qed

lemma quorum_ids:
  assumes "distinct ids" "i \<in> set ids" "map fst (Peers n) = filter (\<lambda>p. p \<noteq> i) ids"
  shows "quorum n = length ids div 2 + 1"
proof -
  have "length (Peers n) = length (filter (\<lambda>p. p \<noteq> i) ids)" using assms(3) by (metis length_map)
  also have "\<dots> = card (set ids - {i})"
    using assms(1) by (simp add: distinct_card[symmetric] set_diff_eq)
  also have "\<dots> = length ids - 1" using assms(1,2) by (simp add: distinct_card)
  finally show ?thesis using assms(2) by (cases ids) (auto simp: quorum_def Let_def)
qed

section \<open>Election safety\<close>

text \<open>
  The invariant, in three parts: of a node relative to the history, of the history, and of the
  messages in flight.
\<close>

definition ballots :: "'s cluster \<Rightarrow> string list \<Rightarrow> nat \<Rightarrow> string \<Rightarrow> string set" where
  "ballots c ids t i = {p \<in> set ids. p \<noteq> i \<and> (i, t, p) \<in> counted c \<and> (t, p, i) \<in> granted c}"

definition node_ok :: "string list \<Rightarrow> 's cluster \<Rightarrow> string \<Rightarrow> 's Node \<Rightarrow> bool" where
  "node_ok ids c i n \<longleftrightarrow> nodeID n = i \<and> map fst (Peers n) = filter (\<lambda>p. p \<noteq> i) ids
     \<and> (role n \<noteq> RoleFollower \<longrightarrow> votedFor n = i)
     \<and> (role n = RoleCandidate \<longrightarrow> votes n (currentTerm n) \<le> 1 + card (ballots c ids (currentTerm n) i))
     \<and> (\<forall>(p, r) \<in> vote_requests n. p \<in> set ids \<and> p \<noteq> i \<and> rv_CandidateId r = i)
     \<and> (votedFor n \<noteq> '''' \<longrightarrow> (currentTerm n, i, votedFor n) \<in> granted c)
     \<and> (role n = RoleLeader \<longrightarrow> (currentTerm n, i) \<in> elected c)"

definition history_ok :: "string list \<Rightarrow> 's cluster \<Rightarrow> bool" where
  "history_ok ids c \<longleftrightarrow>
     (\<forall>(t, p, i) \<in> granted c. t \<le> currentTerm (nd c p) \<and> i \<noteq> ''''
        \<and> (t = currentTerm (nd c p) \<longrightarrow> votedFor (nd c p) = i))
     \<and> (\<forall>t p i j. (t, p, i) \<in> granted c \<longrightarrow> (t, p, j) \<in> granted c \<longrightarrow> i = j)
     \<and> (\<forall>(t, i) \<in> elected c. i \<in> set ids \<and> length ids div 2 + 1 \<le> card (voters c ids t i))"

definition net_ok :: "string list \<Rightarrow> 's cluster \<Rightarrow> bool" where
  "net_ok ids c \<longleftrightarrow>
     (\<forall>p r. RVReq p r \<in> net c \<longrightarrow> p \<in> set ids \<and> rv_CandidateId r \<in> set ids \<and> p \<noteq> rv_CandidateId r)
     \<and> (\<forall>i t p resp. RVResp i t p resp \<in> net c \<longrightarrow> i \<in> set ids \<and> p \<in> set ids \<and> p \<noteq> i
          \<and> (rvr_VoteGranted resp \<longrightarrow> (t, p, i) \<in> granted c))"

definition election_inv :: "string list \<Rightarrow> 's cluster \<Rightarrow> bool" where
  "election_inv ids c \<longleftrightarrow> (\<forall>i \<in> set ids. node_ok ids c i (nd c i)) \<and> history_ok ids c \<and> net_ok ids c"

lemma elected_unique:
  assumes "election_inv ids c" "(t, i) \<in> elected c" "(t, j) \<in> elected c" shows "i = j"
proof -
  have H: "history_ok ids c" using assms(1) by (simp add: election_inv_def)
  have "voters c ids t i \<inter> voters c ids t j \<noteq> {}"
    using H assms(2,3) by (intro quorums_meet) (auto simp: voters_def history_ok_def)
  then show ?thesis using H unfolding history_ok_def voters_def by blast
qed

lemma granted_put: "granted c \<subseteq> granted (put_node i n c)"
  by (auto simp: put_node_def)

lemma put_node_sel [simp]:
  "nd (put_node i n c) = (nd c)(i := n)" "net (put_node i n c) = net c" "counted (put_node i n c) = counted c"
  by (simp_all add: put_node_def)

lemma nd_send [simp]: "nd (send m c) = nd c"
  by (simp add: send_def)

lemma voters_mono: "granted c \<subseteq> granted c' \<Longrightarrow> card (voters c ids t i) \<le> card (voters c' ids t i)"
  by (intro card_mono) (auto simp: voters_def)

lemma ballots_mono:
  "granted c \<subseteq> granted c' \<Longrightarrow> counted c \<subseteq> counted c' \<Longrightarrow> card (ballots c ids t i) \<le> card (ballots c' ids t i)"
  by (intro card_mono) (auto simp: ballots_def)

lemma node_ok_mono:
  assumes "node_ok ids c i n" "granted c \<subseteq> granted c'" "counted c \<subseteq> counted c'" "elected c \<subseteq> elected c'"
  shows "node_ok ids c' i n"
  using assms ballots_mono[OF assms(2,3), of ids "currentTerm n" i]
  unfolding node_ok_def by (auto simp: subset_iff)

text \<open>Replacing one node's state by a later one keeps the invariant.\<close>

lemma put_node_inv:
  assumes inv: "election_inv ids c" and i: "i \<in> set ids" and keep: "keeps_vote (nd c i) n"
    and ok: "node_ok ids (put_node i n c) i n"
    and lead: "role n = RoleLeader \<Longrightarrow> (currentTerm n, i) \<in> elected c
      \<or> length ids div 2 + 1 \<le> card (voters (put_node i n c) ids (currentTerm n) i)"
  shows "election_inv ids (put_node i n c)"
proof -
  let ?c = "put_node i n c"
  have g: "granted c \<subseteq> granted ?c" and e: "elected c \<subseteq> elected ?c" by (auto simp: put_node_def)
  have H: "history_ok ids c" using inv by (simp add: election_inv_def)
  have old: "t \<le> currentTerm (nd c p) \<and> j \<noteq> '''' \<and> (t = currentTerm (nd c p) \<longrightarrow> votedFor (nd c p) = j)"
    if "(t, p, j) \<in> granted c" for t p j using H that by (auto simp: history_ok_def)
  have now: "t \<le> currentTerm n \<and> (t = currentTerm n \<longrightarrow> votedFor n = j)" if "(t, i, j) \<in> granted c" for t j
    using old[OF that] keep unfolding keeps_vote_def by (metis le_antisym le_trans)
  have new: "x \<in> granted c \<or> x = (currentTerm n, i, votedFor n) \<and> votedFor n \<noteq> ''''" if "x \<in> granted ?c" for x
    using that by (auto simp: put_node_def split: if_splits)
  have "history_ok ids ?c"
    unfolding history_ok_def
  proof (intro conjI)
    show "\<forall>(t, p, j) \<in> granted ?c. t \<le> currentTerm (nd ?c p) \<and> j \<noteq> ''''
        \<and> (t = currentTerm (nd ?c p) \<longrightarrow> votedFor (nd ?c p) = j)"
      using new old now by fastforce
    show "\<forall>t p a b. (t, p, a) \<in> granted ?c \<longrightarrow> (t, p, b) \<in> granted ?c \<longrightarrow> a = b"
    proof (intro allI impI)
      fix t p a b assume ab: "(t, p, a) \<in> granted ?c" "(t, p, b) \<in> granted ?c"
      have fn: "a = b" if "(t, p, a) \<in> granted c" "(t, p, b) \<in> granted c"
        using H that unfolding history_ok_def by blast
      show "a = b" using new[OF ab(1)] new[OF ab(2)] fn now by auto
    qed
    show "\<forall>(t, j) \<in> elected ?c. j \<in> set ids \<and> length ids div 2 + 1 \<le> card (voters ?c ids t j)"
    proof (clarify)
      fix t j assume "(t, j) \<in> elected ?c"
      then consider "(t, j) \<in> elected c" | "t = currentTerm n" "j = i" "role n = RoleLeader"
        by (auto simp: put_node_def split: if_splits)
      then show "j \<in> set ids \<and> length ids div 2 + 1 \<le> card (voters ?c ids t j)"
        using H lead i voters_mono[OF g, of ids t j] unfolding history_ok_def by cases fastforce+
    qed
  qed
  moreover have "\<forall>j \<in> set ids. node_ok ids ?c j (nd ?c j)"
    using inv ok node_ok_mono[OF _ g _ e] by (auto simp: election_inv_def)
  moreover have "net_ok ids ?c" using inv g by (auto simp: election_inv_def net_ok_def)
  ultimately show ?thesis by (simp add: election_inv_def)
qed

lemma calm_inv:
  assumes inv: "election_inv ids c" and i: "i \<in> set ids" and v: "valid_ids ids" and calm: "calm (nd c i) n"
  shows "election_inv ids (put_node i n c)"
proof (rule put_node_inv[OF inv i])
  show keep: "keeps_vote (nd c i) n" using calm by (simp add: calm_def)
  have o: "node_ok ids c i (nd c i)" using inv i by (simp add: election_inv_def)
  have i0: "i \<noteq> ''''" using v i by (auto simp: valid_ids_def)
  have same: "role n = role (nd c i) \<and> currentTerm n = currentTerm (nd c i) \<and> votedFor n = i" if "role n \<noteq> RoleFollower"
    using calm that o i0 unfolding calm_def keeps_vote_def node_ok_def by metis
  show "role n = RoleLeader \<Longrightarrow> (currentTerm n, i) \<in> elected c
      \<or> length ids div 2 + 1 \<le> card (voters (put_node i n c) ids (currentTerm n) i)"
    using same o by (auto simp: node_ok_def)
  have keep': "nodeID n = i" "map fst (Peers n) = filter (\<lambda>p. p \<noteq> i) ids" "vote_requests n = vote_requests (nd c i)"
    "votes n = votes (nd c i)" using o calm by (simp_all add: node_ok_def calm_def keeps_vote_def)
  have hist: "votedFor n \<noteq> [] \<Longrightarrow> (currentTerm n, i, votedFor n) \<in> granted (put_node i n c)"
    "role n = RoleLeader \<Longrightarrow> (currentTerm n, i) \<in> elected (put_node i n c)" by (simp_all add: put_node_def)
  have "votes n (currentTerm n) \<le> 1 + card (ballots (put_node i n c) ids (currentTerm n) i)" if "role n = RoleCandidate"
    using o same that keep'(4) ballots_mono[OF granted_put[of c i n], of ids "currentTerm n" i]
    by (auto simp: node_ok_def)
  then show "node_ok ids (put_node i n c) i n"
    unfolding node_ok_def keep' using o same hist by (simp add: node_ok_def)
qed

text \<open>Starting an election: a new term with the node's own vote.\<close>

lemma run_election_tick_cases:
  assumes "role n \<noteq> RoleLeader"
  shows "keeps_vote n (run_election_tick ps n)" and "currentTerm (run_election_tick ps n) = Suc (currentTerm n)"
    and "votedFor (run_election_tick ps n) = nodeID n"
    and "role (run_election_tick ps n) = (if 1 \<ge> quorum n then RoleLeader else RoleCandidate)"
    and "votes (run_election_tick ps n) (Suc (currentTerm n)) = 1"
    and "vote_requests (run_election_tick ps n) \<subseteq> vote_requests n
      \<union> {(p, r). p \<in> fst ` set (Peers n) \<and> rv_CandidateId r = nodeID n}"
  using assms
  by (auto simp: run_election_tick_def startElection_def becomeLeader_def resetElectionTimer_def
      resetHeartbeatTimer_def sendHeartbeats_def store_def keeps_vote_def vote_requests_def quorum_def Let_def)

lemma voters_self:
  assumes "i \<in> set ids" "(t, i, i) \<in> granted c"
  shows "1 + card (ballots c ids t i) \<le> card (voters c ids t i)"
proof -
  have "insert i (ballots c ids t i) \<subseteq> voters c ids t i" using assms by (auto simp: ballots_def voters_def)
  moreover have "i \<notin> ballots c ids t i" "finite (ballots c ids t i)" "finite (voters c ids t i)"
    by (auto simp: ballots_def voters_def)
  ultimately show ?thesis by (metis card_insert_disjoint card_mono plus_1_eq_Suc)
qed

lemma election_tick_inv:
  assumes inv: "election_inv ids c" and i: "i \<in> set ids" and v: "valid_ids ids"
  shows "election_inv ids (put_node i (run_election_tick ps (nd c i)) c)"
proof (cases "role (nd c i) = RoleLeader")
  case True
  then have "calm (nd c i) (run_election_tick ps (nd c i))"
    by (simp add: run_election_tick_def calm_def keeps_vote_def vote_requests_def Let_def)
  then show ?thesis by (rule calm_inv[OF inv i v])
next
  case False
  let ?n = "run_election_tick ps (nd c i)" let ?c = "put_node i ?n c"
  note t = run_election_tick_cases[OF False, of ps]
  have o: "node_ok ids c i (nd c i)" using inv i by (simp add: election_inv_def)
  have i0: "i \<noteq> ''''" using v i by (auto simp: valid_ids_def)
  have id: "nodeID (nd c i) = i" and peers: "map fst (Peers (nd c i)) = filter (\<lambda>p. p \<noteq> i) ids"
    using o by (simp_all add: node_ok_def)
  have q: "quorum (nd c i) = length ids div 2 + 1"
    using quorum_ids[OF _ i peers] v by (simp add: valid_ids_def)
  have self: "(currentTerm ?n, i, i) \<in> granted ?c" using t(3) id i0 by (simp add: put_node_def)
  have keep: "nodeID ?n = i" "map fst (Peers ?n) = filter (\<lambda>p. p \<noteq> i) ids"
    using t(1) id peers by (simp_all add: keeps_vote_def)
  have "fst ` set (Peers (nd c i)) = set (filter (\<lambda>p. p \<noteq> i) ids)" using peers by (metis set_map)
  then have reqs: "\<forall>(p, r) \<in> vote_requests ?n. p \<in> set ids \<and> p \<noteq> i \<and> rv_CandidateId r = i"
    using t(6) o id unfolding node_ok_def by fastforce
  show ?thesis
  proof (rule put_node_inv[OF inv i t(1)])
    show "node_ok ids ?c i ?n"
      unfolding node_ok_def using keep reqs self t(2,3,5) id by (simp add: put_node_def)
    show "(currentTerm ?n, i) \<in> elected c \<or> length ids div 2 + 1 \<le> card (voters ?c ids (currentTerm ?n) i)"
      if "role ?n = RoleLeader"
      using that t(4) q voters_self[OF i self] by (auto split: if_splits)
  qed
qed

text \<open>Counting a vote: the counter never exceeds the distinct granted ballots.\<close>

lemma vote_reply_cases:
  assumes "\<not> (rvr_Term resp \<le> currentTerm n \<and> rvr_VoteGranted resp \<and> role n = RoleCandidate \<and> currentTerm n = t)"
  shows "calm n (vote_reply ps t resp n)"
  using assms
  by (auto simp: vote_reply_def becomeFollower_def resetElectionTimer_def store_def calm_def keeps_vote_def
      vote_requests_def Let_def)

lemma vote_reply_count:
  assumes "rvr_Term resp \<le> currentTerm n" "rvr_VoteGranted resp" "role n = RoleCandidate" "currentTerm n = t"
  shows "keeps_vote n (vote_reply ps t resp n)" "currentTerm (vote_reply ps t resp n) = t"
    "votedFor (vote_reply ps t resp n) = votedFor n" "vote_requests (vote_reply ps t resp n) = vote_requests n"
    "votes (vote_reply ps t resp n) t = Suc (votes n t)"
    "role (vote_reply ps t resp n) = (if quorum n \<le> Suc (votes n t) then RoleLeader else RoleCandidate)"
  using assms
  by (auto simp: vote_reply_def becomeLeader_def resetHeartbeatTimer_def sendHeartbeats_def keeps_vote_def
      vote_requests_def quorum_def Let_def)

lemma run_election_tick_vote: "votedFor (run_election_tick ps n) = votedFor n \<or> votedFor (run_election_tick ps n) = nodeID n"
  by (simp add: run_election_tick_def startElection_def becomeLeader_def resetElectionTimer_def
      resetHeartbeatTimer_def sendHeartbeats_def store_def Let_def)

lemma vote_reply_vote: "votedFor (vote_reply ps t resp n) = votedFor n \<or> votedFor (vote_reply ps t resp n) = ''''"
  by (simp add: vote_reply_def becomeLeader_def becomeFollower_def resetElectionTimer_def
      resetHeartbeatTimer_def sendHeartbeats_def store_def Let_def)

lemma put_node_counted: "(put_node i n c)\<lparr>counted := x\<rparr> = put_node i n (c\<lparr>counted := x\<rparr>)"
  by (simp add: put_node_def)

lemma counted_inv:
  assumes "election_inv ids c" shows "election_inv ids (c\<lparr>counted := insert x (counted c)\<rparr>)"
proof -
  have "node_ok ids (c\<lparr>counted := insert x (counted c)\<rparr>) i n" if "node_ok ids c i n" for i n
    using that by (rule node_ok_mono) auto
  then show ?thesis using assms by (auto simp: election_inv_def history_ok_def net_ok_def voters_def)
qed

lemma vote_reply_inv:
  assumes inv: "election_inv ids c" and v: "valid_ids ids"
    and m: "RVResp i t p resp \<in> net c" and fresh: "(i, t, p) \<notin> counted c"
  shows "election_inv ids ((put_node i (vote_reply ps t resp (nd c i)) c)\<lparr>counted := insert (i, t, p) (counted c)\<rparr>)"
proof -
  let ?d = "c\<lparr>counted := insert (i, t, p) (counted c)\<rparr>" let ?n = "vote_reply ps t resp (nd c i)"
  let ?c = "put_node i ?n ?d"
  have i: "i \<in> set ids" and p: "p \<in> set ids" "p \<noteq> i" and g: "rvr_VoteGranted resp \<Longrightarrow> (t, p, i) \<in> granted c"
    using inv m by (auto simp: election_inv_def net_ok_def)
  have invd: "election_inv ids ?d" by (rule counted_inv[OF inv])
  have o: "node_ok ids c i (nd c i)" using inv i by (simp add: election_inv_def)
  have i0: "i \<noteq> ''''" using v i by (auto simp: valid_ids_def)
  show ?thesis
  proof (cases "rvr_Term resp \<le> currentTerm (nd c i) \<and> rvr_VoteGranted resp \<and> role (nd c i) = RoleCandidate
      \<and> currentTerm (nd c i) = t")
    case False
    then show ?thesis
      unfolding put_node_counted using calm_inv[OF invd i v, of ?n] vote_reply_cases[of resp "nd c i" t ps] by simp
  next
    case True
    then have k: "rvr_Term resp \<le> currentTerm (nd c i)" "rvr_VoteGranted resp" "role (nd c i) = RoleCandidate"
      "currentTerm (nd c i) = t" by auto
    note r = vote_reply_count[OF k, of ps]
    have self: "(t, i, i) \<in> granted c" "votedFor (nd c i) = i" using o k(3,4) i0 by (auto simp: node_ok_def)
    have sub: "insert p (ballots c ids t i) \<subseteq> ballots ?c ids t i"
      using p g[OF k(2)] by (auto simp: ballots_def put_node_def)
    have "p \<notin> ballots c ids t i" using fresh by (auto simp: ballots_def)
    moreover have "finite (ballots c ids t i)" "finite (ballots ?c ids t i)" by (auto simp: ballots_def)
    ultimately have "Suc (card (ballots c ids t i)) \<le> card (ballots ?c ids t i)"
      using card_mono[OF _ sub] by simp
    moreover have "votes (nd c i) t \<le> 1 + card (ballots c ids t i)" using o k(3,4) by (auto simp: node_ok_def)
    ultimately have cnt: "votes ?n t \<le> 1 + card (ballots ?c ids t i)" using r(5) by simp
    have self': "(t, i, i) \<in> granted ?c" using self(1) by (simp add: put_node_def)
    have q: "quorum (nd c i) = length ids div 2 + 1"
      using quorum_ids[OF _ i, of "nd c i"] v o unfolding valid_ids_def node_ok_def by blast
    show ?thesis
      unfolding put_node_counted
    proof (rule put_node_inv[OF invd i])
      show "keeps_vote (nd ?d i) ?n" using r(1) by simp
      have keep: "nodeID ?n = i" "map fst (Peers ?n) = filter (\<lambda>p. p \<noteq> i) ids" "votedFor ?n = i"
        "\<forall>(p, r) \<in> vote_requests ?n. p \<in> set ids \<and> p \<noteq> i \<and> rv_CandidateId r = i"
        using o r(1,3,4) self(2) by (simp_all add: node_ok_def keeps_vote_def)
      have led: "role ?n = RoleLeader \<Longrightarrow> (currentTerm ?n, i) \<in> elected ?c" by (simp add: put_node_def)
      show "node_ok ids ?c i ?n"
        unfolding node_ok_def using keep cnt r(2) self' led by simp
      show "(currentTerm ?n, i) \<in> elected ?d \<or> length ids div 2 + 1 \<le> card (voters ?c ids (currentTerm ?n) i)"
        if "role ?n = RoleLeader"
        using that r(2,5,6) q cnt voters_self[OF i self'] by (auto split: if_splits)
    qed
  qed
qed

lemma send_inv:
  assumes "election_inv ids c" and "net_ok ids (send m c)"
  shows "election_inv ids (send m c)"
  using assms by (auto simp: election_inv_def send_def node_ok_def history_ok_def voters_def ballots_def)

fun not_vote :: "message \<Rightarrow> bool" where
  "not_vote (RVReq p r) = False"
| "not_vote (RVResp i t p r) = False"
| "not_vote m = True"

lemma send_other_inv: "election_inv ids c \<Longrightarrow> not_vote m \<Longrightarrow> election_inv ids (send m c)"
  by (rule send_inv) (auto simp: election_inv_def net_ok_def send_def)

lemma HandleRequestVote_grant:
  assumes "HandleRequestVote ps req n = (resp, n')" and "rvr_VoteGranted resp"
  shows "currentTerm n' = rv_Term req \<and> votedFor n' = rv_CandidateId req"
  using assms
  by (auto simp: HandleRequestVote_def becomeFollower_def resetElectionTimer_def store_def Let_def
      split: if_splits)

context hard_storage
begin

definition cluster_inv :: "string list \<Rightarrow> 's cluster \<Rightarrow> bool" where
  "cluster_inv ids c \<longleftrightarrow> election_inv ids c \<and> (\<forall>i \<in> set ids. coherent (nd c i) \<and> votedFor (nd c i) \<in> insert '''' (set ids))"

lemma cluster_inv_safe:
  assumes "cluster_inv ids c" "i \<in> set ids" "valid_ids ids" "safe_step (nd c i) n"
  shows "cluster_inv ids (put_node i n c)"
  using assms calm_inv[of ids c i n] by (auto simp: cluster_inv_def safe_step_def)

lemma cluster_inv_send_other:
  "cluster_inv ids c \<Longrightarrow> not_vote m \<Longrightarrow> cluster_inv ids (send m c)"
  using send_other_inv[of ids c m] by (auto simp: cluster_inv_def send_def)

lemma cluster_inv_restart:
  assumes inv: "cluster_inv ids c" and i: "i \<in> set ids" and ok: "\<forall>j \<in> set ids. okid j"
    and re: "reopen (storage (nd c i)) = Some s" and r: "restart ps ((nd c i)\<lparr>storage := s\<rparr>) = Some n"
  shows "cluster_inv ids (put_node i n c)"
proof -
  have o: "node_ok ids c i (nd c i)" and coh: "coherent (nd c i)"
    using inv i by (auto simp: cluster_inv_def election_inv_def)
  have v: "votedFor (nd c i) \<in> insert '''' (set ids)" using inv i by (auto simp: cluster_inv_def)
  then have "okid (votedFor (nd c i))" using ok ok_empty by auto
  moreover have "coherent ((nd c i)\<lparr>storage := s\<rparr>)" using coh reopen_hard[OF _ re] by (simp add: coherent_def)
  ultimately have h: "coherent n" "currentTerm n = currentTerm (nd c i)" "votedFor n = votedFor (nd c i)" "role n = RoleFollower"
    "nodeID n = nodeID (nd c i)" "Peers n = Peers (nd c i)" "goroutines n = []"
    using restart_hard[OF _ _ r] by simp_all
  have "election_inv ids (put_node i n c)"
    using inv i
  proof (intro put_node_inv)
    show "keeps_vote (nd c i) n" using h by (simp add: keeps_vote_def)
    show "node_ok ids (put_node i n c) i n"
      using o h unfolding node_ok_def by (auto simp: put_node_def vote_requests_def)
  qed (use h in \<open>auto simp: cluster_inv_def\<close>)
  then show ?thesis using inv h v by (auto simp: cluster_inv_def)
qed

lemma cluster_inv_vote_request:
  assumes inv: "cluster_inv ids c" and v: "valid_ids ids" and m: "RVReq p req \<in> net c"
    and h: "HandleRequestVote ps req (nd c p) = (resp, n)"
  shows "cluster_inv ids (send (RVResp (rv_CandidateId req) (rv_Term req) p resp) (put_node p n c))"
proof -
  have p: "p \<in> set ids" "rv_CandidateId req \<in> set ids" "p \<noteq> rv_CandidateId req"
    using inv m by (auto simp: cluster_inv_def election_inv_def net_ok_def)
  have inv': "cluster_inv ids (put_node p n c)"
    using inv p calm_inv[OF _ p(1) v] safe_HandleRequestVote[of "nd c p" req] h by (auto simp: cluster_inv_def)
  have "rv_CandidateId req \<noteq> ''''" using v p(2) by (auto simp: valid_ids_def)
  then have "(rv_Term req, p, rv_CandidateId req) \<in> granted (put_node p n c)" if "rvr_VoteGranted resp"
    using HandleRequestVote_grant[OF h that] by (auto simp: put_node_def)
  then have "net_ok ids (send (RVResp (rv_CandidateId req) (rv_Term req) p resp) (put_node p n c))"
    using inv' p by (auto simp: cluster_inv_def election_inv_def net_ok_def send_def)
  then show ?thesis using inv' send_inv by (auto simp: cluster_inv_def)
qed

lemma cluster_inv_step:
  assumes "cluster_step faults ps ids c c'" and inv: "cluster_inv ids c" and v: "valid_ids ids"
    and ok: "\<forall>j \<in> set ids. okid j" and f: "faults \<in> {None, Some reopen}"
  shows "cluster_inv ids c'"
  using assms(1)
proof cases
  case (election_tick i)
  moreover have "nodeID (nd c i) = i" using inv election_tick by (auto simp: cluster_inv_def election_inv_def node_ok_def)
  ultimately show ?thesis
    using inv election_tick_inv[OF _ _ v] coherent_run_election_tick run_election_tick_vote[of ps "nd c i"]
    by (auto simp: cluster_inv_def)
next
  case (restart_node re i s n)
  then show ?thesis using f cluster_inv_restart[OF inv _ ok] by simp
next
  case (send_vote_request i p req)
  then have "p \<in> set ids \<and> p \<noteq> i \<and> rv_CandidateId req = i"
    using inv by (auto simp: cluster_inv_def election_inv_def node_ok_def vote_requests_def)
  then have "net_ok ids (send (RVReq p req) c)"
    using inv send_vote_request by (auto simp: cluster_inv_def election_inv_def net_ok_def send_def)
  then show ?thesis using inv send_inv send_vote_request by (auto simp: cluster_inv_def send_def)
next
  case (handle_vote_request p req resp n)
  then show ?thesis using cluster_inv_vote_request[OF inv v] by simp
next
  case (handle_vote_reply i t p resp)
  then show ?thesis
    using inv vote_reply_inv[OF _ v] coherent_vote_reply vote_reply_vote[of ps t resp "nd c i"]
    by (auto simp: cluster_inv_def)
next
  case (handle_append p req resp n)
  then show ?thesis
    using cluster_inv_send_other[OF cluster_inv_safe[OF inv _ v]] safe_HandleAppendEntries[of "nd c p" req] by simp
next
  case (handle_snapshot i p tr off resp n)
  then show ?thesis
    using cluster_inv_send_other[OF cluster_inv_safe[OF inv _ v]]
      safe_HandleInstallSnapshot[of "nd c p" "snapshot_chunk i tr off"] by simp
next
  case (handle_snapshot_reply i p tr off resp again n)
  then have "cluster_inv ids (put_node i n c)"
    using cluster_inv_safe[OF inv _ v]
      safe_snapshot_reply[of "nd c i" p tr "is_Done (snapshot_chunk i tr off)" resp] by simp
  then show ?thesis using handle_snapshot_reply cluster_inv_send_other by (simp add: Let_def)
qed (use inv v cluster_inv_safe cluster_inv_send_other safe_heartbeat safe_Propose safe_CompactLog
      safe_replicate_finish in auto)

lemma cluster_inv_init:
  assumes v: "valid_ids ids" and s0: "srel s0 (0, '''')"
  shows "cluster_inv ids (cluster_init ps s0 ids)"
proof -
  have n: "nodeID n = i \<and> Peers n = peers_of ids i \<and> role n = RoleFollower \<and> votedFor n = ''''
      \<and> goroutines n = [] \<and> coherent n" if "n = nd (cluster_init ps s0 ids) i" for n i
    using that s0 load_hard[OF s0] ok_empty
    by (auto simp: cluster_init_def Start_def NewNode_def resetElectionTimer_def coherent_def Let_def
        split: option.splits)
  have "map fst (peers_of ids i) = filter (\<lambda>p. p \<noteq> i) ids" for i by (simp add: peers_of_def o_def)
  then show ?thesis
    using n by (auto simp: cluster_inv_def election_inv_def node_ok_def history_ok_def net_ok_def
        vote_requests_def) (simp_all add: cluster_init_def)
qed

lemma cluster_run_inv:
  "cluster_run faults ps s0 ids c \<Longrightarrow> valid_ids ids \<Longrightarrow> \<forall>j \<in> set ids. okid j \<Longrightarrow> srel s0 (0, '''') \<Longrightarrow>
   faults \<in> {None, Some reopen} \<Longrightarrow> cluster_inv ids c"
  by (induction rule: cluster_run.induct) (auto intro: cluster_inv_init cluster_inv_step)

lemma one_leader_per_term:
  assumes run: "cluster_run faults ps s0 ids c" "valid_ids ids" "\<forall>j \<in> set ids. okid j" "srel s0 (0, '''')"
      "faults \<in> {None, Some reopen}"
    and i: "i \<in> set ids" "role (nd c i) = RoleLeader"
  shows "(\<forall>j. (currentTerm (nd c i), j) \<in> elected c \<longrightarrow> j = i)
    \<and> (\<forall>j \<in> set ids. role (nd c j) = RoleLeader \<and> currentTerm (nd c j) = currentTerm (nd c i) \<longrightarrow> j = i)"
proof -
  have inv: "election_inv ids c" using cluster_run_inv[OF run] by (simp add: cluster_inv_def)
  have "(currentTerm (nd c j), j) \<in> elected c" if "j \<in> set ids" "role (nd c j) = RoleLeader" for j
    using that inv by (auto simp: election_inv_def node_ok_def)
  then show ?thesis using elected_unique[OF inv] i by metis
qed

end

section \<open>Properties\<close>

text \<open>
  A run of three nodes in which the first one wins an election with the second one's vote.
\<close>

definition sample_ids :: "string list" where
  "sample_ids = [''a'', ''b'', ''c'']"

definition sample_vote_request :: RequestVoteRequest where
  "sample_vote_request = \<lparr>rv_Term = 1, rv_CandidateId = ''a'', rv_LastLogIndex = 0, rv_LastLogTerm = 0\<rparr>"

definition sample_init :: "memState cluster" where
  "sample_init = cluster_init memState_ops newMemState sample_ids"

definition sample_candidate :: "memState cluster" where
  "sample_candidate = put_node ''a'' (run_election_tick memState_ops (nd sample_init ''a'')) sample_init"

definition sample_request :: "memState cluster" where
  "sample_request = send (RVReq ''b'' sample_vote_request) sample_candidate"

definition sample_vote :: "RequestVoteResponse \<times> memState Node" where
  "sample_vote = HandleRequestVote memState_ops sample_vote_request (nd sample_request ''b'')"

definition sample_voted :: "memState cluster" where
  "sample_voted = send (RVResp ''a'' 1 ''b'' (fst sample_vote)) (put_node ''b'' (snd sample_vote) sample_request)"

definition sample_elected :: "memState cluster" where
  "sample_elected =
     (put_node ''a'' (vote_reply memState_ops 1 (fst sample_vote) (nd sample_voted ''a'')) sample_voted)
       \<lparr>counted := insert (''a'', 1, ''b'') (counted sample_voted)\<rparr>"

lemma sample_init_node:
  "i \<in> set sample_ids \<Longrightarrow> nd sample_init i = (NewNode i (peers_of sample_ids i) newMemState)\<lparr>electionTimer := True\<rparr>"
  by (simp add: sample_init_def cluster_init_def Start_def memState_defs NewNode_def newMemState_def
      resetElectionTimer_def)

lemma sample_candidate_node:
  "role (nd sample_candidate ''a'') = RoleCandidate" "currentTerm (nd sample_candidate ''a'') = 1"
  "votes (nd sample_candidate ''a'') 1 = 1" "length (Peers (nd sample_candidate ''a'')) = 2"
  "GoRequestVote ''b'' sample_vote_request \<in> set (goroutines (nd sample_candidate ''a''))"
  by (simp_all add: sample_candidate_def sample_init_node sample_ids_def NewNode_def peers_of_def
      run_election_tick_def startElection_def store_def resetElectionTimer_def quorum_def lastLogIndex_def
      lastLogTerm_def sentinel_def sample_vote_request_def)

lemma sample_vote_granted: "fst sample_vote = \<lparr>rvr_Term = 1, rvr_VoteGranted = True\<rparr>"
  by (simp add: sample_vote_def sample_request_def sample_candidate_def sample_init_node sample_ids_def
      NewNode_def HandleRequestVote_def becomeFollower_def store_def resetElectionTimer_def
      candidateLogUpToDate_def lastLogIndex_def lastLogTerm_def sentinel_def sample_vote_request_def Let_def)

lemma sample_run: "cluster_run faults memState_ops newMemState sample_ids sample_elected"
proof -
  have ids: "''a'' \<in> set sample_ids" by (simp add: sample_ids_def)
  have "cluster_run faults memState_ops newMemState sample_ids sample_init"
    unfolding sample_init_def by (rule run_init)
  from run_step[OF this election_tick[OF ids]]
  have "cluster_run faults memState_ops newMemState sample_ids sample_candidate"
    unfolding sample_candidate_def .
  from run_step[OF this send_vote_request[OF ids sample_candidate_node(5)]]
  have r2: "cluster_run faults memState_ops newMemState sample_ids sample_request"
    unfolding sample_request_def .
  have "RVReq ''b'' sample_vote_request \<in> net sample_request" by (simp add: sample_request_def send_def)
  moreover have "HandleRequestVote memState_ops sample_vote_request (nd sample_request ''b'')
      = (fst sample_vote, snd sample_vote)" by (simp add: sample_vote_def)
  ultimately have "cluster_step faults memState_ops sample_ids sample_request
      (send (RVResp (rv_CandidateId sample_vote_request) (rv_Term sample_vote_request) ''b'' (fst sample_vote))
        (put_node ''b'' (snd sample_vote) sample_request))"
    by (rule handle_vote_request)
  then have "cluster_step faults memState_ops sample_ids sample_request sample_voted"
    by (simp add: sample_voted_def sample_vote_request_def)
  note r3 = run_step[OF r2 this]
  have "RVResp ''a'' 1 ''b'' (fst sample_vote) \<in> net sample_voted" by (simp add: sample_voted_def send_def)
  moreover have "(''a'', 1, ''b'') \<notin> counted sample_voted"
    by (simp add: sample_voted_def sample_request_def sample_candidate_def sample_init_def cluster_init_def send_def)
  ultimately show ?thesis
    unfolding sample_elected_def by (rule run_step[OF r3 handle_vote_reply])
qed

lemma sample_valid: "valid_ids sample_ids"
  by (simp add: valid_ids_def sample_ids_def)

lemma sample_leader: "role (nd sample_elected ''a'') = RoleLeader"
proof -
  have "nd sample_voted ''a'' = nd sample_candidate ''a''" by (simp add: sample_voted_def sample_request_def)
  then show ?thesis
    using sample_candidate_node(1-4)
    by (simp add: sample_elected_def vote_reply_def sample_vote_granted becomeLeader_def sendHeartbeats_def
        resetHeartbeatTimer_def quorum_def Let_def)
qed

text \<open>
  C1: election safety. In every run of a cluster, with any loss, delay, duplication and
  reordering of messages and any number of crashes and restarts, no two nodes ever lead in the
  same term: neither two current leaders, nor a current leader and a node that led in that term
  at some earlier point of the run.
\<close>

theorem election_safety:
  assumes "cluster_run (Some Some) memState_ops newMemState ids c" and "valid_ids ids"
    and "i \<in> set ids" and "role (nd c i) = RoleLeader"
  shows "(\<forall>j. (currentTerm (nd c i), j) \<in> elected c \<longrightarrow> j = i)
    \<and> (\<forall>j \<in> set ids. role (nd c j) = RoleLeader \<and> currentTerm (nd c j) = currentTerm (nd c i) \<longrightarrow> j = i)"
  by (rule ms.one_leader_per_term[OF assms(1,2) _ _ _ assms(3,4)]) (simp_all add: newMemState_def)

theorem election_safety_witness:
  "role (nd sample_elected ''a'') = RoleLeader
    \<and> (currentTerm (nd sample_elected ''a''), ''b'') \<notin> elected sample_elected
    \<and> (currentTerm (nd sample_elected ''a''), ''c'') \<notin> elected sample_elected"
  using election_safety[OF sample_run sample_valid, of "''a''"] sample_leader
  by (auto simp: sample_ids_def)

end
