(* ===== verification/KV_Timers.thy ===== *)
theory KV_Timers
  imports KV_Cluster
begin

text \<open>
  The timers of a Raft node never go missing: a node that does not lead has its election timer
  armed and a leader its heartbeat timer, after every step of every handler. An idle cluster
  therefore always has an event its loops will handle.
\<close>

section \<open>Every handler keeps the timers\<close>

definition timers_ok :: "'s Node \<Rightarrow> bool" where
  "timers_ok n \<longleftrightarrow> (if role n = RoleLeader then heartbeatTimer n else electionTimer n)"

named_theorems timer_simps

lemma timers_upd [simp]:
  "timers_ok (n\<lparr>log := l\<rparr>) = timers_ok n" "timers_ok (n\<lparr>storage := s\<rparr>) = timers_ok n"
  "timers_ok (n\<lparr>commitIndex := k\<rparr>) = timers_ok n" "timers_ok (n\<lparr>ApplyCh := a\<rparr>) = timers_ok n"
  "timers_ok (n\<lparr>recvSnapshot := r\<rparr>) = timers_ok n" "timers_ok (n\<lparr>nextIndex := m\<rparr>) = timers_ok n"
  "timers_ok (n\<lparr>matchIndex := m\<rparr>) = timers_ok n" "timers_ok (n\<lparr>goroutines := g\<rparr>) = timers_ok n"
  "timers_ok (n\<lparr>lastIncludedIndex := k\<rparr>) = timers_ok n" "timers_ok (n\<lparr>lastIncludedTerm := k\<rparr>) = timers_ok n"
  "timers_ok (n\<lparr>votes := v\<rparr>) = timers_ok n" "timers_ok (n\<lparr>votedFor := x\<rparr>) = timers_ok n"
  "timers_ok (n\<lparr>leaderID := x\<rparr>) = timers_ok n"
  by (simp_all add: timers_ok_def)

lemma timers_becomeFollower [timer_simps]: "timers_ok (becomeFollower ps t n)"
  by (simp add: timers_ok_def becomeFollower_def resetElectionTimer_def store_def Let_def)

lemma timers_becomeLeader [timer_simps]: "timers_ok (becomeLeader n)"
  by (simp add: timers_ok_def becomeLeader_def resetHeartbeatTimer_def sendHeartbeats_def Let_def)

lemma timers_follow_leader [timer_simps]: "timers_ok (follow_leader ps t l n)"
  by (simp add: timers_ok_def follow_leader_def becomeFollower_def resetElectionTimer_def store_def Let_def)

lemma timers_store [timer_simps]: "timers_ok (store f n) = timers_ok n"
  by (simp add: timers_ok_def store_def)

lemma timers_advance [timer_simps]: "timers_ok (advanceCommitTo k n) = timers_ok n"
  by (simp add: timers_ok_def advanceCommitTo_def Let_def)

lemma timers_advance_loop [timer_simps]: "timers_ok (advance_loop i n) = timers_ok n"
  by (induction i) (simp_all add: timer_simps Let_def split: option.split)

lemma timers_append_loop [timer_simps]: "timers_ok (append_loop ps i es n) = timers_ok n"
proof (induction ps i es n rule: append_loop.induct)
  case (2 ps idx entry es n)
  then show ?case by (cases "logPos idx n") (simp_all add: timers_store Let_def)
qed simp

lemma timers_startElection [timer_simps]: "timers_ok (startElection ps n)"
  by (simp add: startElection_def Let_def timers_becomeLeader)
    (simp add: timers_ok_def resetElectionTimer_def store_def)

lemma timers_election_tick: "timers_ok n \<Longrightarrow> timers_ok (run_election_tick ps n)"
  by (simp add: run_election_tick_def Let_def timer_simps) (simp add: timers_ok_def)

lemma timers_heartbeat_tick: "timers_ok n \<Longrightarrow> timers_ok (run_heartbeat_tick n)"
  by (simp add: run_heartbeat_tick_def timers_ok_def resetHeartbeatTimer_def sendHeartbeats_def Let_def)

lemma timers_vote_reply: "timers_ok n \<Longrightarrow> timers_ok (vote_reply ps t resp n)"
  by (simp add: vote_reply_def timer_simps Let_def)

lemma timers_HandleRequestVote: "timers_ok n \<Longrightarrow> timers_ok (snd (HandleRequestVote ps req n))"
  using timers_becomeFollower[of ps "rv_Term req" n]
  by (auto simp: HandleRequestVote_def timers_ok_def store_def resetElectionTimer_def Let_def)

lemma timers_accept_entries: "timers_ok n \<Longrightarrow> timers_ok (accept_entries ps req n)"
  by (simp add: accept_entries_def timer_simps Let_def)

lemma timers_HandleAppendEntries: "timers_ok n \<Longrightarrow> timers_ok (snd (HandleAppendEntries ps req n))"
  by (auto simp: HandleAppendEntries_def timers_accept_entries timer_simps Let_def split: option.splits prod.splits)

lemma timers_install: "timers_ok n \<Longrightarrow> timers_ok (snd (install_snapshot ps r n))"
  by (auto simp: install_snapshot_def timer_simps Let_def)

lemma timers_HandleInstallSnapshot: "timers_ok n \<Longrightarrow> timers_ok (snd (HandleInstallSnapshot ps req n))"
proof -
  assume n: "timers_ok n"
  have f: "timers_ok (follow_leader ps (is_Term req) (is_LeaderId req) n)" by (rule timers_follow_leader)
  have i: "timers_ok n4" if "install_snapshot ps r n3 = (ok, n4)" "timers_ok n3" for ok r n3 n4
    using timers_install[OF that(2), of ps r] that(1) by simp
  show ?thesis
    using n f by (auto simp: HandleInstallSnapshot_def Let_def dest!: i split: option.split prod.split)
qed

lemma timers_Propose: "timers_ok n \<Longrightarrow> timers_ok (snd (Propose ps data n))"
  by (simp add: Propose_def maybeAdvanceCommit_def timer_simps Let_def)

lemma timers_CompactLog: "timers_ok n \<Longrightarrow> timers_ok (snd (CompactLog ps data i t n))"
  by (auto simp: CompactLog_def timer_simps Let_def)

lemma timers_replicate_finish: "timers_ok n \<Longrightarrow> timers_ok (replicate_finish ps p req resp n)"
  by (simp add: replicate_finish_def maybeAdvanceCommit_def timer_simps Let_def)

lemma timers_snapshot_reply: "timers_ok n \<Longrightarrow> timers_ok (snd (snapshot_reply ps p tr d resp n))"
  by (auto simp: snapshot_reply_def timer_simps)

lemma timers_Start: "Start ps n = Some n' \<Longrightarrow> role n = RoleFollower \<Longrightarrow> timers_ok n'"
  by (auto simp: Start_def timers_ok_def resetElectionTimer_def Let_def split: option.splits if_splits)

section \<open>Every step of a cluster keeps the timers\<close>

lemma timers_put [simp]: "nd (put_node i n c) j = (if j = i then n else nd c j)"
  by (simp add: put_node_def)

lemma timers_step:
  assumes "cluster_step faults ps ids c c'" and t: "\<forall>i. timers_ok (nd c i)"
  shows "\<forall>i. timers_ok (nd c' i)"
  using assms(1)
proof cases
  case (restart_node reopen i s n)
  then show ?thesis using t timers_Start by (fastforce simp: restart_def NewNode_def)
next
  case (handle_vote_request p req resp n)
  then show ?thesis using t timers_HandleRequestVote[of "nd c p" ps req] by simp
next
  case (handle_append p req resp n)
  then show ?thesis using t timers_HandleAppendEntries[of "nd c p" ps req] by simp
next
  case (handle_snapshot i p tr off resp n)
  then show ?thesis using t timers_HandleInstallSnapshot[of "nd c p" ps "snapshot_chunk i tr off"] by simp
next
  case (handle_snapshot_reply i p tr off resp again n)
  then show ?thesis
    using t timers_snapshot_reply[of "nd c i" ps p tr "is_Done (snapshot_chunk i tr off)" resp] by (simp add: Let_def)
qed (use t in \<open>simp_all add: timers_election_tick timers_heartbeat_tick timers_Propose timers_CompactLog timers_vote_reply
       timers_replicate_finish\<close>)

lemma timers_run:
  "cluster_run faults ps s0 ids c \<Longrightarrow> \<forall>i. timers_ok (nd (cluster_init ps s0 ids) i) \<Longrightarrow> \<forall>i. timers_ok (nd c i)"
  by (induction rule: cluster_run.induct) (use timers_step in blast)+

section \<open>Properties\<close>



end
