(* ===== verification/KV_Json.thy ===== *)
theory KV_Json
  imports KV_Prelude
begin

text \<open>
  The part of Go's \<open>encoding/json\<close> (and \<open>encoding/base64\<close>, \<open>unicode/utf8\<close>) the program uses: the
  encoder of strings, of \<open>uint64\<close> and of byte slices, and the decoder: a parser of JSON documents
  with the unquoting of strings. How a document is stored into the two structs the program
  codes this way is with the structs, in \<open>KV_WalState\<close> and \<open>KV_StateMachine\<close>.
\<close>

section \<open>Characters and runes\<close>

abbreviation code :: "char \<Rightarrow> nat" where
  "code c \<equiv> of_char c"

definition dquote :: char where "dquote = CHR 0x22"
definition bslash :: char where "bslash = CHR 0x5C"

definition cont_byte :: "char \<Rightarrow> bool" where
  "cont_byte c \<longleftrightarrow> 0x80 \<le> code c \<and> code c \<le> 0xBF"

text \<open>The range of the second byte after a given first byte.\<close>

definition rune_range :: "nat \<Rightarrow> char \<Rightarrow> bool" where
  "rune_range b c \<longleftrightarrow>
     (if b = 0xE0 then 0xA0 else if b = 0xF0 then 0x90 else 0x80) \<le> code c
     \<and> code c \<le> (if b = 0xED then 0x9F else if b = 0xF4 then 0x8F else 0xBF)"

text \<open>The size of the rune a string starts with, \<open>None\<close> when \<open>utf8.DecodeRune\<close> reports an error.\<close>

definition utf8_size :: "string \<Rightarrow> nat option" where
  "utf8_size s =
     (case s of
        [] \<Rightarrow> None
      | c # r \<Rightarrow>
          let b = code c
          in if b < 0x80 then Some 1
             else if 0xC2 \<le> b \<and> b \<le> 0xDF then
               (case r of c1 # _ \<Rightarrow> if cont_byte c1 then Some 2 else None | _ \<Rightarrow> None)
             else if 0xE0 \<le> b \<and> b \<le> 0xEF then
               (case r of c1 # c2 # _ \<Rightarrow> if rune_range b c1 \<and> cont_byte c2 then Some 3 else None
                | _ \<Rightarrow> None)
             else if 0xF0 \<le> b \<and> b \<le> 0xF4 then
               (case r of c1 # c2 # c3 # _ \<Rightarrow>
                    if rune_range b c1 \<and> cont_byte c2 \<and> cont_byte c3 then Some 4 else None
                | _ \<Rightarrow> None)
             else None)"

definition replacement :: string where
  "replacement = [CHR 0xEF, CHR 0xBF, CHR 0xBD]"

text \<open>\<open>utf8.EncodeRune\<close>.\<close>

definition encode_rune :: "nat \<Rightarrow> string" where
  "encode_rune r =
     (if r < 0x80 then [char_of r]
      else if r < 0x800 then [char_of (0xC0 + r div 64), char_of (0x80 + r mod 64)]
      else if r > 0x10FFFF \<or> 0xD800 \<le> r \<and> r < 0xE000 then replacement
      else if r < 0x10000 then [char_of (0xE0 + r div 4096), char_of (0x80 + r div 64 mod 64), char_of (0x80 + r mod 64)]
      else [char_of (0xF0 + r div 262144), char_of (0x80 + r div 4096 mod 64), char_of (0x80 + r div 64 mod 64),
            char_of (0x80 + r mod 64)])"

function valid_utf8 :: "string \<Rightarrow> bool" where
  "valid_utf8 s \<longleftrightarrow> s = [] \<or> (case utf8_size s of None \<Rightarrow> False | Some n \<Rightarrow> valid_utf8 (drop n s))"
  by pat_completeness auto
termination
  by (relation "measure length")
    (auto simp: utf8_size_def Let_def split: list.splits if_splits)

declare valid_utf8.simps [simp del]

section \<open>Encoding\<close>

definition hex_digit :: "nat \<Rightarrow> char" where
  "hex_digit n = (if n < 10 then char_of (48 + n) else char_of (87 + n))"

definition html_safe :: "char \<Rightarrow> bool" where
  "html_safe c \<longleftrightarrow> 0x20 \<le> code c \<and> code c < 0x80 \<and> c \<noteq> dquote \<and> c \<noteq> bslash
     \<and> c \<noteq> CHR ''<'' \<and> c \<noteq> CHR ''>'' \<and> c \<noteq> CHR ''&''"

definition escape_char :: "char \<Rightarrow> string" where
  "escape_char c =
     (if c = bslash \<or> c = dquote then [bslash, c]
      else if code c = 8 then [bslash, CHR ''b'']
      else if code c = 12 then [bslash, CHR ''f'']
      else if code c = 10 then [bslash, CHR ''n'']
      else if code c = 13 then [bslash, CHR ''r'']
      else if code c = 9 then [bslash, CHR ''t'']
      else bslash # ''u00'' @ [hex_digit (code c div 16), hex_digit (code c mod 16)])"

text \<open>\<open>appendString\<close> with HTML escaping, without the enclosing quotes.\<close>

function escape :: "string \<Rightarrow> string" where
  "escape [] = []"
| "escape (c # r) =
     (if code c < 0x80 then (if html_safe c then [c] else escape_char c) @ escape r
      else
        case utf8_size (c # r) of
          None \<Rightarrow> bslash # ''ufffd'' @ escape r
        | Some n \<Rightarrow>
            (if take n (c # r) = [CHR 0xE2, CHR 0x80, CHR 0xA8] then bslash # ''u2028''
             else if take n (c # r) = [CHR 0xE2, CHR 0x80, CHR 0xA9] then bslash # ''u2029''
             else take n (c # r)) @ escape (drop (n - 1) r))"
  by pat_completeness auto
termination
  by (relation "measure length") auto

definition json_string :: "string \<Rightarrow> string" where
  "json_string s = dquote # escape s @ [dquote]"

definition dec_string :: "nat \<Rightarrow> string" where
  "dec_string n = fixed_digits (dec_width n) n"

definition b64_char :: "nat \<Rightarrow> char" where
  "b64_char n =
     (if n < 26 then char_of (65 + n) else if n < 52 then char_of (71 + n)
      else if n < 62 then char_of (n - 4) else if n = 62 then CHR ''+'' else CHR ''/'')"

fun b64_encode :: "bytes \<Rightarrow> string" where
  "b64_encode [] = []"
| "b64_encode [a] = [b64_char (unat a div 4), b64_char (unat a mod 4 * 16), CHR ''='', CHR ''='']"
| "b64_encode [a, b] =
     [b64_char (unat a div 4), b64_char (unat a mod 4 * 16 + unat b div 16), b64_char (unat b mod 16 * 4), CHR ''='']"
| "b64_encode (a # b # c # r) =
     b64_char (unat a div 4) # b64_char (unat a mod 4 * 16 + unat b div 16)
       # b64_char (unat b mod 16 * 4 + unat c div 64) # b64_char (unat c mod 64) # b64_encode r"

section \<open>Decoding\<close>

definition hex_value :: "char \<Rightarrow> nat option" where
  "hex_value c =
     (if 48 \<le> code c \<and> code c \<le> 57 then Some (code c - 48)
      else if 97 \<le> code c \<and> code c \<le> 102 then Some (code c - 87)
      else if 65 \<le> code c \<and> code c \<le> 70 then Some (code c - 55) else None)"

fun hex4 :: "string \<Rightarrow> (nat \<times> string) option" where
  "hex4 (a # b # c # d # r) =
     (case (hex_value a, hex_value b, hex_value c, hex_value d) of
        (Some w, Some x, Some y, Some z) \<Rightarrow> Some (4096 * w + 256 * x + 16 * y + z, r)
      | _ \<Rightarrow> None)"
| "hex4 _ = None"

definition unescape_char :: "char \<Rightarrow> char option" where
  "unescape_char e =
     (if e = dquote \<or> e = bslash \<or> e = CHR ''/'' then Some e
      else if e = CHR ''b'' then Some (CHR 0x08)
      else if e = CHR ''f'' then Some (CHR 0x0C)
      else if e = CHR ''n'' then Some (CHR 0x0A)
      else if e = CHR ''r'' then Some (CHR 0x0D)
      else if e = CHR ''t'' then Some (CHR 0x09) else None)"

text \<open>A \<open>\u\<close> escape that is the first half of a surrogate pair takes the second half with it.\<close>

definition pair_rune :: "nat \<Rightarrow> string \<Rightarrow> nat \<times> string" where
  "pair_rune v r =
     (if 0xD800 \<le> v \<and> v < 0xE000 then
        (case r of
           a # u # r1 \<Rightarrow>
             if a = bslash \<and> u = CHR ''u'' then
               (case hex4 r1 of
                  Some (w, r2) \<Rightarrow>
                    if v < 0xDC00 \<and> 0xDC00 \<le> w \<and> w < 0xE000
                    then (0x10000 + 1024 * (v - 0xD800) + (w - 0xDC00), r2) else (0xFFFD, r)
                | None \<Rightarrow> (0xFFFD, r))
             else (0xFFFD, r)
         | _ \<Rightarrow> (0xFFFD, r))
      else (v, r))"

lemma hex4_length: "hex4 s = Some (v, r) \<Longrightarrow> length r < length s"
  by (induction s rule: hex4.induct) (auto split: option.splits)

lemma pair_rune_length: "pair_rune v r = (u, r') \<Longrightarrow> length r' \<le> length r"
  by (auto simp: pair_rune_def split: list.splits option.splits if_splits) (auto dest!: hex4_length)

definition prepend :: "string \<Rightarrow> (string \<times> string) option \<Rightarrow> (string \<times> string) option" where
  "prepend u x = map_option (\<lambda>(s, rest). (u @ s, rest)) x"

text \<open>The contents of a string literal after its opening quote, unquoted, and what follows it.\<close>

function parse_str :: "string \<Rightarrow> (string \<times> string) option" where
  "parse_str [] = None"
| "parse_str (c # r) =
     (if c = dquote then Some ([], r)
      else if c = bslash then
        (case r of
           [] \<Rightarrow> None
         | e # r1 \<Rightarrow>
             if e = CHR ''u'' then
               (case hex4 r1 of
                  None \<Rightarrow> None
                | Some (v, r2) \<Rightarrow> (case pair_rune v r2 of (u, r3) \<Rightarrow> prepend (encode_rune u) (parse_str r3)))
             else (case unescape_char e of None \<Rightarrow> None | Some x \<Rightarrow> prepend [x] (parse_str r1)))
      else if code c < 0x20 then None
      else
        (case utf8_size (c # r) of
           None \<Rightarrow> prepend replacement (parse_str r)
         | Some n \<Rightarrow> prepend (take n (c # r)) (parse_str (drop (n - 1) r))))"
  by pat_completeness auto
termination
  by (relation "measure length") (auto dest!: hex4_length pair_rune_length[OF sym])

definition skip_ws :: "string \<Rightarrow> string" where
  "skip_ws s = dropWhile (\<lambda>c. code c = 32 \<or> code c = 9 \<or> code c = 13 \<or> code c = 10) s"

definition expect :: "char \<Rightarrow> string \<Rightarrow> string option" where
  "expect c s = (case skip_ws s of [] \<Rightarrow> None | d # r \<Rightarrow> if d = c then Some r else None)"

definition digits1 :: "string \<Rightarrow> (string \<times> string) option" where
  "digits1 s = (if takeWhile is_digit s = [] then None else Some (takeWhile is_digit s, dropWhile is_digit s))"

definition int_part :: "string \<Rightarrow> (string \<times> string) option" where
  "int_part s = (case s of [] \<Rightarrow> None | c # r \<Rightarrow> if c = CHR ''0'' then Some ([c], r) else digits1 s)"

definition frac_part :: "string \<Rightarrow> (string \<times> string) option" where
  "frac_part s =
     (case s of c # r \<Rightarrow> if c = CHR ''.'' then prepend [c] (digits1 r) else Some ([], s) | [] \<Rightarrow> Some ([], s))"

definition exp_part :: "string \<Rightarrow> (string \<times> string) option" where
  "exp_part s =
     (case s of
        c # r \<Rightarrow>
          if c = CHR ''e'' \<or> c = CHR ''E'' then
            (case r of
               d # r1 \<Rightarrow> if d = CHR ''+'' \<or> d = CHR ''-'' then prepend [c, d] (digits1 r1) else prepend [c] (digits1 r)
             | [] \<Rightarrow> None)
          else Some ([], s)
      | [] \<Rightarrow> Some ([], s))"

text \<open>The lexeme of a number and what follows it.\<close>

definition parse_num :: "string \<Rightarrow> (string \<times> string) option" where
  "parse_num s =
     (let (sign, r) = (case s of c # r \<Rightarrow> if c = CHR ''-'' then ([c], r) else ([], s) | [] \<Rightarrow> ([], s))
      in case int_part r of
           None \<Rightarrow> None
         | Some (i, r1) \<Rightarrow>
             (case frac_part r1 of
                None \<Rightarrow> None
              | Some (f, r2) \<Rightarrow>
                  (case exp_part r2 of None \<Rightarrow> None | Some (e, r3) \<Rightarrow> Some (sign @ i @ f @ e, r3))))"

datatype json = JNull | JBool bool | JNum string | JStr string | JArr "json list" | JObj "(string \<times> json) list"

definition literal :: "string \<Rightarrow> json \<Rightarrow> string \<Rightarrow> (json \<times> string) option" where
  "literal lit v s = (if take (length lit) s = lit then Some (v, drop (length lit) s) else None)"

text \<open>
  The parser proper. \<open>d\<close> is the nesting depth that is left of the decoder's limit. Every call has
  consumed a character since the call two levels above it, so twice the length of the input is
  enough of the first argument, which bounds the recursion.
\<close>

fun parse_value :: "nat \<Rightarrow> nat \<Rightarrow> string \<Rightarrow> (json \<times> string) option"
and parse_elems :: "nat \<Rightarrow> nat \<Rightarrow> string \<Rightarrow> (json list \<times> string) option"
and parse_members :: "nat \<Rightarrow> nat \<Rightarrow> string \<Rightarrow> ((string \<times> json) list \<times> string) option" where
  "parse_value 0 d s = None"
| "parse_value (Suc n) d s =
     (case skip_ws s of
        [] \<Rightarrow> None
      | c # r \<Rightarrow>
          if c = dquote then map_option (\<lambda>(x, rest). (JStr x, rest)) (parse_str r)
          else if c = CHR ''{'' then
            (if d = 0 then None
             else case expect (CHR ''}'') r of
                    Some rest \<Rightarrow> Some (JObj [], rest)
                  | None \<Rightarrow> map_option (\<lambda>(ms, rest). (JObj ms, rest)) (parse_members n (d - 1) r))
          else if c = CHR ''['' then
            (if d = 0 then None
             else case expect (CHR '']'') r of
                    Some rest \<Rightarrow> Some (JArr [], rest)
                  | None \<Rightarrow> map_option (\<lambda>(vs, rest). (JArr vs, rest)) (parse_elems n (d - 1) r))
          else if c = CHR ''t'' then literal ''true'' (JBool True) (c # r)
          else if c = CHR ''f'' then literal ''false'' (JBool False) (c # r)
          else if c = CHR ''n'' then literal ''null'' JNull (c # r)
          else map_option (\<lambda>(x, rest). (JNum x, rest)) (parse_num (c # r)))"
| "parse_elems 0 d s = None"
| "parse_elems (Suc n) d s =
     (case parse_value n d s of
        None \<Rightarrow> None
      | Some (v, r) \<Rightarrow>
          (case expect (CHR '','') r of
             Some r1 \<Rightarrow> map_option (\<lambda>(vs, rest). (v # vs, rest)) (parse_elems n d r1)
           | None \<Rightarrow> map_option (\<lambda>rest. ([v], rest)) (expect (CHR '']'') r)))"
| "parse_members 0 d s = None"
| "parse_members (Suc n) d s =
     (case expect dquote s of
        None \<Rightarrow> None
      | Some r \<Rightarrow>
          (case parse_str r of
             None \<Rightarrow> None
           | Some (k, r1) \<Rightarrow>
               (case expect (CHR '':'') r1 of
                  None \<Rightarrow> None
                | Some r2 \<Rightarrow>
                    (case parse_value n d r2 of
                       None \<Rightarrow> None
                     | Some (v, r3) \<Rightarrow>
                         (case expect (CHR '','') r3 of
                            Some r4 \<Rightarrow> map_option (\<lambda>(ms, rest). ((k, v) # ms, rest)) (parse_members n d r4)
                          | None \<Rightarrow> map_option (\<lambda>rest. ([(k, v)], rest)) (expect (CHR ''}'') r3))))))"

definition maxNestingDepth :: nat where
  "maxNestingDepth = 10000"

definition parse_json :: "bytes \<Rightarrow> json option" where
  "parse_json data =
     (let s = bytes_string data
      in case parse_value (2 * length s + 2) maxNestingDepth s of
           None \<Rightarrow> None
         | Some (v, rest) \<Rightarrow> if skip_ws rest = [] then Some v else None)"

text \<open>
  Field names are matched up to case folding: ASCII letters, and the two other runes that fold
  to an ASCII letter (the Kelvin sign and the long s).
\<close>

fun fold_name :: "string \<Rightarrow> string" where
  "fold_name (a # b # c # r) =
     (if [a, b, c] = [CHR 0xE2, CHR 0x84, CHR 0xAA] then CHR ''K'' # fold_name r
      else if [a, b] = [CHR 0xC5, CHR 0xBF] then CHR ''S'' # fold_name (c # r)
      else (if 97 \<le> code a \<and> code a \<le> 122 then char_of (code a - 32) else a) # fold_name (b # c # r))"
| "fold_name [a, b] =
     (if [a, b] = [CHR 0xC5, CHR 0xBF] then ''S''
      else (if 97 \<le> code a \<and> code a \<le> 122 then char_of (code a - 32) else a) # fold_name [b])"
| "fold_name [a] = [if 97 \<le> code a \<and> code a \<le> 122 then char_of (code a - 32) else a]"
| "fold_name [] = []"

text \<open>\<open>strconv.ParseUint(s, 10, 64)\<close>.\<close>

definition ParseUint :: "string \<Rightarrow> nat option" where
  "ParseUint s =
     (if s \<noteq> [] \<and> list_all is_digit s \<and> digits_value s < 2 ^ 64 then Some (digits_value s) else None)"

definition b64_value :: "char \<Rightarrow> nat option" where
  "b64_value c =
     (if 65 \<le> code c \<and> code c \<le> 90 then Some (code c - 65)
      else if 97 \<le> code c \<and> code c \<le> 122 then Some (code c - 71)
      else if 48 \<le> code c \<and> code c \<le> 57 then Some (code c + 4)
      else if c = CHR ''+'' then Some 62 else if c = CHR ''/'' then Some 63 else None)"

fun b64_quads :: "string \<Rightarrow> bytes option" where
  "b64_quads [] = Some []"
| "b64_quads (a # b # c # d # r) =
     (case (b64_value a, b64_value b) of
        (Some w, Some x) \<Rightarrow>
          if c = CHR ''='' then
            (if d = CHR ''='' \<and> r = [] then Some [word_of_nat (4 * w + x div 16)] else None)
          else
            (case b64_value c of
               None \<Rightarrow> None
             | Some y \<Rightarrow>
                 if d = CHR ''='' then
                   (if r = [] then Some [word_of_nat (4 * w + x div 16), word_of_nat (x mod 16 * 16 + y div 4)] else None)
                 else
                   (case (b64_value d, b64_quads r) of
                      (Some z, Some bs) \<Rightarrow>
                        Some (word_of_nat (4 * w + x div 16) # word_of_nat (x mod 16 * 16 + y div 4)
                          # word_of_nat (y mod 4 * 64 + z) # bs)
                    | _ \<Rightarrow> None))
      | _ \<Rightarrow> None)"
| "b64_quads _ = None"

definition b64_decode :: "string \<Rightarrow> bytes option" where
  "b64_decode s = b64_quads (filter (\<lambda>c. code c \<noteq> 10 \<and> code c \<noteq> 13) s)"

section \<open>Strings round-trip\<close>

declare escape.simps [simp del] parse_str.simps [simp del]

lemma utf8_size_ascii: "code c < 0x80 \<Longrightarrow> utf8_size (c # r) = Some 1"
  by (simp add: utf8_size_def Let_def)

lemma valid_utf8_ascii: "list_all (\<lambda>c. code c < 0x80) s \<Longrightarrow> valid_utf8 s"
  by (induction s) (simp_all add: valid_utf8.simps utf8_size_ascii)

lemma utf8_size_bounds: "utf8_size s = Some n \<Longrightarrow> 0 < n \<and> n \<le> length s"
  by (auto simp: utf8_size_def Let_def split: list.splits if_splits)

lemma utf8_size_take:
  assumes "utf8_size s = Some n" shows "utf8_size (take n s @ rest) = Some n"
proof (cases s)
  case (Cons c r)
  show ?thesis
  proof (cases "code c < 0x80")
    case True
    then have "n = 1" using assms Cons by (simp add: utf8_size_ascii)
    then show ?thesis using True Cons by (simp add: utf8_size_ascii)
  next
    case False
    consider "r = []" | a where "r = [a]" | a b where "r = [a, b]" | a b d q where "r = a # b # d # q"
      by (metis list.exhaust)
    then show ?thesis
      using assms Cons False by cases (auto simp: utf8_size_def Let_def split: if_split_asm)
  qed
qed (use assms in \<open>simp add: utf8_size_def\<close>)

lemma code_eqI: "code c = code d \<Longrightarrow> c = d"
  by simp

lemma separators:
  "char_of (226 :: nat) = CHR 0xE2" "char_of (128 :: nat) = CHR 0x80" "char_of (168 :: nat) = CHR 0xA8"
  "char_of (169 :: nat) = CHR 0xA9"
  by (rule code_eqI, simp)+

lemma hex_value_digit: "n < 16 \<Longrightarrow> hex_value (hex_digit n) = Some n"
  by (simp add: hex_value_def hex_digit_def)

lemma prepend_Some [simp]: "prepend u (Some (s, rest)) = Some (u @ s, rest)"
  by (simp add: prepend_def)

lemma hex4_escape:
  assumes "a < 16" "b < 16"
  shows "hex4 (CHR ''0'' # CHR ''0'' # hex_digit a # hex_digit b # r) = Some (16 * a + b, r)"
  using hex_value_digit[OF assms(1)] hex_value_digit[OF assms(2)] by (simp add: hex_value_def)

lemma parse_unicode_escape:
  assumes "hex4 r1 = Some (v, r2)" "v < 0xD800"
  shows "parse_str (bslash # CHR ''u'' # r1) = prepend (encode_rune v) (parse_str r2)"
  using assms by (subst parse_str.simps) (simp add: bslash_def dquote_def pair_rune_def)

lemma parse_escape_char:
  assumes "code c < 0x80"
  shows "parse_str (escape_char c @ r) = prepend [c] (parse_str r)"
proof -
  have simple: "parse_str (bslash # e # r) = prepend [x] (parse_str r)"
    if "unescape_char e = Some x" "e \<noteq> CHR ''u''" for e x
    using that by (subst parse_str.simps) (simp add: bslash_def dquote_def)
  consider "c = bslash \<or> c = dquote" | "code c = 8" | "code c = 12" | "code c = 10" | "code c = 13" | "code c = 9"
    | "c \<noteq> bslash" "c \<noteq> dquote" "code c \<notin> {8, 12, 10, 13, 9}" by auto
  then show ?thesis
  proof cases
    case 1
    then show ?thesis using simple[of c c] by (auto simp: escape_char_def unescape_char_def bslash_def dquote_def)
  next
    case 2
    then have "c = CHR 0x08" by (intro code_eqI) simp
    then show ?thesis using simple[of "CHR ''b''" c] by (simp add: escape_char_def unescape_char_def bslash_def dquote_def)
  next
    case 3
    then have "c = CHR 0x0C" by (intro code_eqI) simp
    then show ?thesis using simple[of "CHR ''f''" c] by (simp add: escape_char_def unescape_char_def bslash_def dquote_def)
  next
    case 4
    then have "c = CHR 0x0A" by (intro code_eqI) simp
    then show ?thesis using simple[of "CHR ''n''" c] by (simp add: escape_char_def unescape_char_def bslash_def dquote_def)
  next
    case 5
    then have "c = CHR 0x0D" by (intro code_eqI) simp
    then show ?thesis using simple[of "CHR ''r''" c] by (simp add: escape_char_def unescape_char_def bslash_def dquote_def)
  next
    case 6
    then have "c = CHR 0x09" by (intro code_eqI) simp
    then show ?thesis using simple[of "CHR ''t''" c] by (simp add: escape_char_def unescape_char_def bslash_def dquote_def)
  next
    case 7
    have h: "hex4 (CHR ''0'' # CHR ''0'' # hex_digit (code c div 16) # hex_digit (code c mod 16) # r) = Some (code c, r)"
      using hex4_escape[of "code c div 16" "code c mod 16" r] assms by (simp add: less_mult_imp_div_less)
    have "escape_char c @ r
        = bslash # CHR ''u'' # CHR ''0'' # CHR ''0'' # hex_digit (code c div 16) # hex_digit (code c mod 16) # r"
      using 7 by (simp add: escape_char_def)
    then show ?thesis using parse_unicode_escape[OF h] assms by (simp add: encode_rune_def)
  qed
qed

lemma parse_plain:
  assumes "c \<noteq> dquote" "c \<noteq> bslash" "0x20 \<le> code c" "utf8_size (c # r) = Some n"
  shows "parse_str (take n (c # r) @ rest) = prepend (take n (c # r)) (parse_str rest)"
proof -
  obtain k where n: "n = Suc k" "k \<le> length r" using utf8_size_bounds[OF assms(4)] by (cases n) auto
  have "utf8_size (c # take k r @ rest) = Some n" using utf8_size_take[OF assms(4), of rest] n by simp
  then show ?thesis using assms(1-3) n by (simp add: parse_str.simps(2)[of c "take k r @ rest"])
qed

lemma parse_escape: "valid_utf8 s \<Longrightarrow> parse_str (escape s @ dquote # rest) = Some (s, rest)"
proof (induction s rule: escape.induct)
  case 1
  show ?case by (simp add: escape.simps parse_str.simps)
next
  case (2 c r)
  obtain n where n: "utf8_size (c # r) = Some n" "valid_utf8 (drop n (c # r))"
    using "2.prems" by (subst (asm) valid_utf8.simps) (auto split: option.splits)
  show ?case
  proof (cases "code c < 0x80")
    case True
    then have "n = 1" using n(1) by (simp add: utf8_size_ascii)
    then have v: "valid_utf8 r" using n(2) by simp
    let ?u = "if html_safe c then [c] else escape_char c"
    have "parse_str (?u @ X) = prepend [c] (parse_str X)" for X
      using parse_escape_char[OF True] parse_plain[of c X 1 X] True utf8_size_ascii[OF True]
      by (auto simp: html_safe_def)
    then show ?thesis using True "2.IH"(1)[OF True v] by (simp add: escape.simps)
  next
    case False
    obtain k where k: "n = Suc k" using utf8_size_bounds[OF n(1)] by (cases n) auto
    have ih: "parse_str (escape (drop k r) @ dquote # rest) = Some (drop k r, rest)"
      using "2.IH"(3)[OF False n(1)] n(2) k by simp
    let ?h = "take n (c # r)"
    let ?u = "if ?h = [CHR 0xE2, CHR 0x80, CHR 0xA8] then bslash # ''u2028''
       else if ?h = [CHR 0xE2, CHR 0x80, CHR 0xA9] then bslash # ''u2029'' else ?h"
    have esc: "escape (c # r) = ?u @ escape (drop k r)" using False n(1) k by (simp add: escape.simps(2)[of c r])
    have ls: "parse_str (bslash # ''u2028'' @ X) = prepend [CHR 0xE2, CHR 0x80, CHR 0xA8] (parse_str X)"
      "parse_str (bslash # ''u2029'' @ X) = prepend [CHR 0xE2, CHR 0x80, CHR 0xA9] (parse_str X)" for X
      using parse_unicode_escape[of "''2028'' @ X" "0x2028" X] parse_unicode_escape[of "''2029'' @ X" "0x2029" X]
      by (simp_all add: hex_value_def encode_rune_def separators)
    have pl: "parse_str (?h @ X) = prepend ?h (parse_str X)" for X
      by (rule parse_plain[OF _ _ _ n(1)]) (use False in \<open>auto simp: dquote_def bslash_def\<close>)
    have "parse_str (?u @ X) = prepend ?h (parse_str X)" for X using ls pl by simp
    then have "parse_str (escape (c # r) @ dquote # rest) = Some (?h @ drop k r, rest)"
      unfolding esc using ih by simp
    then show ?thesis using k by simp
  qed
qed

section \<open>Numbers, byte slices and members\<close>

lemma dec_width_bound: "n < 10 ^ dec_width n"
proof (induction n rule: dec_width.induct)
  case (1 n)
  show ?case
  proof (cases "n < 10")
    case False
    have "n < 10 * Suc (n div 10)" by (metis dividend_less_times_div zero_less_numeral mult_Suc_right)
    also have "\<dots> \<le> 10 * 10 ^ dec_width (n div 10)" using 1[OF False] by (simp add: Suc_le_eq)
    finally show ?thesis using False by (simp add: dec_width.simps[of n])
  qed (simp add: dec_width.simps[of n])
qed

lemma dec_string_digits: "list_all is_digit (dec_string n)" "dec_string n \<noteq> []" "digits_value (dec_string n) = n"
proof -
  show "list_all is_digit (dec_string n)" by (auto simp: dec_string_def list_all_iff dest: fixed_digits_are_digits)
  have "0 < dec_width n" by (simp add: dec_width.simps[of n])
  then show "dec_string n \<noteq> []" by (metis dec_string_def length_fixed_digits length_0_conv less_irrefl)
  show "digits_value (dec_string n) = n" by (simp add: dec_string_def digits_value_fixed dec_width_bound)
qed

lemma ParseUint_dec: "n < 2 ^ 64 \<Longrightarrow> ParseUint (dec_string n) = Some n"
  using dec_string_digits[of n] by (simp add: ParseUint_def)

text \<open>The only number printed with a leading zero is zero itself.\<close>

lemma fixed_digits_hd: "0 < w \<Longrightarrow> 10 ^ (w - 1) \<le> n \<Longrightarrow> n < 10 ^ w \<Longrightarrow> hd (fixed_digits w n) \<noteq> CHR ''0''"
proof (induction w arbitrary: n)
  case (Suc w)
  show ?case
  proof (cases "w = 0")
    case True
    then have "n < 10" "0 < n" using Suc.prems by auto
    then have "digit n \<noteq> CHR ''0''" using of_char_digit[of n] by auto
    then show ?thesis using True \<open>n < 10\<close> by simp
  next
    case False
    have "10 ^ (w - 1) \<le> n div 10" using Suc.prems(2) False by (cases w) (auto simp: less_eq_div_iff_mult_less_eq)
    moreover have "n div 10 < 10 ^ w" using Suc.prems(3) by (simp add: less_mult_imp_div_less mult.commute)
    ultimately have "hd (fixed_digits w (n div 10)) \<noteq> CHR ''0''" using Suc.IH False by simp
    moreover have "fixed_digits w (n div 10) \<noteq> []" using False by (metis length_fixed_digits list.size(3))
    ultimately show ?thesis by simp
  qed
qed simp

text \<open>What may follow a printed number: anything that would not be read as part of it.\<close>

definition num_end :: "string \<Rightarrow> bool" where
  "num_end s \<longleftrightarrow> (case s of [] \<Rightarrow> True | c # _ \<Rightarrow> \<not> is_digit c \<and> c \<noteq> CHR ''.'' \<and> c \<noteq> CHR ''e'' \<and> c \<noteq> CHR ''E'')"

lemma dec_width_lower: "10 \<le> n \<Longrightarrow> 10 ^ (dec_width n - 1) \<le> n"
proof (induction n rule: dec_width.induct)
  case (1 n)
  show ?case
  proof (cases "n div 10 < 10")
    case True
    then show ?thesis using "1.prems" by (simp add: dec_width.simps[of n] dec_width.simps[of "n div 10"])
  next
    case False
    then have "10 ^ (dec_width (n div 10) - 1) \<le> n div 10" using 1 by simp
    moreover have "0 < dec_width (n div 10)" by (simp add: dec_width.simps[of "n div 10"])
    ultimately have "10 ^ dec_width (n div 10) \<le> n"
      by (cases "dec_width (n div 10)") (auto simp: less_eq_div_iff_mult_less_eq)
    then show ?thesis using "1.prems" by (simp add: dec_width.simps[of n])
  qed
qed

lemma dec_string_hd: "n \<noteq> 0 \<Longrightarrow> hd (dec_string n) \<noteq> CHR ''0''"
proof -
  assume "n \<noteq> 0"
  moreover have "0 < dec_width n" by (simp add: dec_width.simps[of n])
  moreover have "10 ^ (dec_width n - 1) \<le> n"
    using dec_width_lower[of n] \<open>n \<noteq> 0\<close> by (cases "n < 10") (simp_all add: dec_width.simps[of n])
  ultimately show ?thesis using fixed_digits_hd dec_width_bound by (simp add: dec_string_def)
qed

lemma dec_string_0: "dec_string 0 = ''0''"
proof -
  have "digit 0 = CHR ''0''" by (rule code_eqI) (simp add: of_char_digit)
  then show ?thesis by (simp add: dec_string_def dec_width.simps[of 0])
qed

lemma takeWhile_digits:
  assumes "list_all is_digit ds" "num_end rest"
  shows "takeWhile is_digit (ds @ rest) = ds" "dropWhile is_digit (ds @ rest) = rest"
proof -
  have r: "takeWhile is_digit rest = []" "dropWhile is_digit rest = rest"
    using assms(2) by (cases rest; simp add: num_end_def)+
  have "\<forall>c \<in> set ds. is_digit c" using assms(1) by (simp add: list_all_iff)
  then show "takeWhile is_digit (ds @ rest) = ds" "dropWhile is_digit (ds @ rest) = rest"
    using r by simp_all
qed

lemma int_part_dec: "num_end rest \<Longrightarrow> int_part (dec_string n @ rest) = Some (dec_string n, rest)"
proof (cases "n = 0")
  case True
  then show ?thesis by (simp add: dec_string_0 int_part_def)
next
  case False
  assume "num_end rest"
  obtain c cs where d: "dec_string n = c # cs" using dec_string_digits(2) by (meson list.exhaust)
  then have "c \<noteq> CHR ''0''" using dec_string_hd[OF False] by simp
  moreover have "takeWhile is_digit (c # cs @ rest) = c # cs" "dropWhile is_digit (c # cs @ rest) = rest"
    using takeWhile_digits[OF dec_string_digits(1)[of n] \<open>num_end rest\<close>] d by (simp_all del: takeWhile.simps dropWhile.simps)
  ultimately show ?thesis
    using d by (simp add: int_part_def digits1_def del: takeWhile.simps dropWhile.simps)
qed

lemma parse_num_dec: "num_end rest \<Longrightarrow> parse_num (dec_string n @ rest) = Some (dec_string n, rest)"
proof -
  assume e: "num_end rest"
  obtain c cs where d: "dec_string n = c # cs" using dec_string_digits(2) by (meson list.exhaust)
  have "is_digit c" using dec_string_digits(1)[of n] d by simp
  then have "c \<noteq> CHR ''-''" by (auto simp: is_digit_def)
  moreover have "frac_part rest = Some ([], rest)" "exp_part rest = Some ([], rest)"
    using e by (auto simp: frac_part_def exp_part_def num_end_def split: list.split)
  ultimately show ?thesis
    using int_part_dec[OF e, of n] d by (simp add: parse_num_def)
qed

lemma b64_value_char: "n < 64 \<Longrightarrow> b64_value (b64_char n) = Some n"
  by (auto simp: b64_value_def b64_char_def)

lemma b64_char_plain: "n < 64 \<Longrightarrow> b64_char n \<noteq> CHR ''='' \<and> code (b64_char n) \<noteq> 10 \<and> code (b64_char n) \<noteq> 13"
proof -
  assume "n < 64"
  then have "b64_value (b64_char n) \<noteq> None" by (simp add: b64_value_char)
  then show ?thesis by (auto simp: b64_value_def split: if_split_asm)
qed

lemma byte_range: "unat (a :: byte) < 256"
  using unsigned_less[of a] by simp

lemma byte_pieces:
  "unat (b :: byte) div 16 div 16 = 0" "unat (b :: byte) div 16 mod 16 = unat b div 16"
  "unat (b :: byte) div 64 div 4 = 0" "unat (b :: byte) div 64 mod 4 = unat b div 64"
  using byte_range[of b] by simp_all

lemma sextets: "unat a div 4 < 64" "unat a mod 4 * 16 < 64" "unat a mod 4 * 16 + unat b div 16 < 64"
  "unat b mod 16 * 4 < 64" "unat b mod 16 * 4 + unat c div 64 < 64" "unat c mod 64 < 64" for a b c :: byte
proof -
  have "unat b div 16 < 16" "unat c div 64 < 4" "unat a mod 4 < 4" "unat b mod 16 < 16"
    using byte_range[of b] byte_range[of c] by simp_all
  then show "unat a mod 4 * 16 < 64" "unat a mod 4 * 16 + unat b div 16 < 64"
    "unat b mod 16 * 4 < 64" "unat b mod 16 * 4 + unat c div 64 < 64" "unat c mod 64 < 64" by linarith+
  show "unat a div 4 < 64" using byte_range[of a] by simp
qed

lemma b64_roundtrip: "b64_decode (b64_encode bs) = Some bs"
proof -
  have "b64_quads (b64_encode bs) = Some bs"
    by (induction bs rule: b64_encode.induct)
      (simp_all add: b64_value_char b64_char_plain sextets byte_pieces del: of_nat_add of_nat_mult)
  moreover have "filter (\<lambda>c. code c \<noteq> 10 \<and> code c \<noteq> 13) (b64_encode bs) = b64_encode bs"
    by (induction bs rule: b64_encode.induct) (simp_all add: b64_char_plain sextets)
  ultimately show ?thesis by (simp add: b64_decode_def)
qed

section \<open>Objects\<close>

text \<open>
  The encoder of a struct writes its members one after the other; \<open>v\<close> is the encoding of the
  field. \<open>coded v j\<close> says that the text \<open>v\<close> in the place of a member's value reads as \<open>j\<close>.
\<close>

definition json_member :: "string \<times> string \<Rightarrow> string" where
  "json_member m = json_string (fst m) @ CHR '':'' # snd m"

fun json_members :: "(string \<times> string) list \<Rightarrow> string" where
  "json_members [] = []"
| "json_members [m] = json_member m"
| "json_members (m # ms) = json_member m @ CHR '','' # json_members ms"

definition json_object :: "(string \<times> string) list \<Rightarrow> string" where
  "json_object ms = CHR ''{'' # json_members ms @ ''}''"

definition coded :: "string \<Rightarrow> json \<Rightarrow> bool" where
  "coded v j \<longleftrightarrow> (\<forall>n d c rest. c = CHR '','' \<or> c = CHR ''}'' \<longrightarrow> parse_value (Suc n) d (v @ c # rest) = Some (j, c # rest))"

lemma skip_ws_Cons [simp]: "code c \<noteq> 32 \<Longrightarrow> code c \<noteq> 9 \<Longrightarrow> code c \<noteq> 13 \<Longrightarrow> code c \<noteq> 10 \<Longrightarrow> skip_ws (c # s) = c # s"
  by (simp add: skip_ws_def)

lemma expect_same [simp]:
  "code c \<noteq> 32 \<Longrightarrow> code c \<noteq> 9 \<Longrightarrow> code c \<noteq> 13 \<Longrightarrow> code c \<noteq> 10 \<Longrightarrow> expect d (c # s) = (if c = d then Some s else None)"
  by (simp add: expect_def)

lemma coded_string: "valid_utf8 s \<Longrightarrow> coded (json_string s) (JStr s)"
  using parse_escape[of s] by (auto simp: coded_def json_string_def dquote_def)

lemma coded_number: "coded (dec_string n) (JNum (dec_string n))"
  unfolding coded_def
proof (intro allI impI)
  fix k d c rest assume "c = CHR '','' \<or> c = CHR ''}''"
  then have e: "num_end (c # rest)" by (auto simp: num_end_def is_digit_def)
  obtain x xs where d: "dec_string n = x # xs" using dec_string_digits(2) by (meson list.exhaust)
  have "is_digit x" using dec_string_digits(1)[of n] d by simp
  then have b: "48 \<le> code x" "code x \<le> 57" by (simp_all add: is_digit_def)
  then have "x \<noteq> dquote" "x \<noteq> CHR ''{''" "x \<noteq> CHR ''[''" "x \<noteq> CHR ''t''" "x \<noteq> CHR ''f''" "x \<noteq> CHR ''n''"
    by (auto simp: dquote_def)
  then show "parse_value (Suc k) d (dec_string n @ c # rest) = Some (JNum (dec_string n), c # rest)"
    using parse_num_dec[OF e, of n] b d by simp
qed

lemma parse_member:
  assumes "valid_utf8 (fst m) \<and> fst m = fst j \<and> coded (snd m) (snd j)" "c = CHR '','' \<or> c = CHR ''}''"
  shows "parse_members (Suc (Suc n)) d (json_member m @ c # rest) =
    (if c = CHR '','' then map_option (\<lambda>(ms, rest). (j # ms, rest)) (parse_members (Suc n) d rest)
     else Some ([j], rest))"
proof -
  have "parse_value (Suc n) d (snd m @ c # rest) = Some (snd j, c # rest)" using assms unfolding coded_def by blast
  moreover have "parse_str (escape (fst m) @ dquote # CHR '':'' # snd m @ c # rest) = Some (fst j, CHR '':'' # snd m @ c # rest)"
    using assms(1) parse_escape by metis
  ultimately show ?thesis
    using assms(2) by (auto simp: json_member_def json_string_def dquote_def simp del: parse_value.simps)
qed

declare parse_members.simps(2) [simp del]

lemma parse_members_coded:
  assumes "ms \<noteq> []" "list_all2 (\<lambda>m j. valid_utf8 (fst m) \<and> fst m = fst j \<and> coded (snd m) (snd j)) ms js" "length ms < n"
  shows "parse_members n d (json_members ms @ CHR ''}'' # rest) = Some (js, rest)"
  using assms
proof (induction ms arbitrary: js n rule: json_members.induct)
  case (2 m)
  then obtain j k where "js = [j]" "n = Suc (Suc k)" by (auto simp: list_all2_Cons1 less_iff_Suc_add)
  then show ?case using 2 parse_member[of m j "CHR ''}''" k d rest] by auto
next
  case (3 m m' ms)
  obtain j js' k where j: "js = j # js'" "n = Suc (Suc k)"
    using 3(3,4) by (cases n; cases "n - 1") (auto simp: list_all2_Cons1)
  have "parse_members (Suc k) d (json_members (m' # ms) @ CHR ''}'' # rest) = Some (js', rest)"
    by (rule "3.IH") (use 3(3,4) j in simp_all)
  then show ?case using 3(3) j parse_member[of m j "CHR '',''" k d] by auto
qed simp

lemma length_json_members: "length ms \<le> length (json_members ms)"
  by (induction ms rule: json_members.induct) (auto simp: json_member_def json_string_def)

lemma parse_json_object:
  assumes "ms \<noteq> []" "list_all2 (\<lambda>m j. valid_utf8 (fst m) \<and> fst m = fst j \<and> coded (snd m) (snd j)) ms js"
  shows "parse_json (string_bytes (json_object ms)) = Some (JObj js)"
proof -
  have h: "\<exists>r. json_members ms @ ''}'' = dquote # r"
    using assms(1) by (cases ms rule: json_members.cases) (auto simp: json_member_def json_string_def)
  then have "expect (CHR ''}'') (json_members ms @ ''}'') = None" by (auto simp: dquote_def)
  moreover have "parse_members (2 * length (json_object ms) + 1) 9999 (json_members ms @ ''}'') = Some (js, [])"
    using parse_members_coded[OF assms, of "2 * length (json_object ms) + 1" 9999 "[]"] length_json_members[of ms]
    by (simp add: json_object_def)
  ultimately show ?thesis
    by (simp add: parse_json_def maxNestingDepth_def json_object_def dquote_def skip_ws_def Let_def)
qed

end
