(* ===== verification/KV_Wal.thy ===== *)
theory KV_Wal
  imports KV_RaftNode
begin

text \<open>
  The write-ahead log of \<open>wal/wal.go\<close>. Protocol buffer encoding of an entry is third-party code:
  it is the pair of functions \<open>mar\<close> and \<open>unm\<close> every operation takes, and \<open>entry_codes\<close> is what
  a theorem relies on of it. The file system takes every write; \<open>w_buf\<close> is what the buffered
  writer holds back until \<open>Flush\<close>. An operation returns the error, if any, and the new state.
\<close>

unbundle bit_operations_syntax

section \<open>The IEEE checksum\<close>

definition crc_bit :: "32 word \<Rightarrow> 32 word" where
  "crc_bit c = (if odd c then drop_bit 1 c XOR 0xEDB88320 else drop_bit 1 c)"

definition crc_byte :: "32 word \<Rightarrow> byte \<Rightarrow> 32 word" where
  "crc_byte c b = (crc_bit ^^ 8) (c XOR ucast b)"

definition ChecksumIEEE :: "bytes \<Rightarrow> 32 word" where
  "ChecksumIEEE bs = NOT (foldl crc_byte (NOT 0) bs)"

section \<open>State and record format\<close>

definition headerSize :: nat where
  "headerSize = 8"

definition maxSegmentSize :: nat where
  "maxSegmentSize = 8 * 1024 * 1024"

record WAL =
  w_files :: dir
  w_current :: "string option"
  w_buf :: bytes
  w_size :: nat
  w_lastIndex :: nat

datatype wal_error = WalMarshal | WalUnmarshal | WalCreate | WalNilWriter | WalNoFile

type_synonym marshal = "LogEntry \<Rightarrow> bytes option"
type_synonym unmarshal = "bytes \<Rightarrow> LogEntry option"

definition segment_path :: "nat \<Rightarrow> string" where
  "segment_path n = sprintf_016d n @ ''.wal''"

definition encode_record :: "bytes \<Rightarrow> bytes" where
  "encode_record data = PutUint32 (uint32_len data) @ PutUint32 (ChecksumIEEE data) @ data"

text \<open>\<open>writer.Flush\<close> on the current segment.\<close>

definition wal_flush :: "WAL \<Rightarrow> WAL" where
  "wal_flush w =
     (case w_current w of
        None \<Rightarrow> w
      | Some p \<Rightarrow>
          w\<lparr>w_files := dir_put p ((case dir_get (w_files w) p of None \<Rightarrow> [] | Some c \<Rightarrow> c) @ w_buf w) (w_files w),
            w_buf := []\<rparr>)"

definition writeRecord :: "bytes \<Rightarrow> WAL \<Rightarrow> wal_error option \<times> WAL" where
  "writeRecord data w =
     (if w_current w = None then (Some WalNilWriter, w)
      else (None, w\<lparr>w_buf := w_buf w @ encode_record data, w_size := w_size w + (headerSize + length data)\<rparr>))"

definition createSegment :: "nat \<Rightarrow> WAL \<Rightarrow> wal_error option \<times> WAL" where
  "createSegment firstIndex w =
     (let name = segment_path firstIndex
      in if dir_get (w_files w) name \<noteq> None then (Some WalCreate, w)
         else
           (let w1 = wal_flush (w\<lparr>w_files := dir_put name [] (w_files w)\<rparr>)
            in (None, w1\<lparr>w_current := Some name, w_buf := [], w_size := 0\<rparr>)))"

definition rollSegment :: "nat \<Rightarrow> WAL \<Rightarrow> wal_error option \<times> WAL" where
  "rollSegment nextIdx w =
     (if w_current w = None then (Some WalNilWriter, w) else createSegment nextIdx (wal_flush w))"

text \<open>
  \<open>readSegment\<close> on the bytes of a file: it stops at the first record that is cut short or whose
  checksum does not match, and fails only when a record with a good checksum does not decode.
\<close>

function readSegment :: "unmarshal \<Rightarrow> bytes \<Rightarrow> wal_error + LogEntry list" where
  "readSegment unm bs =
     (case ReadFull headerSize bs of
        ReadOk header r1 \<Rightarrow>
          (case ReadFull (unat (Uint32 (take 4 header))) r1 of
             ReadOk data r2 \<Rightarrow>
               if ChecksumIEEE data \<noteq> Uint32 (drop 4 header) then Inr []
               else
                 (case unm data of
                    None \<Rightarrow> Inl WalUnmarshal
                  | Some e \<Rightarrow> (case readSegment unm r2 of Inl err \<Rightarrow> Inl err | Inr es \<Rightarrow> Inr (e # es)))
           | _ \<Rightarrow> Inr [])
      | _ \<Rightarrow> Inr [])"
  by pat_completeness auto
termination
  by (relation "measure (\<lambda>(u, bs). length bs)") (auto simp: headerSize_def dest!: ReadFull_OkD)

declare readSegment.simps [simp del]

definition read_file :: "unmarshal \<Rightarrow> dir \<Rightarrow> string \<Rightarrow> wal_error + LogEntry list" where
  "read_file unm d p = (case dir_get d p of None \<Rightarrow> Inl WalNoFile | Some c \<Rightarrow> readSegment unm c)"

fun read_segments :: "unmarshal \<Rightarrow> dir \<Rightarrow> string list \<Rightarrow> wal_error + LogEntry list" where
  "read_segments unm d [] = Inr []"
| "read_segments unm d (p # ps) =
     (case read_file unm d p of
        Inl err \<Rightarrow> Inl err
      | Inr es \<Rightarrow> (case read_segments unm d ps of Inl err \<Rightarrow> Inl err | Inr rest \<Rightarrow> Inr (es @ rest)))"

section \<open>Operations\<close>

definition wal_Open :: "unmarshal \<Rightarrow> dir \<Rightarrow> wal_error + WAL" where
  "wal_Open unm d =
     (let segments = Glob ''.wal'' d;
          w = \<lparr>w_files = d, w_current = None, w_buf = [], w_size = 0, w_lastIndex = 0\<rparr>
      in if segments = [] then
           (case createSegment 1 w of (Some err, _) \<Rightarrow> Inl err | (None, w1) \<Rightarrow> Inr w1)
         else
           (let p = last segments;
                w1 = w\<lparr>w_current := Some p, w_size := (case dir_get d p of None \<Rightarrow> 0 | Some c \<Rightarrow> length c)\<rparr>
            in case read_file unm d p of
                 Inl err \<Rightarrow> Inl err
               | Inr es \<Rightarrow> Inr (if es = [] then w1 else w1\<lparr>w_lastIndex := le_index (last es)\<rparr>)))"

definition append_one :: "marshal \<Rightarrow> LogEntry \<Rightarrow> WAL \<Rightarrow> wal_error option \<times> WAL" where
  "append_one mar entry w =
     (case mar entry of
        None \<Rightarrow> (Some WalMarshal, w)
      | Some data \<Rightarrow>
          (case (if w_size w + (headerSize + length data) > maxSegmentSize
                 then rollSegment (le_index entry) w else (None, w)) of
             (Some err, w1) \<Rightarrow> (Some err, w1)
           | (None, w1) \<Rightarrow> writeRecord data w1))"

definition wal_Append :: "marshal \<Rightarrow> LogEntry \<Rightarrow> WAL \<Rightarrow> wal_error option \<times> WAL" where
  "wal_Append mar entry w =
     (case append_one mar entry w of
        (Some err, w1) \<Rightarrow> (Some err, w1)
      | (None, w1) \<Rightarrow> (None, (wal_flush w1)\<lparr>w_lastIndex := le_index entry\<rparr>))"

fun batch_loop :: "marshal \<Rightarrow> LogEntry list \<Rightarrow> WAL \<Rightarrow> wal_error option \<times> WAL" where
  "batch_loop mar [] w = (None, w)"
| "batch_loop mar (entry # es) w =
     (case append_one mar entry w of
        (Some err, w1) \<Rightarrow> (Some err, w1)
      | (None, w1) \<Rightarrow> batch_loop mar es (w1\<lparr>w_lastIndex := le_index entry\<rparr>))"

definition wal_AppendBatch :: "marshal \<Rightarrow> LogEntry list \<Rightarrow> WAL \<Rightarrow> wal_error option \<times> WAL" where
  "wal_AppendBatch mar es w =
     (if es = [] then (None, w)
      else case batch_loop mar es w of
             (Some err, w1) \<Rightarrow> (Some err, w1)
           | (None, w1) \<Rightarrow> (None, wal_flush w1))"

definition wal_ReadAll :: "unmarshal \<Rightarrow> WAL \<Rightarrow> wal_error + LogEntry list" where
  "wal_ReadAll unm w = read_segments unm (w_files w) (Glob ''.wal'' (w_files w))"

text \<open>The rewrite at the end of both truncations: the kept entries, into the one new segment.\<close>

fun rewrite_loop :: "marshal \<Rightarrow> LogEntry list \<Rightarrow> WAL \<Rightarrow> wal_error option \<times> WAL" where
  "rewrite_loop mar [] w = (None, w)"
| "rewrite_loop mar (e # es) w =
     (case mar e of
        None \<Rightarrow> (Some WalMarshal, w)
      | Some data \<Rightarrow>
          (case writeRecord data w of
             (Some err, w1) \<Rightarrow> (Some err, w1)
           | (None, w1) \<Rightarrow> rewrite_loop mar es (w1\<lparr>w_lastIndex := le_index e\<rparr>)))"

definition remove_segments :: "dir \<Rightarrow> dir" where
  [simp]: "remove_segments d = fold dir_remove (Glob ''.wal'' d) d"

text \<open>
  What \<open>TruncateSuffix\<close> and \<open>TruncatePrefix\<close> have in common: \<open>sel\<close> selects the entries to keep,
  \<open>base\<close> is the last index recorded before the rewrite, \<open>first\<close> names the new segment.
\<close>

definition wal_rewrite ::
  "marshal \<Rightarrow> unmarshal \<Rightarrow> (LogEntry \<Rightarrow> bool) \<Rightarrow> nat \<Rightarrow> nat \<Rightarrow> WAL \<Rightarrow> wal_error option \<times> WAL" where
  "wal_rewrite mar unm sel base first w =
     (let w1 = (wal_flush w)\<lparr>w_current := None, w_buf := []\<rparr>;
          segments = Glob ''.wal'' (w_files w1)
      in case read_segments unm (w_files w1) segments of
           Inl err \<Rightarrow> (Some err, w1)
         | Inr es \<Rightarrow>
             (let w2 = w1\<lparr>w_files := remove_segments (w_files w1), w_size := 0, w_lastIndex := base\<rparr>
              in case createSegment first w2 of
                   (Some err, w3) \<Rightarrow> (Some err, w3)
                 | (None, w3) \<Rightarrow>
                     (case rewrite_loop mar (filter sel es) w3 of
                        (Some err, w4) \<Rightarrow> (Some err, w4)
                      | (None, w4) \<Rightarrow> (None, wal_flush w4))))"

definition wal_TruncateSuffix :: "marshal \<Rightarrow> unmarshal \<Rightarrow> nat \<Rightarrow> WAL \<Rightarrow> wal_error option \<times> WAL" where
  "wal_TruncateSuffix mar unm keepIndex w = wal_rewrite mar unm (\<lambda>e. le_index e \<le> keepIndex) 0 1 w"

definition wal_TruncatePrefix :: "marshal \<Rightarrow> unmarshal \<Rightarrow> nat \<Rightarrow> WAL \<Rightarrow> wal_error option \<times> WAL" where
  "wal_TruncatePrefix mar unm discardIndex w =
     wal_rewrite mar unm (\<lambda>e. le_index e > discardIndex) discardIndex (discardIndex + 1) w"

definition wal_LastIndex :: "WAL \<Rightarrow> nat" where
  "wal_LastIndex w = w_lastIndex w"

definition wal_Close :: "WAL \<Rightarrow> WAL" where
  "wal_Close w = wal_flush w"

section \<open>Records\<close>

text \<open>What is relied on of the encoding of an entry: it decodes to the entry, and the record fits a segment.\<close>

definition entry_codes :: "marshal \<Rightarrow> unmarshal \<Rightarrow> LogEntry \<Rightarrow> bool" where
  "entry_codes mar unm e \<longleftrightarrow> (case mar e of None \<Rightarrow> False
     | Some b \<Rightarrow> unm b = Some e \<and> headerSize + length b \<le> maxSegmentSize)"

definition records :: "marshal \<Rightarrow> LogEntry list \<Rightarrow> bytes" where
  "records mar es = concat (map (\<lambda>e. encode_record (the (mar e))) es)"

lemma records_simps [simp]:
  "records mar [] = []" "records mar (e # es) = encode_record (the (mar e)) @ records mar es"
  "records mar (es @ fs) = records mar es @ records mar fs"
  by (simp_all add: records_def)

lemma length_encode_record [simp]: "length (encode_record b) = headerSize + length b"
  by (simp add: encode_record_def headerSize_def)

lemma entry_codesE:
  assumes "entry_codes mar unm e"
  obtains b where "mar e = Some b" "unm b = Some e" "length b < 2 ^ 32" "headerSize + length b \<le> maxSegmentSize"
  using assms by (auto simp: entry_codes_def headerSize_def maxSegmentSize_def split: option.splits)

lemma read_header:
  "ReadFull headerSize (PutUint32 a @ PutUint32 c @ rest) = ReadOk (PutUint32 a @ PutUint32 c) rest"
  using ReadFull_append[of headerSize "PutUint32 a @ PutUint32 c" rest] by (simp add: headerSize_def)

lemma readSegment_record:
  assumes "length b < 2 ^ 32" "unm b = Some e"
  shows "readSegment unm (encode_record b @ rest) =
    (case readSegment unm rest of Inl err \<Rightarrow> Inl err | Inr es \<Rightarrow> Inr (e # es))"
  using assms by (subst readSegment.simps) (simp add: encode_record_def read_header)

lemma readSegment_cut:
  assumes "length b < 2 ^ 32" "k < headerSize + length b"
  shows "readSegment unm (take k (encode_record b)) = Inr []"
proof (cases "k < headerSize")
  case True
  then have "length (take k (encode_record b)) < headerSize" by simp
  from ReadFull_short[OF this] show ?thesis by (subst readSegment.simps) auto
next
  case False
  then have t: "take k (encode_record b)
      = PutUint32 (uint32_len b) @ PutUint32 (ChecksumIEEE b) @ take (k - headerSize) b"
    by (simp add: encode_record_def headerSize_def)
  have "length (take (k - headerSize) b) < length b" using False assms(2) by simp
  from ReadFull_short[OF this] show ?thesis
    unfolding t using assms(1) by (subst readSegment.simps) (auto simp: read_header)
qed

lemma readSegment_records:
  "list_all (entry_codes mar unm) es \<Longrightarrow> readSegment unm (records mar es @ rest) =
     (case readSegment unm rest of Inl err \<Rightarrow> Inl err | Inr fs \<Rightarrow> Inr (es @ fs))"
proof (induction es)
  case (Cons e es)
  then obtain b where "mar e = Some b" "unm b = Some e" "length b < 2 ^ 32" by (auto elim: entry_codesE)
  then show ?case using Cons by (simp add: readSegment_record split: sum.split)
qed (simp split: sum.split)

lemma readSegment_Nil [simp]: "readSegment unm [] = Inr []"
  by (subst readSegment.simps) (simp add: ReadFull_def headerSize_def)

lemma readSegment_whole: "list_all (entry_codes mar unm) es \<Longrightarrow> readSegment unm (records mar es) = Inr es"
  using readSegment_records[of mar unm es "[]"] by simp

section \<open>What a log holds\<close>

text \<open>
  A log in order: the closed segments \<open>pre\<close> and the current one, \<open>k\<close> with entries \<open>es\<close>, hold
  whole records (the current one up to the buffered rest), segments are named below all their
  entries and in ascending order, indices ascend, and no index exceeds \<open>hi\<close>.
\<close>

definition wal_segments :: "marshal \<Rightarrow> unmarshal \<Rightarrow> (nat \<times> LogEntry list) list \<Rightarrow> nat \<Rightarrow> LogEntry list \<Rightarrow> nat \<Rightarrow> WAL \<Rightarrow> bool" where
  "wal_segments mar unm pre k es hi w \<longleftrightarrow>
     dir_ok (w_files w) \<and> Glob ''.wal'' (w_files w) = map (\<lambda>s. segment_path (fst s)) pre @ [segment_path k]
     \<and> (\<forall>(j, fs) \<in> set pre. dir_get (w_files w) (segment_path j) = Some (records mar fs))
     \<and> (\<exists>c. dir_get (w_files w) (segment_path k) = Some c \<and> c @ w_buf w = records mar es)
     \<and> w_current w = Some (segment_path k) \<and> w_size w = length (records mar es)
     \<and> (\<forall>(j, fs) \<in> set pre. j < k) \<and> k < 10 ^ 16 \<and> k \<le> hi + 1
     \<and> (\<forall>e \<in> set es. k \<le> le_index e)"

definition wal_entries :: "marshal \<Rightarrow> unmarshal \<Rightarrow> LogEntry list \<Rightarrow> nat \<Rightarrow> bool" where
  "wal_entries mar unm xs hi \<longleftrightarrow>
     list_all (entry_codes mar unm) xs \<and> sorted_wrt (<) (map le_index xs) \<and> (\<forall>e \<in> set xs. le_index e \<le> hi)"

definition wal_has :: "marshal \<Rightarrow> unmarshal \<Rightarrow> LogEntry list \<Rightarrow> nat \<Rightarrow> WAL \<Rightarrow> bool" where
  "wal_has mar unm xs hi w \<longleftrightarrow> wal_entries mar unm xs hi
     \<and> (\<exists>pre k es. wal_segments mar unm pre k es hi w \<and> xs = concat (map snd pre) @ es)"

lemma wal_hasI:
  "wal_segments mar unm pre k es hi w \<Longrightarrow> wal_entries mar unm (concat (map snd pre) @ es) hi \<Longrightarrow>
   wal_has mar unm (concat (map snd pre) @ es) hi w"
  unfolding wal_has_def by blast

lemma segment_path_less_iff: "m < 10 ^ 16 \<Longrightarrow> n < 10 ^ 16 \<Longrightarrow> segment_path m < segment_path n \<longleftrightarrow> m < n"
  using sprintf_016d_less_iff[of m n] sprintf_016d_inj[of m n]
  by (simp add: segment_path_def sprintf_016d_small less_append_same_length)

lemma segment_path_inj: "m < 10 ^ 16 \<Longrightarrow> n < 10 ^ 16 \<Longrightarrow> segment_path m = segment_path n \<longleftrightarrow> m = n"
  using sprintf_016d_inj[of m n] by (simp add: segment_path_def)

lemma has_suffix_segment_path [simp]: "has_suffix ''.wal'' (segment_path n)"
  by (simp add: segment_path_def has_suffix_def)

lemma dir_get_in: "dir_get d p \<noteq> None \<longleftrightarrow> p \<in> fst ` set d"
  by (simp add: map_of_eq_None_iff)

text \<open>Writing to a file that exists keeps the listing; a new largest name is listed last.\<close>

lemma Glob_put_old:
  assumes that: "dir_ok d" and p: "dir_get d p \<noteq> None"
  shows "Glob suf (dir_put p c d) = Glob suf d"
proof -
  have "set (Glob suf (dir_put p c d)) = set (Glob suf d)"
    using p unfolding dir_get_in by (auto simp: set_Glob set_dir_put)
  moreover have "sorted_wrt (<) (Glob suf (dir_put p c d))" "sorted_wrt (<) (Glob suf d)"
    using that by (simp_all add: sorted_Glob)
  ultimately show ?thesis by (metis strict_sorted_equal)
qed

lemma Glob_put_new:
  assumes "dir_ok d" "has_suffix suf p" "\<forall>q \<in> set (Glob suf d). q < p"
  shows "Glob suf (dir_put p c d) = Glob suf d @ [p]"
proof -
  have "set (Glob suf (dir_put p c d)) = set (Glob suf d @ [p])"
    using assms(2) by (auto simp: set_Glob set_dir_put)
  moreover have "sorted_wrt (<) (Glob suf (dir_put p c d))" "sorted_wrt (<) (Glob suf d @ [p])"
    using assms(1,3) by (simp_all add: sorted_Glob sorted_wrt_append)
  ultimately show ?thesis by (metis strict_sorted_equal)
qed

lemma wal_flush_segments:
  assumes h: "wal_segments mar unm pre k es hi w"
  shows "wal_segments mar unm pre k es hi (wal_flush w)" "w_buf (wal_flush w) = []"
    "dir_get (w_files (wal_flush w)) (segment_path k) = Some (records mar es)"
proof -
  obtain c where c: "dir_get (w_files w) (segment_path k) = Some c" "c @ w_buf w = records mar es"
    using h by (auto simp: wal_segments_def)
  have cur: "w_current w = Some (segment_path k)" and ok: "dir_ok (w_files w)" and k: "k < 10 ^ 16"
    using h by (simp_all add: wal_segments_def)
  have f: "wal_flush w = w\<lparr>w_files := dir_put (segment_path k) (records mar es) (w_files w), w_buf := []\<rparr>"
    using c cur by (simp add: wal_flush_def)
  have ne: "segment_path j \<noteq> segment_path k" if "(j, fs) \<in> set pre" for j fs
  proof -
    have "j < k" using h that by (auto simp: wal_segments_def)
    then show ?thesis using segment_path_inj[of j k] k by simp
  qed
  show "w_buf (wal_flush w) = []" "dir_get (w_files (wal_flush w)) (segment_path k) = Some (records mar es)"
    by (simp_all add: f)
  show "wal_segments mar unm pre k es hi (wal_flush w)"
    using h ne Glob_put_old[OF ok, of "segment_path k"] c(1)
    unfolding wal_segments_def f by auto
qed

lemma createSegment_ok:
  assumes "dir_ok (w_files w)" "w_current w = None \<or> w_buf w = [] \<and> (\<exists>p c. w_current w = Some p \<and> dir_get (w_files w) p = Some c)"
    and "\<forall>q \<in> set (Glob ''.wal'' (w_files w)). q < segment_path i"
  shows "createSegment i w = (None, snd (createSegment i w))"
    and "Glob ''.wal'' (w_files (snd (createSegment i w))) = Glob ''.wal'' (w_files w) @ [segment_path i]"
    and "dir_ok (w_files (snd (createSegment i w)))"
    and "\<And>p. dir_get (w_files (snd (createSegment i w))) p = (if p = segment_path i then Some [] else dir_get (w_files w) p)"
    and "w_current (snd (createSegment i w)) = Some (segment_path i)" "w_buf (snd (createSegment i w)) = []"
    and "w_size (snd (createSegment i w)) = 0" "w_lastIndex (snd (createSegment i w)) = w_lastIndex w"
proof -
  let ?w1 = "w\<lparr>w_files := dir_put (segment_path i) [] (w_files w)\<rparr>"
  have new: "dir_get (w_files w) (segment_path i) = None"
  proof (rule ccontr)
    assume "dir_get (w_files w) (segment_path i) \<noteq> None"
    then have "segment_path i \<in> set (Glob ''.wal'' (w_files w))" unfolding dir_get_in by (simp add: set_Glob)
    then show False using assms(3) by blast
  qed
  have fl: "dir_get (w_files (wal_flush ?w1)) p = dir_get (w_files ?w1) p"
    "Glob ''.wal'' (w_files (wal_flush ?w1)) = Glob ''.wal'' (w_files ?w1)" "dir_ok (w_files (wal_flush ?w1))"
    "w_lastIndex (wal_flush ?w1) = w_lastIndex w" for p
    using assms(1,2) new by (auto simp: wal_flush_def Glob_put_old split: option.split)
  have e: "createSegment i w = (None, (wal_flush ?w1)\<lparr>w_current := Some (segment_path i), w_buf := [], w_size := 0\<rparr>)"
    using new by (simp add: createSegment_def Let_def)
  show "createSegment i w = (None, snd (createSegment i w))" by (simp add: e)
  show "Glob ''.wal'' (w_files (snd (createSegment i w))) = Glob ''.wal'' (w_files w) @ [segment_path i]"
    using fl(2) Glob_put_new[OF assms(1) has_suffix_segment_path assms(3)] by (simp add: e)
  show "dir_ok (w_files (snd (createSegment i w)))" "w_current (snd (createSegment i w)) = Some (segment_path i)"
    "w_buf (snd (createSegment i w)) = []" "w_size (snd (createSegment i w)) = 0"
    "w_lastIndex (snd (createSegment i w)) = w_lastIndex w"
    "dir_get (w_files (snd (createSegment i w))) p = (if p = segment_path i then Some [] else dir_get (w_files w) p)" for p
    using fl by (simp_all add: e)
qed

lemma dir_ok_fold_remove: "dir_ok d \<Longrightarrow> dir_ok (fold dir_remove ps d)"
  by (induction ps arbitrary: d) auto

lemma fold_remove_files: "fst ` set (fold dir_remove ps d) = fst ` set d - set ps"
  by (induction ps arbitrary: d) (auto simp: dir_remove_def)

lemma Glob_fold_remove: "Glob suf (fold dir_remove (Glob suf d) d) = []"
proof -
  have "set (Glob suf (fold dir_remove (Glob suf d) d)) = {}"
    by (auto simp: set_Glob fold_remove_files)
  then show ?thesis by simp
qed

lemma append_one_has:
  assumes h: "wal_has mar unm xs hi w" and e: "entry_codes mar unm e" and i: "hi < le_index e" "le_index e < 10 ^ 16"
  shows "\<exists>w1. append_one mar e w = (None, w1) \<and> wal_has mar unm (xs @ [e]) (le_index e) (w1\<lparr>w_lastIndex := l\<rparr>)"
proof -
  obtain pre k es where s: "wal_segments mar unm pre k es hi w" and xs: "xs = concat (map snd pre) @ es"
    and en: "wal_entries mar unm xs hi" using h by (auto simp: wal_has_def)
  obtain b where b: "mar e = Some b" "headerSize + length b \<le> maxSegmentSize" using e by (auto elim: entry_codesE)
  have en': "wal_entries mar unm (xs @ [e]) (le_index e)"
    using en e i(1) by (force simp: wal_entries_def sorted_wrt_append)
  show ?thesis
  proof (cases "w_size w + (headerSize + length b) > maxSegmentSize")
    case False
    let ?w1 = "w\<lparr>w_buf := w_buf w @ encode_record b, w_size := w_size w + (headerSize + length b)\<rparr>"
    have "append_one mar e w = (None, ?w1)"
      using s b(1) False by (simp add: append_one_def writeRecord_def wal_segments_def)
    moreover have "wal_segments mar unm pre k (es @ [e]) (le_index e) (?w1\<lparr>w_lastIndex := l\<rparr>)"
      using s b(1) i(1) unfolding wal_segments_def by auto
    ultimately show ?thesis using en' wal_hasI[of mar unm pre k "es @ [e]"] by (simp add: xs)
  next
    case True
    note f = wal_flush_segments[OF s]
    let ?w0 = "wal_flush w"
    have "es \<noteq> []" using s b(2) True by (auto simp: wal_segments_def)
    then obtain x where x: "x \<in> set es" by (cases es) auto
    then have "k \<le> le_index x" "le_index x \<le> hi" using s en xs by (auto simp: wal_segments_def wal_entries_def)
    then have k: "k < le_index e" using i(1) by simp
    have glob: "Glob ''.wal'' (w_files ?w0) = map (\<lambda>s. segment_path (fst s)) pre @ [segment_path k]"
      and lt: "\<forall>(j, fs) \<in> set pre. j < k" and ok: "dir_ok (w_files ?w0)" and cur: "w_current ?w0 = Some (segment_path k)"
      using f(1) by (simp_all add: wal_segments_def)
    have small: "\<forall>q \<in> set (Glob ''.wal'' (w_files ?w0)). q < segment_path (le_index e)"
      unfolding glob using lt k i(2) segment_path_less_iff[OF _ i(2)] by fastforce
    note c = createSegment_ok[OF ok _ small]
    have c0: "w_current ?w0 = None \<or> w_buf ?w0 = [] \<and> (\<exists>p c. w_current ?w0 = Some p \<and> dir_get (w_files ?w0) p = Some c)"
      using f(2,3) cur by simp
    obtain w1 where cs: "createSegment (le_index e) ?w0 = (None, w1)" by (rule that[OF c(1)[OF c0]])
    note c' = c(2-8)[OF c0, unfolded cs snd_conv]
    let ?w2 = "w1\<lparr>w_buf := w_buf w1 @ encode_record b, w_size := w_size w1 + (headerSize + length b)\<rparr>"
    have "w_current w \<noteq> None" using s by (simp add: wal_segments_def)
    then have run: "append_one mar e w = (None, ?w2)"
      using b(1) True c'(4) by (simp add: append_one_def rollSegment_def writeRecord_def cs)
    have ne: "segment_path j \<noteq> segment_path (le_index e)" if "j \<le> k" for j
      using segment_path_inj[of j "le_index e"] k i(2) that by simp
    have old: "\<forall>(j, fs) \<in> set (pre @ [(k, es)]). dir_get (w_files w1) (segment_path j) = Some (records mar fs) \<and> j < le_index e"
    proof (clarify)
      fix j fs assume "(j, fs) \<in> set (pre @ [(k, es)])"
      then have "j \<le> k" "dir_get (w_files ?w0) (segment_path j) = Some (records mar fs)"
        using f(1,3) lt by (auto simp: wal_segments_def)
      then show "dir_get (w_files w1) (segment_path j) = Some (records mar fs) \<and> j < le_index e"
        using c'(3) ne k by auto
    qed
    have "wal_segments mar unm (pre @ [(k, es)]) (le_index e) [e] (le_index e) (?w2\<lparr>w_lastIndex := l\<rparr>)"
      unfolding wal_segments_def using c' glob old b(1) i(2) by auto
    from wal_hasI[OF this] show ?thesis using run en' by (simp add: xs)
  qed
qed

lemma batch_loop_has:
  assumes "wal_has mar unm xs hi w" "list_all (entry_codes mar unm) es" "sorted_wrt (<) (hi # map le_index es)"
    "list_all (\<lambda>e. le_index e < 10 ^ 16) es"
  shows "\<exists>w1. batch_loop mar es w = (None, w1) \<and> wal_has mar unm (xs @ es) (last (hi # map le_index es)) w1"
  using assms
proof (induction es arbitrary: xs hi w)
  case (Cons e es)
  from append_one_has[OF Cons.prems(1), of e "le_index e"] Cons.prems(2-4)
  obtain w1 where w1: "append_one mar e w = (None, w1)" "wal_has mar unm (xs @ [e]) (le_index e) (w1\<lparr>w_lastIndex := le_index e\<rparr>)"
    by auto
  show ?case using Cons.IH[OF w1(2)] w1(1) Cons.prems(2-4) by auto
qed simp

lemma wal_flush_has: "wal_has mar unm xs hi w \<Longrightarrow> wal_has mar unm xs hi (wal_flush w) \<and> w_buf (wal_flush w) = []"
  using wal_flush_segments unfolding wal_has_def by blast

lemma AppendBatch_has:
  assumes "wal_has mar unm xs hi w" "w_buf w = []" "list_all (entry_codes mar unm) es"
    "sorted_wrt (<) (hi # map le_index es)" "list_all (\<lambda>e. le_index e < 10 ^ 16) es"
  shows "\<exists>w1. wal_AppendBatch mar es w = (None, w1) \<and> wal_has mar unm (xs @ es) (last (hi # map le_index es)) w1 \<and> w_buf w1 = []"
  using assms batch_loop_has[OF assms(1,3-5)] wal_flush_has by (fastforce simp: wal_AppendBatch_def)

lemma read_segments_has:
  assumes h: "wal_has mar unm xs hi w" and b: "w_buf w = []"
  shows "read_segments unm (w_files w) (Glob ''.wal'' (w_files w)) = Inr xs"
proof -
  obtain pre k es where s: "wal_segments mar unm pre k es hi w" and xs: "xs = concat (map snd pre) @ es"
    and en: "wal_entries mar unm xs hi" using h by (auto simp: wal_has_def)
  have one: "read_segments unm (w_files w) [segment_path k] = Inr es"
    using s b en xs by (auto simp: wal_segments_def wal_entries_def read_file_def readSegment_whole)
  have "read_segments unm (w_files w) (map (\<lambda>s. segment_path (fst s)) pre @ [segment_path k])
      = Inr (concat (map snd pre) @ es)"
    if "\<forall>(j, fs) \<in> set pre. dir_get (w_files w) (segment_path j) = Some (records mar fs)"
      "\<forall>(j, fs) \<in> set pre. list_all (entry_codes mar unm) fs"
    using that
  proof (induction pre)
    case (Cons a pre)
    then show ?case by (cases a) (simp add: read_file_def readSegment_whole)
  qed (use one in simp)
  moreover have "\<forall>(j, fs) \<in> set pre. list_all (entry_codes mar unm) fs"
    using en xs by (fastforce simp: wal_entries_def list_all_iff)
  ultimately show ?thesis using s xs by (simp add: wal_segments_def)
qed

lemma rewrite_loop_has:
  assumes "wal_segments mar unm [] k es hi w" "list_all (entry_codes mar unm) fs" "\<forall>e \<in> set fs. k \<le> le_index e"
  shows "\<exists>w1. rewrite_loop mar fs w = (None, w1) \<and> wal_segments mar unm [] k (es @ fs) hi w1"
  using assms
proof (induction fs arbitrary: es w)
  case (Cons e fs)
  obtain b where b: "mar e = Some b" using Cons.prems(2) by (auto elim: entry_codesE)
  let ?w1 = "w\<lparr>w_buf := w_buf w @ encode_record b, w_size := w_size w + (headerSize + length b),
    w_lastIndex := le_index e\<rparr>"
  have "wal_segments mar unm [] k (es @ [e]) hi ?w1"
    using Cons.prems b unfolding wal_segments_def by auto
  from Cons.IH[OF this] Cons.prems b show ?case by (simp add: writeRecord_def wal_segments_def)
qed simp

lemma wal_rewrite_has:
  assumes h: "wal_has mar unm xs hi w" and k: "k < 10 ^ 16" "k \<le> hi' + 1"
    and sel: "\<forall>e \<in> set (filter sel xs). k \<le> le_index e \<and> le_index e \<le> hi'"
  shows "\<exists>w1. wal_rewrite mar unm sel base k w = (None, w1) \<and> wal_has mar unm (filter sel xs) hi' w1 \<and> w_buf w1 = []"
proof -
  have fh: "wal_has mar unm xs hi (wal_flush w)" "w_buf (wal_flush w) = []" using wal_flush_has[OF h] by auto
  let ?w1 = "(wal_flush w)\<lparr>w_current := None, w_buf := []\<rparr>"
  let ?segs = "Glob ''.wal'' (w_files ?w1)"
  let ?w2 = "?w1\<lparr>w_files := fold dir_remove ?segs (w_files ?w1), w_size := 0, w_lastIndex := base\<rparr>"
  have rd: "read_segments unm (w_files ?w1) ?segs = Inr xs" using read_segments_has[OF fh] by simp
  have ok: "dir_ok (w_files ?w1)" using fh by (auto simp: wal_has_def wal_segments_def)
  have ok2: "dir_ok (w_files ?w2)" using dir_ok_fold_remove[OF ok] by simp
  have empty: "Glob ''.wal'' (w_files ?w2) = []" using Glob_fold_remove[of "''.wal''" "w_files ?w1"] by simp
  note c = createSegment_ok[OF ok2, of k]
  have c0: "w_current ?w2 = None \<or> w_buf ?w2 = [] \<and> (\<exists>p c. w_current ?w2 = Some p \<and> dir_get (w_files ?w2) p = Some c)" by simp
  have c1: "\<forall>q \<in> set (Glob ''.wal'' (w_files ?w2)). q < segment_path k" by (simp only: empty) simp
  obtain w3 where cs: "createSegment k ?w2 = (None, w3)" by (rule that[OF c(1)[OF c0 c1]])
  note c' = c(2-8)[OF c0 c1, unfolded cs snd_conv]
  have "wal_segments mar unm [] k [] hi' w3"
    unfolding wal_segments_def using c' k by (simp add: empty[simplified])
  moreover have en: "list_all (entry_codes mar unm) (filter sel xs)" "sorted_wrt (<) (map le_index (filter sel xs))"
    using h by (auto simp: wal_has_def wal_entries_def list_all_iff sorted_wrt_map sorted_wrt_filter)
  ultimately obtain w4 where w4: "rewrite_loop mar (filter sel xs) w3 = (None, w4)"
      "wal_segments mar unm [] k (filter sel xs) hi' w4"
    using rewrite_loop_has[of mar unm k "[]" hi' w3 "filter sel xs"] sel by auto
  have run: "wal_rewrite mar unm sel base k w = (None, wal_flush w4)"
    unfolding wal_rewrite_def remove_segments_def Let_def rd sum.case cs prod.case option.case w4(1) ..
  have "wal_has mar unm (filter sel xs) hi' w4"
    using wal_hasI[OF w4(2)] en sel by (simp add: wal_entries_def)
  then show ?thesis using run wal_flush_has by blast
qed

lemma wal_Open_has:
  assumes h: "wal_has mar unm xs hi w" and b: "w_buf w = []"
  shows "\<exists>w1. wal_Open unm (w_files w) = Inr w1 \<and> wal_has mar unm xs hi w1 \<and> w_buf w1 = []"
proof -
  obtain pre k es where s: "wal_segments mar unm pre k es hi w" and xs: "xs = concat (map snd pre) @ es"
    and en: "wal_entries mar unm xs hi" using h by (auto simp: wal_has_def)
  have g: "dir_get (w_files w) (segment_path k) = Some (records mar es)" using s b by (auto simp: wal_segments_def)
  have r: "read_file unm (w_files w) (segment_path k) = Inr es"
    using g en xs by (simp add: read_file_def wal_entries_def readSegment_whole)
  define w1 where "w1 = \<lparr>w_files = w_files w, w_current = Some (segment_path k), w_buf = [],
    w_size = length (records mar es), w_lastIndex = (if es = [] then 0 else le_index (last es))\<rparr>"
  have "wal_Open unm (w_files w) = Inr w1"
    using s g r by (simp add: wal_Open_def wal_segments_def w1_def)
  moreover have "wal_segments mar unm pre k es hi w1" using s g b by (auto simp: wal_segments_def w1_def)
  ultimately show ?thesis using wal_hasI en xs by (fastforce simp: w1_def)
qed

section \<open>Reference: a list of entries\<close>

datatype wal_op = OpAppend "LogEntry list" | OpTruncateSuffix nat | OpTruncatePrefix nat | OpReopen

definition run_wal_op :: "marshal \<Rightarrow> unmarshal \<Rightarrow> wal_op \<Rightarrow> WAL \<Rightarrow> WAL option" where
  "run_wal_op mar unm op w =
     (let ok = (\<lambda>(err, w1). if err = None then Some w1 else None)
      in case op of
           OpAppend es \<Rightarrow> ok (wal_AppendBatch mar es w)
         | OpTruncateSuffix i \<Rightarrow> ok (wal_TruncateSuffix mar unm i w)
         | OpTruncatePrefix i \<Rightarrow> ok (wal_TruncatePrefix mar unm i w)
         | OpReopen \<Rightarrow> (case wal_Open unm (w_files (wal_Close w)) of Inl _ \<Rightarrow> None | Inr w1 \<Rightarrow> Some w1))"

fun run_wal_ops :: "marshal \<Rightarrow> unmarshal \<Rightarrow> wal_op list \<Rightarrow> WAL \<Rightarrow> WAL option" where
  "run_wal_ops mar unm [] w = Some w"
| "run_wal_ops mar unm (op # ops) w =
     (case run_wal_op mar unm op w of None \<Rightarrow> None | Some w1 \<Rightarrow> run_wal_ops mar unm ops w1)"

text \<open>The reference state: the entries, and the bound that later indices exceed.\<close>

fun list_op :: "wal_op \<Rightarrow> LogEntry list \<times> nat \<Rightarrow> LogEntry list \<times> nat" where
  "list_op (OpAppend es) (xs, hi) = (xs @ es, last (hi # map le_index es))"
| "list_op (OpTruncateSuffix i) (xs, hi) = (filter (\<lambda>e. le_index e \<le> i) xs, min hi i)"
| "list_op (OpTruncatePrefix i) (xs, hi) = (filter (\<lambda>e. le_index e > i) xs, max hi i)"
| "list_op OpReopen (xs, hi) = (xs, hi)"

text \<open>Appended entries continue the log with ascending indices; a truncation point is no larger than a segment name may be.\<close>

fun wal_op_ok :: "marshal \<Rightarrow> unmarshal \<Rightarrow> wal_op \<Rightarrow> LogEntry list \<times> nat \<Rightarrow> bool" where
  "wal_op_ok mar unm (OpAppend es) (xs, hi) \<longleftrightarrow> list_all (entry_codes mar unm) es
     \<and> sorted_wrt (<) (hi # map le_index es) \<and> list_all (\<lambda>e. le_index e < 10 ^ 16) es"
| "wal_op_ok mar unm (OpTruncatePrefix i) (xs, hi) \<longleftrightarrow> i + 1 < 10 ^ 16"
| "wal_op_ok mar unm op (xs, hi) \<longleftrightarrow> True"

fun wal_ops_ok :: "marshal \<Rightarrow> unmarshal \<Rightarrow> wal_op list \<Rightarrow> LogEntry list \<times> nat \<Rightarrow> bool" where
  "wal_ops_ok mar unm [] st \<longleftrightarrow> True"
| "wal_ops_ok mar unm (op # ops) st \<longleftrightarrow> wal_op_ok mar unm op st \<and> wal_ops_ok mar unm ops (list_op op st)"

definition wal_rel :: "marshal \<Rightarrow> unmarshal \<Rightarrow> LogEntry list \<times> nat \<Rightarrow> WAL \<Rightarrow> bool" where
  "wal_rel mar unm st w \<longleftrightarrow> wal_has mar unm (fst st) (snd st) w \<and> w_buf w = [] \<and> (\<forall>e \<in> set (fst st). 0 < le_index e)"

lemma run_wal_op_rel:
  assumes r: "wal_rel mar unm st w" and ok: "wal_op_ok mar unm op st"
  shows "\<exists>w1. run_wal_op mar unm op w = Some w1 \<and> wal_rel mar unm (list_op op st) w1"
proof -
  obtain xs hi where st: "st = (xs, hi)" by fastforce
  have h: "wal_has mar unm xs hi w" "w_buf w = []" and pos: "\<forall>e \<in> set xs. 0 < le_index e"
    using r by (simp_all add: wal_rel_def st)
  have le: "\<forall>e \<in> set xs. le_index e \<le> hi" using h(1) by (simp add: wal_has_def wal_entries_def)
  show ?thesis
  proof (cases op)
    case (OpAppend es)
    then have "\<forall>e \<in> set es. 0 < le_index e" using ok by (auto simp: st)
    moreover obtain w1 where "wal_AppendBatch mar es w = (None, w1)"
        "wal_has mar unm (xs @ es) (last (hi # map le_index es)) w1" "w_buf w1 = []"
      using AppendBatch_has[OF h, of es] ok OpAppend by (auto simp: st simp del: last.simps)
    ultimately show ?thesis
      using pos OpAppend by (auto simp: st run_wal_op_def wal_rel_def Let_def simp del: last.simps)
  next
    case (OpTruncateSuffix i)
    have "\<exists>w1. wal_TruncateSuffix mar unm i w = (None, w1)
        \<and> wal_has mar unm (filter (\<lambda>e. le_index e \<le> i) xs) (min hi i) w1 \<and> w_buf w1 = []"
      unfolding wal_TruncateSuffix_def
      by (rule wal_rewrite_has[OF h(1)]) (use pos le in \<open>auto simp: Suc_le_eq\<close>)
    then show ?thesis using pos OpTruncateSuffix by (auto simp: st run_wal_op_def wal_rel_def Let_def)
  next
    case (OpTruncatePrefix i)
    have "\<exists>w1. wal_TruncatePrefix mar unm i w = (None, w1)
        \<and> wal_has mar unm (filter (\<lambda>e. le_index e > i) xs) (max hi i) w1 \<and> w_buf w1 = []"
      unfolding wal_TruncatePrefix_def
      by (rule wal_rewrite_has[OF h(1)]) (use ok le OpTruncatePrefix in \<open>auto simp: st\<close>)
    then show ?thesis using pos OpTruncatePrefix by (auto simp: st run_wal_op_def wal_rel_def Let_def)
  next
    case OpReopen
    then show ?thesis
      using wal_Open_has wal_flush_has[OF h(1)] pos
      by (fastforce simp: st run_wal_op_def wal_rel_def wal_Close_def Let_def)
  qed
qed

lemma run_wal_ops_rel:
  "wal_rel mar unm st w \<Longrightarrow> wal_ops_ok mar unm ops st \<Longrightarrow>
   \<exists>w1. run_wal_ops mar unm ops w = Some w1 \<and> wal_rel mar unm (fold list_op ops st) w1"
proof (induction ops arbitrary: st w)
  case (Cons op ops)
  then obtain w1 where "run_wal_op mar unm op w = Some w1" "wal_rel mar unm (list_op op st) w1"
    using run_wal_op_rel by fastforce
  then show ?case using Cons by simp
qed simp

lemma wal_Open_fresh: "\<exists>w. wal_Open unm [] = Inr w \<and> wal_rel mar unm ([], 0) w"
proof -
  let ?w = "\<lparr>w_files = [(segment_path 1, [])], w_current = Some (segment_path 1), w_buf = [], w_size = 0, w_lastIndex = 0\<rparr>"
  have "wal_Open unm [] = Inr ?w"
    by (simp add: wal_Open_def Glob_def createSegment_def wal_flush_def Let_def)
  moreover have "wal_segments mar unm [] 1 [] 0 ?w"
    using has_suffix_segment_path[of 1] by (simp add: wal_segments_def Glob_def dir_ok_def)
  ultimately show ?thesis
    using wal_hasI[of mar unm "[]" 1 "[]" 0 ?w] by (auto simp: wal_rel_def wal_entries_def)
qed

text \<open>
  Truncation removes every segment before it writes the kept entries again. A crash in between
  leaves a directory that opens without error as an empty log, whatever the log held.
\<close>

lemma truncate_crash_loses_log:
  assumes "dir_ok (w_files w)"
  shows "\<exists>w1. wal_Open unm (remove_segments (w_files w)) = Inr w1 \<and> wal_ReadAll unm w1 = Inr []"
proof -
  let ?d = "fold dir_remove (Glob ''.wal'' (w_files w)) (w_files w)" and ?p = "segment_path 1"
  have g: "Glob ''.wal'' ?d = []" by (rule Glob_fold_remove)
  then have "?p \<notin> set (Glob ''.wal'' ?d)" by simp
  then have n: "dir_get ?d ?p = None"
    using has_suffix_segment_path[of 1] dir_get_in[of ?d ?p] by (simp add: set_Glob)
  have "Glob ''.wal'' (dir_put ?p [] ?d) = [?p]"
    using Glob_put_new[OF dir_ok_fold_remove[OF assms] has_suffix_segment_path] g by simp
  then show ?thesis
    using g n by (simp add: wal_Open_def createSegment_def wal_flush_def wal_ReadAll_def read_file_def Let_def)
qed

lemma readSegment_take:
  "list_all (entry_codes mar unm) es \<Longrightarrow>
   \<exists>j \<le> length es. readSegment unm (take n (records mar es)) = Inr (take j es)
     \<and> length (records mar (take j es)) \<le> n \<and> (j = length es \<or> n < length (records mar (take (Suc j) es)))"
proof (induction es arbitrary: n)
  case (Cons e es)
  obtain b where b: "mar e = Some b" "unm b = Some e" "length b < 2 ^ 32" using Cons.prems by (auto elim: entry_codesE)
  show ?case
  proof (cases "n < headerSize + length b")
    case True
    then show ?thesis using readSegment_cut[OF b(3) True, of unm] b(1) by (intro exI[of _ 0]) simp
  next
    case False
    let ?m = "n - (headerSize + length b)"
    obtain j where "j \<le> length es" "readSegment unm (take ?m (records mar es)) = Inr (take j es)"
      "length (records mar (take j es)) \<le> ?m" "j = length es \<or> ?m < length (records mar (take (Suc j) es))"
      using Cons.IH[of ?m] Cons.prems by auto
    then show ?thesis
      using False b readSegment_record[of b unm e] by (intro exI[of _ "Suc j"]) auto
  qed
qed simp

lemma batch_loop_noroll:
  assumes "w_current w \<noteq> None" "list_all (entry_codes mar unm) fs"
    "w_size w + length (records mar fs) \<le> maxSegmentSize"
  shows "\<exists>l. batch_loop mar fs w = (None, w\<lparr>w_buf := w_buf w @ records mar fs,
    w_size := w_size w + length (records mar fs), w_lastIndex := l\<rparr>)"
  using assms
proof (induction fs arbitrary: w)
  case Nil
  then show ?case by (intro exI[of _ "w_lastIndex w"]) simp
next
  case (Cons e fs)
  obtain b where b: "mar e = Some b" using Cons.prems(2) by (auto elim: entry_codesE)
  let ?w1 = "w\<lparr>w_buf := w_buf w @ encode_record b, w_size := w_size w + (headerSize + length b), w_lastIndex := le_index e\<rparr>"
  have "append_one mar e w = (None, ?w1\<lparr>w_lastIndex := w_lastIndex w\<rparr>)"
    using Cons.prems b by (simp add: append_one_def writeRecord_def)
  then show ?case using Cons.IH[of ?w1] Cons.prems b by (auto simp: add.assoc)
qed

lemma readSegment_bad_header:
  assumes "list_all (entry_codes mar unm) es" "length rest < unat len"
  shows "readSegment unm (records mar es @ PutUint32 len @ PutUint32 c @ rest) = Inr es"
proof -
  have "readSegment unm (PutUint32 len @ PutUint32 c @ rest) = Inr []"
    using ReadFull_short[OF assms(2)] by (subst readSegment.simps) (auto simp: read_header)
  then show ?thesis using readSegment_records[OF assms(1)] by simp
qed

section \<open>A sample encoding for the concrete instances\<close>

definition sample_mar :: marshal where
  "sample_mar e = Some [word_of_nat (le_index e), word_of_nat (le_term e)]"

fun sample_unm :: unmarshal where
  "sample_unm [i, t] = Some \<lparr>le_index = unat i, le_term = unat t, le_data = [], le_type = ENTRY_NORMAL\<rparr>"
| "sample_unm _ = None"

definition wal_entry :: "nat \<Rightarrow> LogEntry" where
  "wal_entry i = \<lparr>le_index = i, le_term = 1, le_data = [], le_type = ENTRY_NORMAL\<rparr>"

lemma sample_codes: "i < 256 \<Longrightarrow> entry_codes sample_mar sample_unm (wal_entry i)"
  by (simp add: entry_codes_def sample_mar_def wal_entry_def unat_of_nat headerSize_def maxSegmentSize_def)

section \<open>Properties\<close>

text \<open>
  C13: the log refines a list. From a fresh directory, any sequence of batch appends with
  ascending indices, suffix and prefix truncations and close-and-reopen steps succeeds, across
  any number of segment files, and \<open>ReadAll\<close> then returns exactly the entries the same
  sequence leaves in a list. The encoding of the entries must decode again.
\<close>

theorem wal_refines_list:
  assumes "wal_ops_ok mar unm ops ([], 0)"
  shows "\<exists>w0 w. wal_Open unm [] = Inr w0 \<and> run_wal_ops mar unm ops w0 = Some w
    \<and> wal_ReadAll unm w = Inr (fst (fold list_op ops ([], 0)))"
proof -
  obtain w0 where w0: "wal_Open unm [] = Inr w0" "wal_rel mar unm ([], 0) w0" using wal_Open_fresh by blast
  from run_wal_ops_rel[OF w0(2) assms] obtain w where
    "run_wal_ops mar unm ops w0 = Some w" "wal_rel mar unm (fold list_op ops ([], 0)) w" by blast
  then show ?thesis using w0(1) read_segments_has by (auto simp: wal_rel_def wal_ReadAll_def)
qed

theorem wal_refines_list_witness:
  "\<exists>w0 w. wal_Open sample_unm [] = Inr w0
    \<and> run_wal_ops sample_mar sample_unm
        [OpAppend [wal_entry 1, wal_entry 2, wal_entry 3], OpTruncateSuffix 2, OpReopen, OpAppend [wal_entry 3],
         OpTruncatePrefix 1] w0 = Some w
    \<and> wal_ReadAll sample_unm w = Inr [wal_entry 2, wal_entry 3]"
proof -
  let ?ops = "[OpAppend [wal_entry 1, wal_entry 2, wal_entry 3], OpTruncateSuffix 2, OpReopen,
    OpAppend [wal_entry 3], OpTruncatePrefix 1]"
  have "wal_ops_ok sample_mar sample_unm ?ops ([], 0)"
    using sample_codes[of 1] sample_codes[of 2] sample_codes[of 3] by (simp add: wal_entry_def)
  from wal_refines_list[OF this] show ?thesis by (simp add: wal_entry_def)
qed

text \<open>
  C24: a crash in the middle of a write loses only the records that were cut. Reading a segment
  cut at any byte never fails and returns exactly the entries whose records are complete.
\<close>

theorem torn_segment_keeps_complete_records:
  assumes "list_all (entry_codes mar unm) es"
  shows "\<exists>j. j \<le> length es \<and> readSegment unm (take n (records mar es)) = Inr (take j es)
    \<and> length (records mar (take j es)) \<le> n \<and> (j = length es \<or> n < length (records mar (take (Suc j) es)))"
  using readSegment_take[OF assms] by blast

theorem torn_segment_keeps_complete_records_witness:
  "readSegment sample_unm (take 15 (records sample_mar [wal_entry 1, wal_entry 2])) = Inr [wal_entry 1]"
proof -
  let ?es = "[wal_entry 1, wal_entry 2]"
  obtain j where j: "j \<le> length ?es" "readSegment sample_unm (take 15 (records sample_mar ?es)) = Inr (take j ?es)"
    "length (records sample_mar (take j ?es)) \<le> 15" "j = length ?es \<or> 15 < length (records sample_mar (take (Suc j) ?es))"
    using torn_segment_keeps_complete_records[of sample_mar sample_unm ?es 15] sample_codes[of 1] sample_codes[of 2]
    by fastforce
  have "j = 0 \<or> j = 1 \<or> j = 2" using j(1) by auto
  then show ?thesis
    using j(2-4) by (elim disjE) (simp_all add: sample_mar_def headerSize_def)
qed

text \<open>
  C35: entries appended after a torn write are lost. When a crash leaves a record header without
  its data at the end of the segment, \<open>Open\<close> keeps it and appends behind it: a later batch is
  acknowledged, but \<open>ReadAll\<close> still returns only the entries before the torn header as long as
  the batch is shorter than the length the header claims.
\<close>

theorem append_after_torn_write_lost:
  assumes codes: "list_all (entry_codes mar unm) es" "list_all (entry_codes mar unm) fs" "fs \<noteq> []"
    and short: "length (records mar fs) < unat len"
    and room: "length (records mar es) + 8 + length (records mar fs) \<le> maxSegmentSize"
  shows "\<exists>w w1. wal_Open unm [(segment_path 1, records mar es @ PutUint32 len @ PutUint32 c)] = Inr w
    \<and> wal_AppendBatch mar fs w = (None, w1) \<and> wal_ReadAll unm w1 = Inr es"
proof -
  let ?f = "records mar es @ PutUint32 len @ PutUint32 c" let ?d = "[(segment_path 1, ?f)]"
  have glob: "Glob ''.wal'' [(segment_path 1, b)] = [segment_path 1]" for b
    using has_suffix_segment_path[of 1] by (simp add: Glob_def)
  have "0 < unat len" using short by simp
  then have "readSegment unm ?f = Inr es" using readSegment_bad_header[OF codes(1), of "[]" len c] by simp
  then obtain l where w: "wal_Open unm ?d = Inr \<lparr>w_files = ?d, w_current = Some (segment_path 1), w_buf = [],
      w_size = length ?f, w_lastIndex = l\<rparr>"
    by (cases "es = []") (simp_all add: wal_Open_def glob[simplified] read_file_def Let_def)
  let ?w = "\<lparr>w_files = ?d, w_current = Some (segment_path 1), w_buf = [], w_size = length ?f, w_lastIndex = l\<rparr>"
  obtain l' where b: "batch_loop mar fs ?w = (None, ?w\<lparr>w_buf := records mar fs,
      w_size := length ?f + length (records mar fs), w_lastIndex := l'\<rparr>)"
    using batch_loop_noroll[OF _ codes(2), of ?w] room by auto
  define w1 where "w1 = wal_flush (?w\<lparr>w_buf := records mar fs,
      w_size := length ?f + length (records mar fs), w_lastIndex := l'\<rparr>)"
  have "wal_AppendBatch mar fs ?w = (None, w1)" using b codes(3) by (simp add: wal_AppendBatch_def w1_def)
  moreover have "w_files w1 = [(segment_path 1, ?f @ records mar fs)]" by (simp add: w1_def wal_flush_def)
  then have "wal_ReadAll unm w1 = Inr es"
    using readSegment_bad_header[OF codes(1) short, of c] by (simp add: wal_ReadAll_def glob[simplified] read_file_def)
  ultimately show ?thesis using w by blast
qed

theorem append_after_torn_write_lost_witness:
  "\<exists>w w1. wal_Open sample_unm [(segment_path 1, records sample_mar [wal_entry 1] @ PutUint32 100 @ PutUint32 0)] = Inr w
    \<and> wal_AppendBatch sample_mar [wal_entry 2] w = (None, w1) \<and> wal_ReadAll sample_unm w1 = Inr [wal_entry 1]"
  by (rule append_after_torn_write_lost)
    (use sample_codes[of 1] sample_codes[of 2] in \<open>simp_all add: sample_mar_def headerSize_def maxSegmentSize_def\<close>)

end
