(* ===== verification/KV_LogMatching.thy ===== *)
theory KV_LogMatching
  imports KV_Cluster KV_RaftLog
begin

text \<open>
  The history argument behind log matching and leader completeness. A history maps every term to
  the log its leader has built (\<open>gT\<close>), every candidacy to the log it started with (\<open>gE\<close>), and
  records which node has stored which entry while in the entry's own term (\<open>gA\<close>) and which
  votes were cast before the term had a leader (\<open>gG\<close>). The lemmas are about logs and histories
  alone; how the handlers of \<open>raft/node.go\<close> move along the history is in \<open>KV_RaftSafety\<close>.
\<close>

section \<open>Logs that follow the leaders' logs\<close>

type_synonym tlog = "nat \<Rightarrow> LogEntry list"

text \<open>\<open>holds T t m l\<close>: the log \<open>l\<close> agrees with the log of term \<open>t\<close> up to and including index \<open>m\<close>.\<close>

definition holds :: "tlog \<Rightarrow> nat \<Rightarrow> nat \<Rightarrow> LogEntry list \<Rightarrow> bool" where
  "holds T t m l \<longleftrightarrow> m < length l \<and> m < length (T t) \<and> take (Suc m) l = take (Suc m) (T t)"

definition follows :: "tlog \<Rightarrow> LogEntry list \<Rightarrow> bool" where
  "follows T l \<longleftrightarrow> (\<forall>k < length l. holds T (le_term (l ! k)) k l)"

definition log_ok :: "tlog \<Rightarrow> nat \<Rightarrow> LogEntry list \<Rightarrow> bool" where
  "log_ok T b l \<longleftrightarrow> l \<noteq> [] \<and> l ! 0 = sentinel 0 0 \<and> (\<forall>k < length l. le_index (l ! k) = k)
     \<and> sorted (map le_term l) \<and> follows T l \<and> (\<forall>e \<in> set l. le_term e \<le> b)"

definition grows :: "tlog \<Rightarrow> tlog \<Rightarrow> bool" where
  "grows T T' \<longleftrightarrow> (\<forall>t. T t \<noteq> [] \<longrightarrow> (\<exists>es. T' t = T t @ es \<and> (\<forall>e \<in> set es. le_term e = t)))"

lemma take_Suc_eq_nth: "take (Suc m) l = take (Suc m) l' \<Longrightarrow> k \<le> m \<Longrightarrow> k < length l \<Longrightarrow> k < length l' \<Longrightarrow> l ! k = l' ! k"
  by (metis le_imp_less_Suc nth_take)

lemma take_Suc_eq_mono: "take (Suc m) l = take (Suc m) l' \<Longrightarrow> k \<le> m \<Longrightarrow> take (Suc k) l = take (Suc k) l'"
  by (metis Suc_le_mono min.absorb1 take_take)

lemma holds_nth: "holds T t m l \<Longrightarrow> k \<le> m \<Longrightarrow> l ! k = T t ! k"
  by (auto simp: holds_def intro: take_Suc_eq_nth)

lemma holds_le: "holds T t m l \<Longrightarrow> k \<le> m \<Longrightarrow> holds T t k l"
  by (auto simp: holds_def intro: take_Suc_eq_mono)

lemma holds_self: "m < length (T t) \<Longrightarrow> holds T t m (T t)"
  by (simp add: holds_def)

lemma holds_take: "holds T t m l \<Longrightarrow> m < n \<Longrightarrow> holds T t m (take n l)"
  by (auto simp: holds_def min_def)

lemma holds_append: "holds T t m l \<Longrightarrow> holds T t m (l @ l')"
  by (auto simp: holds_def)

lemma holds_cong: "take (Suc m) l = take (Suc m) l' \<Longrightarrow> m < length l' \<Longrightarrow> holds T t m l \<Longrightarrow> holds T t m l'"
  by (auto simp: holds_def)

lemma holds_trans: "holds T s m l \<Longrightarrow> holds T t m (T s) \<Longrightarrow> holds T t m l"
  by (auto simp: holds_def)

lemma follows_match:
  assumes "follows T l" "follows T l'" "k < length l" "k < length l'" "le_term (l ! k) = le_term (l' ! k)"
  shows "take (Suc k) l = take (Suc k) l'"
  using assms by (auto simp: follows_def holds_def)

lemma follows_take: "follows T l \<Longrightarrow> follows T (take n l)"
  by (auto simp: follows_def intro: holds_take)

lemma log_ok_take: "log_ok T b l \<Longrightarrow> 0 < n \<Longrightarrow> log_ok T b (take n l)"
  by (auto simp: log_ok_def follows_take take_map[symmetric] dest: in_set_takeD)

lemma log_ok_le: "log_ok T b l \<Longrightarrow> b \<le> b' \<Longrightarrow> log_ok T b' l"
  by (auto simp: log_ok_def)

lemma log_ok_tighten: "log_ok T b l \<Longrightarrow> (\<And>e. e \<in> set l \<Longrightarrow> le_term e \<le> b') \<Longrightarrow> log_ok T b' l"
  by (auto simp: log_ok_def)

lemma log_ok_terms: "log_ok T b l \<Longrightarrow> j \<le> k \<Longrightarrow> k < length l \<Longrightarrow> le_term (l ! j) \<le> le_term (l ! k)"
  using sorted_nth_mono[of "map le_term l" j k] by (simp add: log_ok_def)

lemma log_ok_last: "log_ok T b l \<Longrightarrow> holds T (le_term (last l)) (length l - 1) l"
  by (auto simp: log_ok_def follows_def last_conv_nth)

lemma log_ok_bound: "log_ok T b l \<Longrightarrow> k < length l \<Longrightarrow> le_term (l ! k) \<le> b"
  by (auto simp: log_ok_def)

lemma grows_refl [simp]: "grows T T"
  by (simp add: grows_def)

lemma grows_prefix: "grows T T' \<Longrightarrow> m < length (T t) \<Longrightarrow> take (Suc m) (T' t) = take (Suc m) (T t) \<and> m < length (T' t)"
  by (cases "T t = []") (auto simp: grows_def)

lemma grows_nth: "grows T T' \<Longrightarrow> m < length (T t) \<Longrightarrow> T' t ! m = T t ! m"
  using grows_prefix[of T T' m t] by (metis lessI nth_take)

lemma holds_grows: "grows T T' \<Longrightarrow> holds T t m l \<Longrightarrow> holds T' t m l"
  using grows_prefix[of T T' m t] by (auto simp: holds_def)

lemma log_ok_grows: "grows T T' \<Longrightarrow> log_ok T b l \<Longrightarrow> log_ok T' b l"
  by (auto simp: log_ok_def follows_def intro: holds_grows)

text \<open>A leader's log that lacks an entry of an earlier term never gets it.\<close>

lemma not_holds_grows:
  assumes g: "grows T T'" and t: "t < s" "T s \<noteq> []" and m: "m < length (T t)" "le_term (T t ! m) = t"
    and no: "\<not> holds T t m (T s)"
  shows "\<not> holds T' t m (T' s)"
proof
  assume h: "holds T' t m (T' s)"
  obtain es where es: "T' s = T s @ es" "\<forall>e \<in> set es. le_term e = s" using g t(2) by (auto simp: grows_def)
  have eq: "take (Suc m) (T' s) = take (Suc m) (T t)" "m < length (T' s)"
    using h grows_prefix[OF g m(1)] by (auto simp: holds_def)
  show False
  proof (cases "m < length (T s)")
    case True
    then show False using eq no m(1) es(1) by (simp add: holds_def)
  next
    case False
    then have "T' s ! m \<in> set es" using es(1) eq(2) by (simp add: nth_append)
    moreover have "T' s ! m = T t ! m" using eq m(1) by (metis lessI nth_take)
    ultimately show False using es(2) m(2) t(1) by auto
  qed
qed

section \<open>Splicing a leader's entries into a log\<close>

lemma splice_agree:
  assumes "\<And>k. k < length old \<Longrightarrow> k < length es \<Longrightarrow> le_term (old ! k) = le_term (es ! k) \<Longrightarrow> old ! k = es ! k"
  shows "splice_log old es = old \<and> take (length es) old = es
    \<or> splice_log old es = es
        \<and> (length old \<le> length es \<or> (\<exists>q < length es. q < length old \<and> le_term (old ! q) \<noteq> le_term (es ! q)))"
  using assms
proof (induction old es rule: splice_log.induct)
  case (3 x old e es)
  show ?case
  proof (cases "le_term x = le_term e")
    case True
    then have xe: "x = e" using "3.prems"[of 0] by simp
    have "splice_log old es = old \<and> take (length es) old = es
      \<or> splice_log old es = es
          \<and> (length old \<le> length es \<or> (\<exists>q < length es. q < length old \<and> le_term (old ! q) \<noteq> le_term (es ! q)))"
      using "3.IH"[OF True] "3.prems"[of "Suc _"] by simp
    then show ?thesis using xe by (auto intro: exI[of _ "Suc _"])
  next
    case False
    then show ?thesis by (auto intro!: exI[of _ 0])
  qed
qed auto

text \<open>
  The log after a request from the leader of term \<open>t\<close>: either unchanged or the leader's log up
  to the end of the request; it agrees with the leader's log up to there, and whatever agreed
  with the leader's log before still does.
\<close>

lemma splice_leader:
  assumes l: "log_ok T b l" and L: "log_ok T t (T t)"
    and p: "p < length l" "take (Suc p) l = take (Suc p) (T t)"
    and es: "Suc p + length es \<le> length (T t)" "take (Suc p + length es) (T t) = take (Suc p) (T t) @ es"
  defines "l' \<equiv> take (Suc p) l @ splice_log (drop (Suc p) l) es"
  shows "l' = l \<or> l' = take (Suc p + length es) (T t)"
    and "holds T t (p + length es) l'"
    and "\<And>m. holds T t m l \<Longrightarrow> holds T t m l'"
proof -
  let ?n = "Suc p + length es" and ?old = "drop (Suc p) l"
  have nth_es: "es ! k = T t ! (Suc p + k)" if "k < length es" for k
  proof -
    have "es ! k = (take (Suc p) (T t) @ es) ! (Suc p + k)" using es(1) by (simp add: nth_append)
    also have "\<dots> = take (Suc p + length es) (T t) ! (Suc p + k)" by (simp only: es(2))
    also have "\<dots> = T t ! (Suc p + k)" by (rule nth_take) (simp add: that)
    finally show ?thesis .
  qed
  have nth_old: "?old ! k = l ! (Suc p + k)" if "k < length ?old" for k using that by simp
  have agree: "?old ! k = es ! k"
    if "k < length ?old" "k < length es" "le_term (?old ! k) = le_term (es ! k)" for k
  proof -
    have k: "Suc p + k < length l" "Suc p + k < length (T t)" using that es(1) by auto
    have "take (Suc (Suc p + k)) l = take (Suc (Suc p + k)) (T t)"
      using l L k that by (intro follows_match[of T]) (auto simp: log_ok_def nth_es nth_old)
    from take_Suc_eq_nth[OF this order_refl k] show ?thesis
      by (simp only: nth_es[OF that(2)] nth_old[OF that(1)])
  qed
  have whole: "take ?n (T t) = take (Suc p) l @ es" by (simp only: p(2) es(2))
  have lenn: "length (take ?n (T t)) = ?n" using es(1) by simp
  have last_n: "Suc (p + length es) = ?n" by simp
  from splice_agree[of ?old es, OF agree]
  consider (same) "l' = l" "take (length es) ?old = es"
    | (long) "l' = take ?n (T t)" "length ?old \<le> length es"
    | (diff) q where "l' = take ?n (T t)" "q < length es" "q < length ?old" "le_term (?old ! q) \<noteq> le_term (es ! q)"
    unfolding whole l'_def by auto
  note cases = this
  show "l' = l \<or> l' = take ?n (T t)" using cases by cases auto
  show "holds T t (p + length es) l'"
  proof (cases rule: cases)
    case same
    have "take ?n l = take (Suc p) l @ take (length es) ?old" by (rule take_add)
    then have eq: "take ?n l = take ?n (T t)" using same(2) whole by simp
    then have "length (take ?n l) = ?n" using lenn by simp
    then show ?thesis using eq same(1) es(1) unfolding holds_def last_n by simp
  qed (use lenn es(1) in \<open>simp_all add: holds_def\<close>)
  show "holds T t m l'" if m: "holds T t m l" for m
  proof (cases rule: cases)
    case long
    then have "m < ?n" using m p(1) by (auto simp: holds_def)
    then show ?thesis using m es(1) unfolding long(1) by (auto simp: holds_def min_def)
  next
    case (diff q)
    have "m < Suc p + q"
    proof (rule ccontr)
      assume "\<not> ?thesis"
      then have "l ! (Suc p + q) = T t ! (Suc p + q)" using holds_nth[OF m] by simp
      then show False using diff(2-4) nth_es nth_old by simp
    qed
    then have "m < ?n" using diff(2) by simp
    then show ?thesis using m es(1) unfolding diff(1) by (auto simp: holds_def min_def)
  qed (use m in simp)
qed

section \<open>Histories\<close>

record ghost =
  gT :: tlog
  gE :: "nat \<Rightarrow> string \<Rightarrow> LogEntry list"
  gA :: "(nat \<times> string \<times> nat) set"
  gG :: "(nat \<times> string \<times> string) set"

definition blamed :: "ghost \<Rightarrow> nat \<Rightarrow> nat \<Rightarrow> nat \<Rightarrow> bool" where
  "blamed g t m b \<longleftrightarrow> (\<exists>s. t < s \<and> s \<le> b \<and> gT g s \<noteq> [] \<and> \<not> holds (gT g) t m (gT g s))"

definition majority :: "string list \<Rightarrow> string set \<Rightarrow> bool" where
  "majority ids V \<longleftrightarrow> length ids div 2 + 1 \<le> card {v \<in> set ids. v \<in> V}"

definition ghost_ok :: "string list \<Rightarrow> (nat \<times> string) set \<Rightarrow> ghost \<Rightarrow> bool" where
  "ghost_ok ids el g \<longleftrightarrow> gT g 0 = [sentinel 0 0]
     \<and> (\<forall>t > 0. gT g t \<noteq> [] \<longleftrightarrow> (\<exists>i. (t, i) \<in> el))
     \<and> (\<forall>t. gT g t \<noteq> [] \<longrightarrow> log_ok (gT g) t (gT g t))
     \<and> (\<forall>t i. (t, i) \<in> el \<longrightarrow> 0 < t \<and> gE g t i \<noteq> [] \<and> take (length (gE g t i)) (gT g t) = gE g t i
          \<and> majority ids {v. (t, v, i) \<in> gG g})
     \<and> (\<forall>t i. gE g t i \<noteq> [] \<longrightarrow> 0 < t \<and> log_ok (gT g) (t - 1) (gE g t i))
     \<and> (\<forall>t v m. (t, v, m) \<in> gA g \<longrightarrow> 0 < t \<and> m < length (gT g t) \<and> le_term (gT g t ! m) = t)
     \<and> (\<forall>s v c. (s, v, c) \<in> gG g \<longrightarrow> gE g s c \<noteq> []
          \<and> (\<forall>t m. (t, v, m) \<in> gA g \<longrightarrow> t < s \<longrightarrow> holds (gT g) t m (gE g s c) \<or> blamed g t m (s - 1)))"

lemma ghost_T0: "ghost_ok ids el g \<Longrightarrow> gT g 0 = [sentinel 0 0]"
  by (simp add: ghost_ok_def)

lemma ghost_led: "ghost_ok ids el g \<Longrightarrow> 0 < t \<Longrightarrow> gT g t \<noteq> [] \<longleftrightarrow> (\<exists>i. (t, i) \<in> el)"
  unfolding ghost_ok_def by blast

lemma ghost_log: "ghost_ok ids el g \<Longrightarrow> gT g t \<noteq> [] \<Longrightarrow> log_ok (gT g) t (gT g t)"
  unfolding ghost_ok_def by blast

lemma ghost_elected:
  assumes "ghost_ok ids el g" "(t, i) \<in> el"
  shows "0 < t" "gE g t i \<noteq> []" "take (length (gE g t i)) (gT g t) = gE g t i" "majority ids {v. (t, v, i) \<in> gG g}"
    "gT g t \<noteq> []"
  using assms unfolding ghost_ok_def by blast+

lemma ghost_candidacy:
  assumes "ghost_ok ids el g" "gE g t i \<noteq> []" shows "0 < t" "log_ok (gT g) (t - 1) (gE g t i)"
  using assms unfolding ghost_ok_def by blast+

lemma ghost_stored:
  assumes "ghost_ok ids el g" "(t, v, m) \<in> gA g"
  shows "0 < t" "m < length (gT g t)" "le_term (gT g t ! m) = t"
  using assms unfolding ghost_ok_def by blast+

lemma ghost_vote:
  assumes "ghost_ok ids el g" "(s, v, c) \<in> gG g"
  shows "gE g s c \<noteq> []"
    "(t, v, m) \<in> gA g \<Longrightarrow> t < s \<Longrightarrow> holds (gT g) t m (gE g s c) \<or> blamed g t m (s - 1)"
  using assms unfolding ghost_ok_def by blast+

definition committed :: "string list \<Rightarrow> ghost \<Rightarrow> nat \<Rightarrow> nat \<Rightarrow> bool" where
  "committed ids g t m \<longleftrightarrow> m < length (gT g t) \<and> le_term (gT g t ! m) = t \<and> majority ids {v. (t, v, m) \<in> gA g}"

lemma majority_mono: "V \<subseteq> W \<Longrightarrow> majority ids V \<Longrightarrow> majority ids W"
  unfolding majority_def by (erule le_trans, rule card_mono) auto

lemma majorities_meet:
  assumes "majority ids V" "majority ids W" obtains v where "v \<in> set ids" "v \<in> V" "v \<in> W"
  using quorums_meet[of "{v \<in> set ids. v \<in> V}" ids "{v \<in> set ids. v \<in> W}"] assms
  unfolding majority_def by fastforce

text \<open>
  Leader completeness: every later leader's log has every committed entry. Take the first later
  leader that lacks it; some node both stored the entry in its term and voted for that leader.
\<close>

lemma completeness:
  assumes ok: "ghost_ok ids el g" and cm: "committed ids g t m" and s: "t \<le> s" "gT g s \<noteq> []"
  shows "holds (gT g) t m (gT g s)"
  using s
proof (induction s rule: less_induct)
  case (less s)
  have m: "m < length (gT g t)" and maj: "majority ids {v. (t, v, m) \<in> gA g}"
    using cm by (simp_all add: committed_def)
  show ?case
  proof (cases "t = s")
    case True
    then show ?thesis using holds_self[of m "gT g" t] m by simp
  next
    case False
    with less.prems(1) have ts: "t < s" by simp
    then have "0 < s" by simp
    with less.prems(2) obtain i where el: "(s, i) \<in> el" using ghost_led[OF ok] by blast
    note E = ghost_elected(3,4)[OF ok el]
    obtain v where "(t, v, m) \<in> gA g" "(s, v, i) \<in> gG g" using majorities_meet[OF maj E(2)] by blast
    then consider "holds (gT g) t m (gE g s i)" | "blamed g t m (s - 1)" using ghost_vote(2)[OF ok] ts by blast
    then show ?thesis
    proof cases
      case 1
      have "holds (gT g) t m (take (length (gE g s i)) (gT g s))" using 1 E(1) by simp
      then show ?thesis
        using holds_append[of "gT g" t m "take (length (gE g s i)) (gT g s)" "drop (length (gE g s i)) (gT g s)"]
        by simp
    next
      case 2
      then obtain u where "t < u" "u \<le> s - 1" "gT g u \<noteq> []" "\<not> holds (gT g) t m (gT g u)"
        by (auto simp: blamed_def)
      then show ?thesis using less.IH[of u] ts by auto
    qed
  qed
qed

section \<open>How histories grow\<close>

definition extends :: "ghost \<Rightarrow> ghost \<Rightarrow> bool" where
  "extends g g' \<longleftrightarrow> grows (gT g) (gT g') \<and> (\<forall>t i. gE g t i \<noteq> [] \<longrightarrow> gE g' t i = gE g t i)
     \<and> gA g \<subseteq> gA g' \<and> gG g \<subseteq> gG g'"

lemma extends_refl [simp]: "extends g g"
  by (simp add: extends_def)

lemma grows_trans:
  assumes "grows T T'" "grows T' T''" shows "grows T T''"
  unfolding grows_def
proof (intro allI impI)
  fix t assume "T t \<noteq> []"
  moreover from this obtain es where "T' t = T t @ es" "\<forall>e \<in> set es. le_term e = t" using assms(1) by (auto simp: grows_def)
  moreover from this \<open>T t \<noteq> []\<close> obtain fs where "T'' t = T' t @ fs" "\<forall>e \<in> set fs. le_term e = t"
    using assms(2) unfolding grows_def by (metis append_is_Nil_conv)
  ultimately show "\<exists>es. T'' t = T t @ es \<and> (\<forall>e \<in> set es. le_term e = t)" by (intro exI[of _ "es @ fs"]) auto
qed

lemma extends_trans:
  assumes "extends g g'" "extends g' g''" shows "extends g g''"
  using assms grows_trans[of "gT g" "gT g'" "gT g''"] by (auto simp: extends_def)

lemma blamed_grows:
  assumes "grows (gT g) (gT g')" "m < length (gT g t)" "le_term (gT g t ! m) = t" "blamed g t m b" "b \<le> b'"
  shows "blamed g' t m b'"
proof -
  obtain s where s: "t < s" "s \<le> b" "gT g s \<noteq> []" "\<not> holds (gT g) t m (gT g s)"
    using assms(4) by (auto simp: blamed_def)
  moreover have "gT g' s \<noteq> []" using assms(1) s(3) by (auto simp: grows_def)
  moreover have "\<not> holds (gT g') t m (gT g' s)" by (rule not_holds_grows[OF assms(1) s(1,3) assms(2,3) s(4)])
  ultimately show ?thesis using assms(5) unfolding blamed_def by (meson le_trans)
qed

lemma committed_extends: "extends g g' \<Longrightarrow> committed ids g t m \<Longrightarrow> committed ids g' t m"
  unfolding committed_def extends_def
  using grows_prefix[of "gT g" "gT g'" m t] grows_nth[of "gT g" "gT g'" m t]
  by (auto elim: majority_mono[rotated])

lemma grows_update: "(T t \<noteq> [] \<Longrightarrow> l = T t @ es \<and> (\<forall>e \<in> set es. le_term e = t)) \<Longrightarrow> grows T (T(t := l))"
  by (auto simp: grows_def)

text \<open>A vote in a term without a leader so far.\<close>

lemma ghost_add_vote:
  assumes "ghost_ok ids el g" "gE g s c \<noteq> []"
    and "\<And>t m. (t, v, m) \<in> gA g \<Longrightarrow> t < s \<Longrightarrow> holds (gT g) t m (gE g s c) \<or> blamed g t m (s - 1)"
  shows "ghost_ok ids el (g\<lparr>gG := insert (s, v, c) (gG g)\<rparr>)"
proof -
  have b: "blamed (g\<lparr>gG := X\<rparr>) = blamed g" for X by (simp add: blamed_def fun_eq_iff)
  have m: "majority ids {w. (t, w, i) \<in> insert (s, v, c) (gG g)}" if "majority ids {w. (t, w, i) \<in> gG g}" for t i
    using that by (rule majority_mono[rotated]) auto
  show ?thesis using assms m unfolding ghost_ok_def by (simp add: b)
qed

text \<open>A new candidacy.\<close>

lemma ghost_start:
  assumes "ghost_ok ids el g" "gE g s i = []" "0 < s" "log_ok (gT g) (s - 1) l"
  shows "ghost_ok ids el (g\<lparr>gE := (gE g)(s := (gE g s)(i := l))\<rparr>)"
proof -
  have b: "blamed (g\<lparr>gE := X\<rparr>) = blamed g" for X by (simp add: blamed_def fun_eq_iff)
  have "(s, i) \<notin> el" using ghost_elected(2)[OF assms(1)] assms(2) by blast
  moreover have "(s, v, i) \<notin> gG g" for v using ghost_vote(1)[OF assms(1)] assms(2) by blast
  ultimately show ?thesis using assms unfolding ghost_ok_def by (auto simp: b)
qed

text \<open>Histories that differ in the leaders' logs.\<close>

lemma ghost_grow:
  assumes ok: "ghost_ok ids el g" and gr: "grows (gT g) T'" and z: "T' 0 = gT g 0"
    and led: "\<And>t. 0 < t \<Longrightarrow> T' t \<noteq> [] \<longleftrightarrow> (\<exists>i. (t, i) \<in> el')"
    and new: "\<And>t. T' t \<noteq> [] \<Longrightarrow> T' t \<noteq> gT g t \<Longrightarrow> log_ok T' t (T' t)"
    and el: "\<And>t i. (t, i) \<in> el' \<Longrightarrow> (t, i) \<notin> el \<Longrightarrow> 0 < t \<and> gE g t i \<noteq> [] \<and> T' t = gE g t i
      \<and> majority ids {v. (t, v, i) \<in> gG g}"
  shows "ghost_ok ids el' (g\<lparr>gT := T'\<rparr>)"
  unfolding ghost_ok_def
proof (intro conjI allI impI)
  let ?g = "g\<lparr>gT := T'\<rparr>"
  show "gT ?g 0 = [sentinel 0 0]" using z ghost_T0[OF ok] by simp
  show "(gT ?g t \<noteq> []) = (\<exists>i. (t, i) \<in> el')" if "0 < t" for t using led[OF that] by simp
  show "log_ok (gT ?g) t (gT ?g t)" if "gT ?g t \<noteq> []" for t
    using that new[of t] log_ok_grows[OF gr ghost_log[OF ok, of t]] by (cases "T' t = gT g t") auto
  have old: "take (length (gE g t i)) (T' t) = gE g t i" if ti: "(t, i) \<in> el" for t i
  proof -
    obtain es where es: "T' t = gT g t @ es" using gr ghost_elected(5)[OF ok ti] by (auto simp: grows_def)
    have "length (gE g t i) \<le> length (gT g t)" using ghost_elected(3)[OF ok ti] by (metis nat_le_linear take_all)
    then show ?thesis using es ghost_elected(3)[OF ok ti] by simp
  qed
  fix t i assume "(t, i) \<in> el'"
  then show "0 < t" "gE ?g t i \<noteq> []" "take (length (gE ?g t i)) (gT ?g t) = gE ?g t i"
    "majority ids {v. (t, v, i) \<in> gG ?g}"
    using el[of t i] ghost_elected[OF ok, of t i] old[of t i] by (cases "(t, i) \<in> el"; auto)+
next
  let ?g = "g\<lparr>gT := T'\<rparr>"
  fix t i assume "gE ?g t i \<noteq> []"
  then show "0 < t" "log_ok (gT ?g) (t - 1) (gE ?g t i)"
    using ghost_candidacy[OF ok, of t i] log_ok_grows[OF gr] by auto
next
  let ?g = "g\<lparr>gT := T'\<rparr>"
  fix t v m assume "(t, v, m) \<in> gA ?g"
  then show "0 < t" "m < length (gT ?g t)" "le_term (gT ?g t ! m) = t"
    using ghost_stored[OF ok, of t v m] grows_prefix[OF gr, of m t] grows_nth[OF gr, of m t] by auto
next
  let ?g = "g\<lparr>gT := T'\<rparr>"
  fix s v c assume G: "(s, v, c) \<in> gG ?g"
  then show "gE ?g s c \<noteq> []" using ghost_vote(1)[OF ok] by simp
  fix t m assume A: "(t, v, m) \<in> gA ?g" and ts: "t < s"
  have "holds (gT g) t m (gE g s c) \<or> blamed g t m (s - 1)" using ghost_vote(2)[OF ok _ _ ts] G A by simp
  then show "holds (gT ?g) t m (gE ?g s c) \<or> blamed ?g t m (s - 1)"
    using holds_grows[OF gr] blamed_grows[of g ?g m t "s - 1" "s - 1"] ghost_stored[OF ok, of t v m] A gr by auto
qed

text \<open>A candidate with a majority of early votes becomes leader.\<close>

lemma ghost_elect:
  assumes ok: "ghost_ok ids el g" and t: "0 < t" "gT g t = []" and l: "gE g t i = l" "l \<noteq> []"
    and maj: "majority ids {v. (t, v, i) \<in> gG g}"
  shows "ghost_ok ids (insert (t, i) el) (g\<lparr>gT := (gT g)(t := l)\<rparr>)" "grows (gT g) ((gT g)(t := l))"
proof -
  show gr: "grows (gT g) ((gT g)(t := l))" using t(2) by (intro grows_update) auto
  have "(t, j) \<notin> el" for j using ghost_elected(5)[OF ok] t(2) by blast
  have "log_ok (gT g) (t - 1) l" using ghost_candidacy[OF ok, of t i] l by simp
  then have lo: "log_ok ((gT g)(t := l)) t l" by (rule log_ok_le[OF log_ok_grows[OF gr]]) simp
  show "ghost_ok ids (insert (t, i) el) (g\<lparr>gT := (gT g)(t := l)\<rparr>)"
    using t l maj lo ghost_led[OF ok] by (intro ghost_grow[OF ok gr]) (auto split: if_splits)
qed

text \<open>A leader appends an entry of its term.\<close>

lemma ghost_propose:
  assumes ok: "ghost_ok ids el g" and t: "0 < t" and l: "gT g t = l" "l \<noteq> []"
    and e: "le_term e = t" "le_index e = length l"
  shows "ghost_ok ids el (g\<lparr>gT := (gT g)(t := l @ [e])\<rparr>)" "grows (gT g) ((gT g)(t := l @ [e]))"
    "log_ok ((gT g)(t := l @ [e])) t (l @ [e])"
proof -
  let ?T = "(gT g)(t := l @ [e])"
  show gr: "grows (gT g) ?T" using l e by (intro grows_update) auto
  have lo: "log_ok ?T t l" using ghost_log[OF ok, of t] l by (intro log_ok_grows[OF gr]) auto
  have "holds ?T (le_term ((l @ [e]) ! k)) k (l @ [e])" if "k < length (l @ [e])" for k
  proof (cases "k < length l")
    case True
    then have "holds ?T (le_term (l ! k)) k l" using lo by (simp add: log_ok_def follows_def)
    then show ?thesis using True holds_append by (simp add: nth_append)
  next
    case False
    with that have "k = length l" by simp
    then show ?thesis using e by (simp add: holds_def)
  qed
  then show lo': "log_ok ?T t (l @ [e])"
    using lo e by (auto simp: log_ok_def follows_def nth_append sorted_append less_Suc_eq)
  show "ghost_ok ids el (g\<lparr>gT := ?T\<rparr>)"
    using t l lo' ghost_led[OF ok] by (intro ghost_grow[OF ok gr]) (auto split: if_splits)
qed

text \<open>A node stores entries of its current term.\<close>

lemma ghost_store:
  assumes ok: "ghost_ok ids el g" and t: "0 < t"
    and M: "\<And>m. m \<in> M \<Longrightarrow> m < length (gT g t) \<and> le_term (gT g t ! m) = t"
    and late: "\<And>s c. (s, v, c) \<in> gG g \<Longrightarrow> s \<le> t"
  shows "ghost_ok ids el (g\<lparr>gA := gA g \<union> {(t, v, m) | m. m \<in> M}\<rparr>)"
proof -
  have b: "blamed (g\<lparr>gA := X\<rparr>) = blamed g" for X by (simp add: blamed_def fun_eq_iff)
  let ?A = "gA g \<union> {(t, v, m) | m. m \<in> M}"
  have st: "0 < s \<and> m < length (gT g s) \<and> le_term (gT g s ! m) = s" if "(s, w, m) \<in> ?A" for s w m
    using that ghost_stored[OF ok, of s w m] M t by auto
  have vt: "holds (gT g) u m (gE g s c) \<or> blamed g u m (s - 1)"
    if "(s, w, c) \<in> gG g" "(u, w, m) \<in> ?A" "u < s" for s w c u m
  proof -
    have "\<not> (u = t \<and> w = v)" using late[of s c] that(1,3) by auto
    then have "(u, w, m) \<in> gA g" using that(2) by auto
    then show ?thesis using ghost_vote(2)[OF ok that(1)] that(3) by simp
  qed
  show ?thesis
    unfolding ghost_ok_def using ok[unfolded ghost_ok_def] st vt by (simp add: b)
qed

end
