(* ===== verification/KV_RaftSafety.thy ===== *)
theory KV_RaftSafety
  imports KV_LogMatching
begin

text \<open>
  The invariant behind log matching, leader completeness and state machine safety for clusters of the
  nodes of \<open>raft/node.go\<close>: every step of the cluster without log compaction (which the server never
  turns on) extends the history of \<open>KV_LogMatching\<close>, and the invariant ties every node and every
  message to it. Restarts, and what follows from the invariant, are in \<open>KV_Recovery\<close>.
\<close>

section \<open>The invariant\<close>

text \<open>Node \<open>p\<close> has stored the entries of term \<open>t\<close> up to index \<open>k\<close> of that term's log.\<close>

definition acked :: "ghost \<Rightarrow> nat \<Rightarrow> string \<Rightarrow> nat \<Rightarrow> bool" where
  "acked g t p k \<longleftrightarrow> k < length (gT g t)
     \<and> (\<forall>j. 0 < j \<and> j \<le> k \<and> le_term (gT g t ! j) = t \<longrightarrow> (t, p, j) \<in> gA g)"

definition commit_ok :: "string list \<Rightarrow> ghost \<Rightarrow> nat \<Rightarrow> nat \<Rightarrow> LogEntry list \<Rightarrow> bool" where
  "commit_ok ids g b k l \<longleftrightarrow>
     k = 0 \<or> (\<exists>t m. committed ids g t m \<and> k \<le> m \<and> t \<le> b \<and> holds (gT g) t k l)"

definition request_ok :: "ghost \<Rightarrow> RequestVoteRequest \<Rightarrow> bool" where
  "request_ok g r \<longleftrightarrow> gE g (rv_Term r) (rv_CandidateId r) \<noteq> []
     \<and> rv_LastLogIndex r = length (gE g (rv_Term r) (rv_CandidateId r)) - 1
     \<and> rv_LastLogTerm r = le_term (last (gE g (rv_Term r) (rv_CandidateId r)))"

definition req_end :: "AppendEntriesRequest \<Rightarrow> nat" where
  "req_end r = ae_PrevLogIndex r + length (ae_Entries r)"

definition append_ok :: "string list \<Rightarrow> (nat \<times> string) set \<Rightarrow> ghost \<Rightarrow> string \<Rightarrow> AppendEntriesRequest \<Rightarrow> bool" where
  "append_ok ids el g p r \<longleftrightarrow> p \<in> set ids \<and> p \<noteq> ae_LeaderId r \<and> (ae_Term r, ae_LeaderId r) \<in> el
     \<and> req_end r < length (gT g (ae_Term r))
     \<and> (0 < ae_PrevLogIndex r \<longrightarrow> ae_PrevLogTerm r = le_term (gT g (ae_Term r) ! ae_PrevLogIndex r))
     \<and> take (Suc (req_end r)) (gT g (ae_Term r)) = take (Suc (ae_PrevLogIndex r)) (gT g (ae_Term r)) @ ae_Entries r
     \<and> ae_LeaderCommit r \<le> req_end r \<and> commit_ok ids g (ae_Term r) (ae_LeaderCommit r) (gT g (ae_Term r))"

fun message_ok :: "string list \<Rightarrow> (nat \<times> string) set \<Rightarrow> ghost \<Rightarrow> message \<Rightarrow> bool" where
  "message_ok ids el g (RVReq p r) \<longleftrightarrow> request_ok g r"
| "message_ok ids el g (RVResp i t p resp) \<longleftrightarrow> True"
| "message_ok ids el g (AEReq p r) \<longleftrightarrow> append_ok ids el g p r"
| "message_ok ids el g (AEResp i p r resp) \<longleftrightarrow> append_ok ids el g p r \<and> i = ae_LeaderId r
     \<and> (aer_Success resp \<longrightarrow> acked g (ae_Term r) p (req_end r))
     \<and> (\<not> aer_Success resp \<longrightarrow> aer_Term resp \<le> ae_Term r \<longrightarrow> aer_ConflictIndex resp \<le> ae_PrevLogIndex r)"
| "message_ok ids el g _ \<longleftrightarrow> False"

definition leader_ok :: "string list \<Rightarrow> ghost \<Rightarrow> string \<Rightarrow> 's Node \<Rightarrow> bool" where
  "leader_ok ids g i n \<longleftrightarrow> gT g (currentTerm n) = log n
     \<and> (\<forall>m < length (log n). le_term (log n ! m) = currentTerm n \<longrightarrow> (currentTerm n, i, m) \<in> gA g)
     \<and> (\<forall>p \<in> set ids - {i}. 0 < map_get (nextIndex n) p \<and> map_get (nextIndex n) p \<le> length (log n))
     \<and> (\<forall>(p, k) \<in> set (matchIndex n). acked g (currentTerm n) p k)"

definition delivered :: "'s Node \<Rightarrow> bool" where
  "delivered n \<longleftrightarrow> ApplyCh n = map CommandMsg (map ((!) (log n)) [1..<Suc (commitIndex n)])"

definition replica_ok :: "string list \<Rightarrow> (nat \<times> string) set \<Rightarrow> ghost \<Rightarrow> string \<Rightarrow> 's Node \<Rightarrow> bool" where
  "replica_ok ids el g i n \<longleftrightarrow> lastIncludedIndex n = 0 \<and> log_ok (gT g) (currentTerm n) (log n)
     \<and> (\<forall>t m. (t, i, m) \<in> gA g \<longrightarrow> t \<le> currentTerm n \<and> (holds (gT g) t m (log n) \<or> blamed g t m (currentTerm n)))
     \<and> commit_ok ids g (currentTerm n) (commitIndex n) (log n) \<and> delivered n
     \<and> distinct (map fst (matchIndex n)) \<and> fst ` set (matchIndex n) \<subseteq> set ids - {i}
     \<and> (role n = RoleLeader \<longrightarrow> leader_ok ids g i n)
     \<and> (role n = RoleCandidate \<longrightarrow> (currentTerm n, i) \<notin> el \<and> gE g (currentTerm n) i = log n)
     \<and> (\<forall>t. (t, i) \<in> el \<or> gE g t i \<noteq> [] \<longrightarrow> t \<le> currentTerm n)
     \<and> (\<forall>(p, r) \<in> vote_requests n. request_ok g r)
     \<and> (\<forall>p. GoReplicate p \<in> set (goroutines n) \<longrightarrow> p \<in> set ids - {i})"

definition early_votes :: "'s cluster \<Rightarrow> ghost \<Rightarrow> bool" where
  "early_votes c g \<longleftrightarrow> gG g \<subseteq> granted c
     \<and> (\<forall>t v i. (t, v, i) \<in> granted c \<longrightarrow> (\<forall>j. (t, j) \<notin> elected c) \<longrightarrow> (t, v, i) \<in> gG g)"

definition raft_inv :: "string list \<Rightarrow> 's cluster \<Rightarrow> ghost \<Rightarrow> bool" where
  "raft_inv ids c g \<longleftrightarrow> ghost_ok ids (elected c) g \<and> early_votes c g
     \<and> (\<forall>i \<in> set ids. replica_ok ids (elected c) g i (nd c i)) \<and> (\<forall>m \<in> net c. message_ok ids (elected c) g m)"

section \<open>The invariant along longer histories\<close>

lemma acked_extends:
  assumes "extends g g'" "acked g t p k" shows "acked g' t p k"
proof -
  have g: "grows (gT g) (gT g')" "gA g \<subseteq> gA g'" using assms(1) by (auto simp: extends_def)
  have k: "k < length (gT g t)" using assms(2) by (simp add: acked_def)
  have "gT g' t ! j = gT g t ! j" if "j \<le> k" for j using grows_nth[OF g(1)] that k by simp
  then show ?thesis using assms(2) g(2) grows_prefix[OF g(1) k] by (auto simp: acked_def)
qed

lemma commit_ok_extends:
  assumes "extends g g'" "commit_ok ids g b k l" shows "commit_ok ids g' b k l"
proof -
  have "grows (gT g) (gT g')" using assms(1) by (simp add: extends_def)
  then show ?thesis
    using assms(2) committed_extends[OF assms(1), of ids] holds_grows unfolding commit_ok_def by blast
qed

lemma commit_ok_le: "commit_ok ids g b k l \<Longrightarrow> b \<le> b' \<Longrightarrow> commit_ok ids g b' k l"
  unfolding commit_ok_def by (auto dest: le_trans[of _ b b'])

lemma request_ok_extends: "extends g g' \<Longrightarrow> request_ok g r \<Longrightarrow> request_ok g' r"
  by (auto simp: request_ok_def extends_def)

lemma commit_ok_append: "commit_ok ids g b k l \<Longrightarrow> commit_ok ids g b k (l @ l')"
  unfolding commit_ok_def using holds_append by blast

lemma append_ok_extends:
  assumes "ghost_ok ids el g" "extends g g'" "el \<subseteq> el'" "append_ok ids el g p r"
  shows "append_ok ids el' g' p r"
proof -
  let ?t = "ae_Term r"
  have "(?t, ae_LeaderId r) \<in> el" using assms(4) by (simp add: append_ok_def)
  then obtain es where es: "gT g' ?t = gT g ?t @ es"
    using ghost_elected(5)[OF assms(1)] assms(2) unfolding extends_def grows_def by blast
  have k: "ae_PrevLogIndex r + length (ae_Entries r) < length (gT g ?t)"
    using assms(4) by (simp add: append_ok_def req_end_def)
  have "take (Suc (req_end r)) (gT g' ?t) = take (Suc (req_end r)) (gT g ?t)"
    "take (Suc (ae_PrevLogIndex r)) (gT g' ?t) = take (Suc (ae_PrevLogIndex r)) (gT g ?t)"
    using k by (simp_all add: es req_end_def)
  moreover have "commit_ok ids g' ?t (ae_LeaderCommit r) (gT g' ?t)"
    using assms(2,4) by (auto simp: append_ok_def es intro: commit_ok_append commit_ok_extends)
  ultimately show ?thesis using assms(3,4) k by (auto simp: append_ok_def req_end_def es nth_append)
qed

lemma message_ok_extends:
  assumes "ghost_ok ids el g" "extends g g'" "el \<subseteq> el'" "message_ok ids el g m"
  shows "message_ok ids el' g' m"
  using assms append_ok_extends[OF assms(1-3)] request_ok_extends[OF assms(2)] acked_extends[OF assms(2)]
  by (cases m) auto

lemma replica_ok_extends:
  assumes gok: "ghost_ok ids el g" and ext: "extends g g'" and r: "replica_ok ids el g i n"
    and A: "\<And>t m. (t, i, m) \<in> gA g' \<Longrightarrow> (t, i, m) \<in> gA g" and E: "\<And>t. gE g' t i \<noteq> [] \<Longrightarrow> gE g t i \<noteq> []"
    and el: "\<And>t. (t, i) \<in> el' \<Longrightarrow> (t, i) \<in> el"
    and T: "role n = RoleLeader \<Longrightarrow> gT g' (currentTerm n) = gT g (currentTerm n)"
  shows "replica_ok ids el' g' i n"
proof -
  have gr: "grows (gT g) (gT g')" using ext by (simp add: extends_def)
  have ld: "leader_ok ids g' i n" if "role n = RoleLeader"
  proof -
    have "leader_ok ids g i n" using r that by (simp add: replica_ok_def)
    then show ?thesis using T[OF that] ext acked_extends[OF ext] unfolding leader_ok_def extends_def
      by (simp add: case_prod_beta subset_iff)
  qed
  have st: "t \<le> currentTerm n \<and> (holds (gT g') t m (log n) \<or> blamed g' t m (currentTerm n))" if "(t, i, m) \<in> gA g'" for t m
  proof -
    have a: "(t, i, m) \<in> gA g" by (rule A[OF that])
    then have "t \<le> currentTerm n" "holds (gT g) t m (log n) \<or> blamed g t m (currentTerm n)"
      using r by (auto simp: replica_ok_def)
    then show ?thesis
      using holds_grows[OF gr] blamed_grows[OF gr ghost_stored(2,3)[OF gok a], of "currentTerm n"] by blast
  qed
  have cand: "gE g' (currentTerm n) i = log n" if "role n = RoleCandidate"
    using r ext that by (auto simp: replica_ok_def extends_def log_ok_def)
  have lo: "log_ok (gT g') (currentTerm n) (log n)" using r log_ok_grows[OF gr] by (simp add: replica_ok_def)
  have co: "commit_ok ids g' (currentTerm n) (commitIndex n) (log n)"
    using r commit_ok_extends[OF ext] by (simp add: replica_ok_def)
  have rq: "\<forall>(p, q) \<in> vote_requests n. request_ok g' q"
    using r request_ok_extends[OF ext] unfolding replica_ok_def by blast
  have bound: "t \<le> currentTerm n" if "(t, i) \<in> el' \<or> gE g' t i \<noteq> []" for t
    using that r E[of t] el[of t] unfolding replica_ok_def by blast
  have fresh: "(currentTerm n, i) \<notin> el'" if "role n = RoleCandidate"
    using that r el[of "currentTerm n"] unfolding replica_ok_def by blast
  show ?thesis
    unfolding replica_ok_def using r[unfolded replica_ok_def] ld st cand lo co rq bound fresh by simp
qed

text \<open>One node moves, and the history with it.\<close>

lemma elected_put_other: "(t, j) \<in> elected (put_node i n c) \<Longrightarrow> j \<noteq> i \<Longrightarrow> (t, j) \<in> elected c"
  by (auto simp: put_node_def split: if_splits)

lemma elected_put: "elected c \<subseteq> elected (put_node i n c)"
  by (auto simp: put_node_def)

lemma raft_put:
  assumes inv: "raft_inv ids c g" and ext: "extends g g'"
    and gok: "ghost_ok ids (elected (put_node i n c)) g'" and ev: "early_votes (put_node i n c) g'"
    and ok: "replica_ok ids (elected (put_node i n c)) g' i n"
    and A: "\<And>t j m. j \<noteq> i \<Longrightarrow> (t, j, m) \<in> gA g' \<Longrightarrow> (t, j, m) \<in> gA g"
    and E: "\<And>t j. j \<noteq> i \<Longrightarrow> gE g' t j \<noteq> [] \<Longrightarrow> gE g t j \<noteq> []"
    and T: "\<And>j. j \<noteq> i \<Longrightarrow> j \<in> set ids \<Longrightarrow> role (nd c j) = RoleLeader \<Longrightarrow>
      gT g' (currentTerm (nd c j)) = gT g (currentTerm (nd c j))"
  shows "raft_inv ids (put_node i n c) g'"
proof -
  have g0: "ghost_ok ids (elected c) g" using inv by (simp add: raft_inv_def)
  have "replica_ok ids (elected (put_node i n c)) g' j (nd (put_node i n c) j)" if "j \<in> set ids" for j
  proof (cases "j = i")
    case False
    have "replica_ok ids (elected c) g j (nd c j)" using inv that by (simp add: raft_inv_def)
    then show ?thesis
      using replica_ok_extends[OF g0 ext _ A[OF False] E[OF False] elected_put_other[OF _ False] T[OF False that]] False
      by simp
  qed (use ok in simp)
  moreover have "\<forall>m \<in> net c. message_ok ids (elected (put_node i n c)) g' m"
    using inv message_ok_extends[OF g0 ext elected_put] by (auto simp: raft_inv_def)
  ultimately show ?thesis using gok ev by (simp add: raft_inv_def)
qed

lemma raft_send: "raft_inv ids c g \<Longrightarrow> message_ok ids (elected c) g m \<Longrightarrow> raft_inv ids (send m c) g"
  by (auto simp: raft_inv_def send_def early_votes_def)

lemma raft_stays: "raft_inv ids c g \<Longrightarrow> \<exists>g'. extends g g' \<and> raft_inv ids c g'"
  using extends_refl by blast

section \<open>Steps that leave the log alone\<close>

definition quiet :: "string list \<Rightarrow> string \<Rightarrow> 's Node \<Rightarrow> 's Node \<Rightarrow> bool" where
  "quiet ids i n n' \<longleftrightarrow> log n' = log n \<and> lastIncludedIndex n' = lastIncludedIndex n \<and> commitIndex n' = commitIndex n
     \<and> ApplyCh n' = ApplyCh n \<and> matchIndex n' = matchIndex n \<and> currentTerm n \<le> currentTerm n'
     \<and> vote_requests n' = vote_requests n
     \<and> (\<forall>p. GoReplicate p \<in> set (goroutines n') \<longrightarrow> GoReplicate p \<in> set (goroutines n) \<or> p \<in> set ids - {i})
     \<and> (role n' \<noteq> RoleFollower \<longrightarrow> role n' = role n \<and> currentTerm n' = currentTerm n \<and> nextIndex n' = nextIndex n)"

lemma quiet_refl [simp]: "quiet ids i n n"
  by (simp add: quiet_def)

lemma blamed_le: "blamed g t m b \<Longrightarrow> b \<le> b' \<Longrightarrow> blamed g t m b'"
  unfolding blamed_def by (meson le_trans)

lemma replica_quiet:
  assumes r: "replica_ok ids el g i n" and q: "quiet ids i n n'"
  shows "replica_ok ids el g i n'"
proof -
  have le: "currentTerm n \<le> currentTerm n'" using q by (simp add: quiet_def)
  have same: "log n' = log n" "lastIncludedIndex n' = lastIncludedIndex n" "commitIndex n' = commitIndex n"
    "ApplyCh n' = ApplyCh n" "matchIndex n' = matchIndex n" "vote_requests n' = vote_requests n"
    using q by (simp_all add: quiet_def)
  have act: "role n' = role n \<and> currentTerm n' = currentTerm n \<and> nextIndex n' = nextIndex n" if "role n' \<noteq> RoleFollower"
    using q that by (simp add: quiet_def)
  have ld: "leader_ok ids g i n'" if "role n' = RoleLeader"
    using r act that same unfolding replica_ok_def by (simp add: leader_ok_def)
  have cd: "(currentTerm n', i) \<notin> el \<and> gE g (currentTerm n') i = log n" if "role n' = RoleCandidate"
    using r act that unfolding replica_ok_def by simp
  have st: "t \<le> currentTerm n' \<and> (holds (gT g) t m (log n) \<or> blamed g t m (currentTerm n'))" if "(t, i, m) \<in> gA g" for t m
    using r that le blamed_le[OF _ le] unfolding replica_ok_def by (meson le_trans)
  have bd: "t \<le> currentTerm n'" if "(t, i) \<in> el \<or> gE g t i \<noteq> []" for t
    using r that le unfolding replica_ok_def by (meson le_trans)
  have go: "p \<in> set ids - {i}" if "GoReplicate p \<in> set (goroutines n')" for p
    using r q that unfolding replica_ok_def quiet_def by blast
  have lo: "log_ok (gT g) (currentTerm n') (log n)" "commit_ok ids g (currentTerm n') (commitIndex n) (log n)"
    using r log_ok_le[OF _ le] commit_ok_le[OF _ le] by (simp_all add: replica_ok_def)
  show ?thesis
    using r[unfolded replica_ok_def delivered_def] ld cd st bd go lo unfolding replica_ok_def delivered_def same by simp
qed

lemma put_elected:
  assumes "election_inv ids c" "i \<in> set ids"
    and "role n = RoleLeader \<Longrightarrow> role (nd c i) = RoleLeader \<and> currentTerm n = currentTerm (nd c i)"
  shows "elected (put_node i n c) = elected c"
  using assms by (auto simp: put_node_def election_inv_def node_ok_def)

lemma put_granted:
  assumes "election_inv ids c" "i \<in> set ids"
    and "votedFor n \<noteq> '''' \<Longrightarrow> votedFor n = votedFor (nd c i) \<and> currentTerm n = currentTerm (nd c i)"
  shows "granted (put_node i n c) = granted c"
  using assms by (auto simp: put_node_def election_inv_def node_ok_def)

lemma early_votes_cong:
  "early_votes c g \<Longrightarrow> granted c' = granted c \<Longrightarrow> elected c' = elected c \<Longrightarrow> early_votes c' g"
  by (simp add: early_votes_def)

lemma raft_quiet:
  assumes el: "election_inv ids c" and inv: "raft_inv ids c g" and i: "i \<in> set ids"
    and q: "quiet ids i (nd c i) n"
    and v: "votedFor n \<noteq> '''' \<Longrightarrow> votedFor n = votedFor (nd c i) \<and> currentTerm n = currentTerm (nd c i)"
  shows "raft_inv ids (put_node i n c) g"
proof -
  have ld: "role n = RoleLeader \<Longrightarrow> role (nd c i) = RoleLeader \<and> currentTerm n = currentTerm (nd c i)"
    using q by (auto simp: quiet_def)
  have s: "granted (put_node i n c) = granted c" "elected (put_node i n c) = elected c"
    by (rule put_granted[OF el i], erule v) (rule put_elected[OF el i], erule ld)
  show ?thesis
  proof (rule raft_put[OF inv extends_refl])
    show "ghost_ok ids (elected (put_node i n c)) g" using inv unfolding s by (simp add: raft_inv_def)
    show "early_votes (put_node i n c) g" by (rule early_votes_cong[OF _ s]) (use inv in \<open>simp add: raft_inv_def\<close>)
    show "replica_ok ids (elected (put_node i n c)) g i n"
      unfolding s by (rule replica_quiet[OF _ q]) (use inv i in \<open>simp add: raft_inv_def\<close>)
  qed simp_all
qed

lemma quiet_becomeFollower: "currentTerm n \<le> t \<Longrightarrow> quiet ids i n (becomeFollower ps t n)"
  by (auto simp: quiet_def becomeFollower_def resetElectionTimer_def store_def vote_requests_def Let_def)

lemma becomeFollower_vote:
  "votedFor (becomeFollower ps t n) \<noteq> '''' \<Longrightarrow>
   votedFor (becomeFollower ps t n) = votedFor n \<and> currentTerm (becomeFollower ps t n) = currentTerm n"
  by (auto simp: becomeFollower_def resetElectionTimer_def store_def Let_def split: if_splits)

lemma quiet_follow_leader: "currentTerm n \<le> t \<Longrightarrow> quiet ids i n (follow_leader ps t l n)"
  by (auto simp: quiet_def follow_leader_def becomeFollower_def resetElectionTimer_def store_def
      vote_requests_def Let_def)

lemma follow_leader_vote:
  "votedFor (follow_leader ps t l n) \<noteq> '''' \<Longrightarrow>
   votedFor (follow_leader ps t l n) = votedFor n \<and> currentTerm (follow_leader ps t l n) = currentTerm n"
  by (auto simp: follow_leader_def becomeFollower_def resetElectionTimer_def store_def Let_def split: if_splits)

lemma peers_set: "node_ok ids c i n \<Longrightarrow> fst ` set (Peers n) = set ids - {i}"
  unfolding node_ok_def by (metis list.set_map set_minus_filter_out)

lemma quiet_heartbeat:
  assumes "node_ok ids c i n" shows "quiet ids i n (run_heartbeat_tick n)"
proof -
  have "p \<in> set ids" if "(p, x) \<in> set (Peers n)" for p x using peers_set[OF assms] that by force
  moreover have "(i, x) \<notin> set (Peers n)" for x using peers_set[OF assms] by force
  ultimately show ?thesis
    by (auto simp: quiet_def run_heartbeat_tick_def sendHeartbeats_def resetHeartbeatTimer_def vote_requests_def Let_def)
qed

lemma raft_heartbeat:
  assumes el: "election_inv ids c" and inv: "raft_inv ids c g" and i: "i \<in> set ids"
  shows "raft_inv ids (put_node i (run_heartbeat_tick (nd c i)) c) g"
proof -
  have "node_ok ids c i (nd c i)" using el i by (simp add: election_inv_def)
  from raft_quiet[OF el inv i quiet_heartbeat[OF this]] show ?thesis
    by (simp add: run_heartbeat_tick_def sendHeartbeats_def resetHeartbeatTimer_def Let_def)
qed

section \<open>Votes\<close>

text \<open>
  The up-to-date check: a candidate that passes it has every entry the voter stored in an
  earlier term, unless a leader in between lacks the entry.
\<close>

lemma up_to_date_holds:
  assumes l: "log_ok (gT g) b l" and E: "log_ok (gT g) (s - 1) E" and ok: "ghost_ok ids el g"
    and h: "holds (gT g) t m l" and tm: "le_term (gT g t ! m) = t" and ts: "t < s"
    and up: "le_term (last l) < le_term (last E) \<or> le_term (last E) = le_term (last l) \<and> length l \<le> length E"
  shows "holds (gT g) t m E \<or> blamed g t m (s - 1)"
proof -
  let ?u = "le_term (last E)"
  have ne: "l \<noteq> []" "E \<noteq> []" using l E by (auto simp: log_ok_def)
  have hE: "holds (gT g) ?u (length E - 1) E" by (rule log_ok_last[OF E])
  have hl: "holds (gT g) (le_term (last l)) (length l - 1) l" by (rule log_ok_last[OF l])
  have ml: "m < length l" using h by (simp add: holds_def)
  from up show ?thesis
  proof
    assume eq: "?u = le_term (last l) \<and> length l \<le> length E"
    have "m \<le> length l - 1" "m \<le> length E - 1" using ml eq by auto
    then have "holds (gT g) ?u m l" "holds (gT g) ?u m E" using holds_le[OF hl] holds_le[OF hE] eq by auto
    then show ?thesis using h by (auto simp: holds_def)
  next
    assume lt: "le_term (last l) < ?u"
    have "le_term (l ! m) \<le> le_term (last l)" using log_ok_terms[OF l, of m "length l - 1"] ml ne by (simp add: last_conv_nth)
    then have tu: "t < ?u" using holds_nth[OF h order_refl] tm lt by simp
    have Tu: "gT g ?u \<noteq> []" using hE by (auto simp: holds_def)
    have us: "?u \<le> s - 1" using E ne by (auto simp: log_ok_def)
    show ?thesis
    proof (cases "holds (gT g) t m (gT g ?u)")
      case False
      then show ?thesis using tu Tu us unfolding blamed_def by blast
    next
      case True
      have "m \<le> length E - 1"
      proof (rule ccontr)
        assume "\<not> ?thesis"
        then have "le_term (gT g ?u ! (length E - 1)) \<le> le_term (gT g ?u ! m)"
          using log_ok_terms[OF ghost_log[OF ok Tu]] True by (simp add: holds_def)
        moreover have "gT g ?u ! (length E - 1) = last E"
          using holds_nth[OF hE order_refl] ne by (simp add: last_conv_nth)
        moreover have "le_term (gT g ?u ! m) = t" using holds_nth[OF True order_refl] tm by simp
        ultimately show False using tu by simp
      qed
      then show ?thesis using holds_trans[OF holds_le[OF hE] True] by blast
    qed
  qed
qed

lemma candidate_check:
  assumes "lastIncludedIndex n = 0" "log n \<noteq> []" "candidateLogUpToDate i t n"
  shows "le_term (last (log n)) < t \<or> t = le_term (last (log n)) \<and> length (log n) - 1 \<le> i"
  using assms by (auto simp: candidateLogUpToDate_def lastLogTerm_def lastLogIndex_def last_conv_nth Let_def split: if_splits)

lemma HandleRequestVote_cases:
  assumes "HandleRequestVote ps req n = (resp, n')" and "log n \<noteq> []"
  shows "quiet ids i n n'"
    and "votedFor n' \<noteq> '''' \<Longrightarrow> votedFor n' = votedFor n \<and> currentTerm n' = currentTerm n
      \<or> votedFor n' = rv_CandidateId req \<and> currentTerm n' = rv_Term req
        \<and> candidateLogUpToDate (rv_LastLogIndex req) (rv_LastLogTerm req) n"
  using assms
  by (auto simp: HandleRequestVote_def quiet_def becomeFollower_def resetElectionTimer_def store_def
      candidateLogUpToDate_def lastLogTerm_def lastLogIndex_def vote_requests_def Let_def split: if_splits)

lemma raft_vote:
  assumes el: "election_inv ids c" and inv: "raft_inv ids c g" and m: "RVReq p req \<in> net c"
    and h: "HandleRequestVote ps req (nd c p) = (resp, n)"
  shows "\<exists>g'. extends g g' \<and> raft_inv ids (put_node p n c) g'"
proof -
  let ?n = "nd c p" and ?t = "rv_Term req" and ?k = "rv_CandidateId req"
  have p: "p \<in> set ids" using el m by (auto simp: election_inv_def net_ok_def)
  have r: "replica_ok ids (elected c) g p ?n" and gok: "ghost_ok ids (elected c) g" and ev: "early_votes c g"
    and rq: "request_ok g req"
    using inv p m by (auto simp: raft_inv_def)
  have lo: "log_ok (gT g) (currentTerm ?n) (log ?n)" "lastIncludedIndex ?n = 0" using r by (auto simp: replica_ok_def)
  then have ne: "log ?n \<noteq> []" by (simp add: log_ok_def)
  note q = HandleRequestVote_cases(1)[OF h ne, of ids p]
  show ?thesis
  proof (cases "votedFor n \<noteq> '''' \<longrightarrow> votedFor n = votedFor ?n \<and> currentTerm n = currentTerm ?n")
    case True
    then show ?thesis using raft_quiet[OF el inv p q] extends_refl by blast
  next
    case False
    then have vote: "votedFor n = ?k" "currentTerm n = ?t" "?k \<noteq> ''''"
      and up: "candidateLogUpToDate (rv_LastLogIndex req) (rv_LastLogTerm req) ?n"
      using HandleRequestVote_cases(2)[OF h ne] by auto
    have tt: "currentTerm ?n \<le> ?t" using q vote by (simp add: quiet_def)
    have e: "elected (put_node p n c) = elected c"
      by (rule put_elected[OF el p]) (use q in \<open>auto simp: quiet_def\<close>)
    have gr: "granted (put_node p n c) = insert (?t, p, ?k) (granted c)" using vote by (simp add: put_node_def)
    have r': "replica_ok ids (elected c) g p n" by (rule replica_quiet[OF r q])
    show ?thesis
    proof (cases "\<exists>j. (?t, j) \<in> elected c")
      case True
      have "early_votes (put_node p n c) g" using ev True unfolding early_votes_def e gr by blast
      then show ?thesis
        using raft_put[OF inv extends_refl, of p n] gok r' e by (intro raft_stays) auto
    next
      case unled: False
      let ?g = "g\<lparr>gG := insert (?t, p, ?k) (gG g)\<rparr>" and ?E = "gE g ?t ?k"
      have ext: "extends g ?g" by (auto simp: extends_def)
      have E: "?E \<noteq> []" "rv_LastLogIndex req = length ?E - 1" "rv_LastLogTerm req = le_term (last ?E)"
        using rq by (auto simp: request_ok_def)
      note cE = ghost_candidacy[OF gok E(1)]
      have up': "le_term (last (log ?n)) < le_term (last ?E)
          \<or> le_term (last ?E) = le_term (last (log ?n)) \<and> length (log ?n) \<le> length ?E"
        using candidate_check[OF lo(2) ne up] E ne by (cases ?E; cases "log ?n") auto
      have "holds (gT g) t m ?E \<or> blamed g t m (?t - 1)" if A: "(t, p, m) \<in> gA g" and ts: "t < ?t" for t m
      proof -
        have "holds (gT g) t m (log ?n) \<or> blamed g t m (currentTerm ?n)" using r A by (auto simp: replica_ok_def)
        then show ?thesis
        proof
          assume "holds (gT g) t m (log ?n)"
          then show ?thesis
            by (rule up_to_date_holds[OF lo(1) cE(2) gok _ ghost_stored(3)[OF gok A] ts up'])
        next
          assume "blamed g t m (currentTerm ?n)"
          then obtain s where s: "t < s" "s \<le> ?t" "gT g s \<noteq> []" "\<not> holds (gT g) t m (gT g s)"
            using tt by (auto simp: blamed_def)
          have "s \<noteq> ?t" using ghost_led[OF gok cE(1)] unled s(3) by blast
          then have "s \<le> ?t - 1" using s(2) by simp
          then show ?thesis using s unfolding blamed_def by blast
        qed
      qed
      then have gok': "ghost_ok ids (elected c) ?g" by (rule ghost_add_vote[OF gok E(1)])
      have ev': "early_votes (put_node p n c) ?g" using ev unfolding early_votes_def e gr by auto
      have "replica_ok ids (elected c) ?g p n" by (rule replica_ok_extends[OF gok ext r']) auto
      then show ?thesis using raft_put[OF inv ext, of p n] gok' ev' e ext by (intro exI[of _ ?g]) auto
    qed
  qed
qed

section \<open>Elections\<close>

definition candidacy :: "string \<Rightarrow> 's Node \<Rightarrow> 's Node \<Rightarrow> bool" where
  "candidacy i n n' \<longleftrightarrow> log n' = log n \<and> lastIncludedIndex n' = lastIncludedIndex n \<and> commitIndex n' = commitIndex n
     \<and> ApplyCh n' = ApplyCh n \<and> matchIndex n' = matchIndex n \<and> currentTerm n' = Suc (currentTerm n)
     \<and> role n' = RoleCandidate \<and> votedFor n' = i
     \<and> (\<forall>p. GoReplicate p \<in> set (goroutines n') \<longrightarrow> GoReplicate p \<in> set (goroutines n))
     \<and> vote_requests n' \<subseteq> vote_requests n \<union> {(p, r). rv_Term r = Suc (currentTerm n) \<and> rv_CandidateId r = i
          \<and> rv_LastLogIndex r = length (log n) - 1 \<and> rv_LastLogTerm r = le_term (last (log n))}"

lemma raft_candidacy:
  assumes inv: "raft_inv ids c g" and i: "i \<in> set ids" and i0: "i \<noteq> ''''" and n: "candidacy i (nd c i) n"
  shows "\<exists>g'. extends g g' \<and> raft_inv ids (put_node i n c) g'"
proof -
  let ?n = "nd c i" and ?t = "Suc (currentTerm (nd c i))" and ?l = "log (nd c i)"
  have r: "replica_ok ids (elected c) g i ?n" and gok: "ghost_ok ids (elected c) g" and ev: "early_votes c g"
    using inv i by (auto simp: raft_inv_def)
  have same: "log n = ?l" "lastIncludedIndex n = lastIncludedIndex ?n" "commitIndex n = commitIndex ?n"
    "ApplyCh n = ApplyCh ?n" "matchIndex n = matchIndex ?n" "currentTerm n = ?t" "role n = RoleCandidate" "votedFor n = i"
    using n by (simp_all add: candidacy_def)
  have lo: "log_ok (gT g) (currentTerm ?n) ?l" using r by (simp add: replica_ok_def)
  have ne: "?l \<noteq> []" using lo by (simp add: log_ok_def)
  have fresh: "gE g ?t i = []" "(?t, i) \<notin> elected c"
    using r unfolding replica_ok_def by (meson Suc_n_not_le_n)+
  have e: "elected (put_node i n c) = elected c" using same by (simp add: put_node_def)
  have gr: "granted (put_node i n c) = insert (?t, i, i) (granted c)" using same i0 by (simp add: put_node_def)
  define g1 where "g1 = g\<lparr>gE := (gE g)(?t := (gE g ?t)(i := ?l))\<rparr>"
  have g1: "ghost_ok ids (elected c) g1" unfolding g1_def using fresh lo by (intro ghost_start[OF gok]) auto
  define g2 where "g2 = (if \<exists>j. (?t, j) \<in> elected c then g1 else g1\<lparr>gG := insert (?t, i, i) (gG g1)\<rparr>)"
  have stored: "holds (gT g1) t m ?l \<or> blamed g1 t m (?t - 1)" if "(t, i, m) \<in> gA g1" for t m
    using r that by (auto simp: replica_ok_def g1_def blamed_def)
  have "gE g1 ?t i = ?l" by (simp add: g1_def)
  then have "ghost_ok ids (elected c) (g1\<lparr>gG := insert (?t, i, i) (gG g1)\<rparr>)"
    using stored ne by (intro ghost_add_vote[OF g1]) auto
  then have g2: "ghost_ok ids (elected c) g2" using g1 by (simp add: g2_def)
  have sel: "gT g2 = gT g" "gA g2 = gA g" "gE g2 = (gE g)(?t := (gE g ?t)(i := ?l))" by (simp_all add: g2_def g1_def)
  have b: "blamed g2 = blamed g" by (simp add: blamed_def sel fun_eq_iff)
  have ext: "extends g g2" using fresh(1) by (auto simp: extends_def g2_def g1_def)
  have ev2: "early_votes (put_node i n c) g2"
    using ev unfolding early_votes_def e gr by (auto simp: g2_def g1_def)
  have rq: "request_ok g2 q" if "(p, q) \<in> vote_requests n" for p q
  proof (cases "(p, q) \<in> vote_requests ?n")
    case True
    then show ?thesis using r request_ok_extends[OF ext] unfolding replica_ok_def by blast
  next
    case False
    then have "rv_Term q = ?t \<and> rv_CandidateId q = i \<and> rv_LastLogIndex q = length ?l - 1
        \<and> rv_LastLogTerm q = le_term (last ?l)" using n that unfolding candidacy_def by blast
    then show ?thesis using ne by (simp add: request_ok_def sel)
  qed
  have st: "t \<le> ?t \<and> (holds (gT g) t m ?l \<or> blamed g t m ?t)" if "(t, i, m) \<in> gA g" for t m
    using r that blamed_le[of g t m _ ?t] unfolding replica_ok_def by (meson le_SucI order_refl)
  have bd: "t \<le> ?t" if "(t, i) \<in> elected c \<or> gE g2 t i \<noteq> []" for t
    using r that unfolding replica_ok_def sel by (cases "t = ?t") (auto intro: le_SucI)
  have lo': "log_ok (gT g) ?t ?l" "commit_ok ids g2 ?t (commitIndex ?n) ?l" "delivered n"
    using r log_ok_le[OF lo, of ?t] commit_ok_le[OF commit_ok_extends[OF ext], of ids "currentTerm ?n" _ _ ?t]
    by (simp_all add: replica_ok_def delivered_def same)
  have go: "p \<in> set ids - {i}" if "GoReplicate p \<in> set (goroutines n)" for p
    using r n that unfolding replica_ok_def candidacy_def by blast
  have "replica_ok ids (elected c) g2 i n"
    using r[unfolded replica_ok_def] rq st bd lo' go fresh(2) unfolding replica_ok_def same sel b by auto
  then have "replica_ok ids (elected (put_node i n c)) g2 i n" "ghost_ok ids (elected (put_node i n c)) g2"
    using g2 e by simp_all
  then have "raft_inv ids (put_node i n c) g2"
    by (intro raft_put[OF inv ext _ ev2]) (auto simp: sel split: if_splits)
  then show ?thesis using ext by blast
qed

lemma fold_update_map:
  "map_of (fold (\<lambda>p m. AList.update (fst p) x m) ps m) = (\<lambda>k. if k \<in> fst ` set ps then Some x else map_of m k)"
  by (induction ps arbitrary: m) (auto simp: AList.update_conv' fun_eq_iff)

lemma fold_update_distinct:
  "distinct (map fst m) \<Longrightarrow> distinct (map fst (fold (\<lambda>p m. AList.update (fst p) x m) ps m))"
  by (induction ps arbitrary: m) (auto intro: distinct_update)

lemma fold_update_keys:
  "fst ` set (fold (\<lambda>p m. AList.update (fst p) x m) ps m) = fst ` set m \<union> fst ` set ps"
proof -
  have "dom (map_of (fold (\<lambda>p m. AList.update (fst p) x m) ps m)) = dom (map_of m) \<union> fst ` set ps"
    unfolding fold_update_map by (auto simp: dom_def)
  then show ?thesis by (simp add: dom_map_of_conv_image_fst)
qed

lemma becomeLeader_sel [simp]:
  "log (becomeLeader n) = log n" "lastIncludedIndex (becomeLeader n) = lastIncludedIndex n"
  "commitIndex (becomeLeader n) = commitIndex n" "ApplyCh (becomeLeader n) = ApplyCh n"
  "currentTerm (becomeLeader n) = currentTerm n" "votedFor (becomeLeader n) = votedFor n"
  "role (becomeLeader n) = RoleLeader" "Peers (becomeLeader n) = Peers n"
  "vote_requests (becomeLeader n) = vote_requests n"
  "matchIndex (becomeLeader n) = fold (\<lambda>p m. AList.update (fst p) 0 m) (Peers n) (matchIndex n)"
  "nextIndex (becomeLeader n) = fold (\<lambda>p m. AList.update (fst p) (Suc (lastLogIndex n)) m) (Peers n) (nextIndex n)"
  "goroutines (becomeLeader n) = goroutines n @ map (\<lambda>p. GoReplicate (fst p)) (Peers n)"
  by (auto simp: becomeLeader_def sendHeartbeats_def resetHeartbeatTimer_def vote_requests_def Let_def)

text \<open>A node that has just won has all its peers' indices reset.\<close>

lemma new_leader_ok:
  assumes r: "replica_ok ids el g i n" and p: "fst ` set (Peers n) = set ids - {i}"
    and low: "\<And>e. e \<in> set (log n) \<Longrightarrow> le_term e < currentTerm n" and T: "gT g' (currentTerm n) = log n"
  shows "leader_ok ids g' i (becomeLeader n)"
proof -
  let ?M = "matchIndex (becomeLeader n)"
  have ne: "log n \<noteq> []" and l0: "lastIncludedIndex n = 0" using r by (auto simp: replica_ok_def log_ok_def)
  have "map_get (nextIndex (becomeLeader n)) q = length (log n)" if "q \<in> set ids - {i}" for q
    using that ne l0 p by (cases "log n") (auto simp: map_get_def fold_update_map lastLogIndex_def)
  moreover have "k = 0" if "(q, k) \<in> set ?M" for q k
  proof -
    have keys: "distinct (map fst (matchIndex n))" "fst ` set (matchIndex n) \<subseteq> set ids - {i}"
      using r by (simp_all add: replica_ok_def)
    have "distinct (map fst ?M)" using fold_update_distinct[OF keys(1)] by simp
    moreover have "fst ` set ?M = set ids - {i}" using keys(2) p by (simp add: fold_update_keys Un_absorb1)
    moreover have "q \<in> fst ` set ?M" by (rule image_eqI[OF _ that]) simp
    ultimately have "map_of ?M q = Some k" "q \<in> fst ` set (Peers n)" using that p by simp_all
    then show ?thesis by (simp add: fold_update_map)
  qed
  moreover have "le_term (log n ! m) \<noteq> currentTerm n" if "m < length (log n)" for m
    using low[of "log n ! m"] that by simp
  ultimately show ?thesis using T ne by (auto simp: leader_ok_def acked_def simp del: becomeLeader_sel(10,11))
qed

lemma raft_elect:
  assumes inv: "raft_inv ids c g" and i: "i \<in> set ids" and cand: "role (nd c i) = RoleCandidate"
    and vote: "votedFor (nd c i) = i" "(currentTerm (nd c i), i, i) \<in> granted c"
    and el': "election_inv ids (put_node i (becomeLeader (nd c i)) c)"
  shows "\<exists>g'. extends g g' \<and> raft_inv ids (put_node i (becomeLeader (nd c i)) c) g'"
proof -
  let ?n = "nd c i" let ?m = "becomeLeader ?n" and ?t = "currentTerm ?n" let ?c = "put_node i ?m c"
  have r: "replica_ok ids (elected c) g i ?n" and gok: "ghost_ok ids (elected c) g" and ev: "early_votes c g"
    using inv i by (auto simp: raft_inv_def)
  have E: "gE g ?t i = log ?n" "(?t, i) \<notin> elected c" and ne: "log ?n \<noteq> []"
    using r cand by (auto simp: replica_ok_def log_ok_def)
  have e: "elected ?c = insert (?t, i) (elected c)" by (simp add: put_node_def)
  have gr: "granted ?c = granted c" using vote by (auto simp: put_node_def)
  have unled: "(?t, j) \<notin> elected c" for j using elected_unique[OF el', of ?t i j] E(2) unfolding e by auto
  note cE = ghost_candidacy[OF gok, of ?t i, unfolded E(1), OF ne]
  have Tt: "gT g ?t = []" using ghost_led[OF gok cE(1)] unled by blast
  have "length ids div 2 + 1 \<le> card (voters ?c ids ?t i)"
    using el' by (auto simp: election_inv_def history_ok_def e)
  moreover have "voters ?c ids ?t i \<subseteq> {v \<in> set ids. v \<in> {v. (?t, v, i) \<in> gG g}}"
    using ev unled unfolding voters_def gr early_votes_def by blast
  ultimately have maj: "majority ids {v. (?t, v, i) \<in> gG g}"
    unfolding majority_def by (auto intro: le_trans[OF _ card_mono])
  let ?g = "g\<lparr>gT := (gT g)(?t := log ?n)\<rparr>"
  note ge = ghost_elect[OF gok cE(1) Tt E(1) ne maj]
  have ext: "extends g ?g" using ge(2) by (simp add: extends_def)
  have low: "le_term x < ?t" if "x \<in> set (log ?n)" for x
    using cE that by (fastforce simp: log_ok_def)
  have ok: "node_ok ids ?c i ?m" using el' i by (auto simp: election_inv_def)
  have peers: "fst ` set (Peers ?n) = set ids - {i}" using peers_set[OF ok] by simp
  have ld: "leader_ok ids ?g i ?m" by (rule new_leader_ok[OF r peers]) (simp_all add: low)
  have base: "replica_ok ids (elected c) ?g i (?n\<lparr>role := RoleFollower\<rparr>)"
    by (rule replica_ok_extends[OF gok ext replica_quiet[OF r]]) (auto simp: quiet_def vote_requests_def)
  have keys: "distinct (map fst (matchIndex ?m))" "fst ` set (matchIndex ?m) \<subseteq> set ids - {i}"
    using r peers by (auto simp: replica_ok_def fold_update_distinct fold_update_keys)
  have go: "p \<in> set ids - {i}" if "GoReplicate p \<in> set (goroutines ?m)" for p
  proof (cases "GoReplicate p \<in> set (goroutines ?n)")
    case True
    then show ?thesis using r unfolding replica_ok_def by blast
  next
    case False
    then have "p \<in> fst ` set (Peers ?n)" using that by auto
    then show ?thesis using peers by simp
  qed
  have vr: "vote_requests (?n\<lparr>role := RoleFollower\<rparr>) = vote_requests ?n" by (simp add: vote_requests_def)
  have "replica_ok ids (elected ?c) ?g i ?m"
    using base[unfolded replica_ok_def delivered_def vr] ld keys go unfolding replica_ok_def delivered_def e by simp
  moreover have "early_votes ?c ?g" using ev unfolding early_votes_def gr e by auto
  moreover have "gT ?g (currentTerm (nd c j)) = gT g (currentTerm (nd c j))"
    if "j \<noteq> i" "j \<in> set ids" "role (nd c j) = RoleLeader" for j
  proof -
    have "node_ok ids ?c j (nd c j)" using el' that by (auto simp: election_inv_def)
    then have "(currentTerm (nd c j), j) \<in> elected ?c" using that(3) by (simp add: node_ok_def)
    then have "currentTerm (nd c j) \<noteq> ?t" using elected_unique[OF el', of ?t i j] that(1) by (auto simp: e)
    then show ?thesis by simp
  qed
  ultimately have "raft_inv ids ?c ?g" using ge(1) by (intro raft_put[OF inv ext]) (auto simp: e)
  then show ?thesis using ext by blast
qed

lemma put_put:
  assumes "role m \<noteq> RoleLeader" "currentTerm n = currentTerm m" "votedFor n = votedFor m"
  shows "put_node i n (put_node i m c) = put_node i n c"
  using assms by (simp add: put_node_def)

lemma tick_candidate:
  assumes "role n \<noteq> RoleLeader" "log n \<noteq> []" "lastIncludedIndex n = 0" "\<not> quorum n \<le> 1"
  shows "candidacy (nodeID n) n (run_election_tick ps n)"
  using assms
  by (auto simp: run_election_tick_def startElection_def candidacy_def resetElectionTimer_def store_def quorum_def
      vote_requests_def lastLogIndex_def lastLogTerm_def last_conv_nth Let_def)

lemma tick_leader:
  assumes "role n \<noteq> RoleLeader" "quorum n \<le> 1"
  shows "\<exists>m. candidacy (nodeID n) n m \<and> run_election_tick ps n = becomeLeader m"
proof -
  let ?n = "n\<lparr>electionTimer := False, currentTerm := Suc (currentTerm n), role := RoleCandidate, votedFor := nodeID n\<rparr>"
  let ?s = "resetElectionTimer (store (ps_SaveHardState ps (currentTerm ?n) (votedFor ?n)) ?n)"
  let ?m = "?s\<lparr>votes := (votes ?s)(currentTerm ?s := 1)\<rparr>"
  have "candidacy (nodeID n) n ?m"
    by (simp add: candidacy_def resetElectionTimer_def store_def vote_requests_def)
  moreover have "run_election_tick ps n = becomeLeader ?m"
    using assms by (simp add: run_election_tick_def startElection_def resetElectionTimer_def store_def quorum_def)
  ultimately show ?thesis by blast
qed

lemma raft_tick:
  assumes el: "election_inv ids c" and inv: "raft_inv ids c g" and i: "i \<in> set ids" and v: "valid_ids ids"
    and el': "election_inv ids (put_node i (run_election_tick ps (nd c i)) c)"
  shows "\<exists>g'. extends g g' \<and> raft_inv ids (put_node i (run_election_tick ps (nd c i)) c) g'"
proof -
  let ?n = "nd c i"
  have id: "nodeID ?n = i" using el i by (auto simp: election_inv_def node_ok_def)
  have i0: "i \<noteq> ''''" using v i by (auto simp: valid_ids_def)
  have lo: "log ?n \<noteq> []" "lastIncludedIndex ?n = 0" using inv i by (auto simp: raft_inv_def replica_ok_def log_ok_def)
  consider "role ?n = RoleLeader" | "role ?n \<noteq> RoleLeader" "\<not> quorum ?n \<le> 1" | "role ?n \<noteq> RoleLeader" "quorum ?n \<le> 1"
    by blast
  then show ?thesis
  proof cases
    case 1
    then have "quiet ids i ?n (run_election_tick ps ?n)" "votedFor (run_election_tick ps ?n) = votedFor ?n"
      "currentTerm (run_election_tick ps ?n) = currentTerm ?n"
      by (simp_all add: run_election_tick_def quiet_def vote_requests_def Let_def)
    then show ?thesis using raft_quiet[OF el inv i] extends_refl by blast
  next
    case 2
    then show ?thesis using raft_candidacy[OF inv i i0] tick_candidate[OF 2(1) lo 2(2)] id by simp
  next
    case 3
    obtain m where m: "candidacy i ?n m" "run_election_tick ps ?n = becomeLeader m"
      using tick_leader[OF 3, of ps] id by auto
    obtain g' where ext: "extends g g'" and g': "raft_inv ids (put_node i m c) g'" using raft_candidacy[OF inv i i0 m(1)] by blast
    have eq: "put_node i (becomeLeader m) (put_node i m c) = put_node i (becomeLeader m) c"
      using m(1) by (intro put_put) (simp_all add: candidacy_def)
    have "\<exists>g''. extends g' g'' \<and> raft_inv ids (put_node i (run_election_tick ps ?n) c) g''"
      using raft_elect[OF g' i] m i0 el' eq by (simp add: candidacy_def put_node_def[of i m c])
    then show ?thesis using extends_trans[OF ext] by blast
  qed
qed

lemma raft_counted [simp]: "raft_inv ids (c\<lparr>counted := x\<rparr>) g \<longleftrightarrow> raft_inv ids c g"
  by (simp add: raft_inv_def early_votes_def)

lemma raft_vote_reply:
  assumes el: "election_inv ids c" and inv: "raft_inv ids c g" and m: "RVResp i t p resp \<in> net c"
    and vi: "valid_ids ids" and el': "election_inv ids ((put_node i (vote_reply ps t resp (nd c i)) c)\<lparr>counted := x\<rparr>)"
  shows "\<exists>g'. extends g g' \<and> raft_inv ids (put_node i (vote_reply ps t resp (nd c i)) c) g'"
proof -
  let ?n = "nd c i"
  have i: "i \<in> set ids" using el m by (auto simp: election_inv_def net_ok_def)
  show ?thesis
  proof (cases "rvr_Term resp \<le> currentTerm ?n \<and> rvr_VoteGranted resp \<and> role ?n = RoleCandidate \<and> currentTerm ?n = t")
    case False
    then have "vote_reply ps t resp ?n = ?n
        \<or> currentTerm ?n \<le> rvr_Term resp \<and> vote_reply ps t resp ?n = becomeFollower ps (rvr_Term resp) ?n"
      by (auto simp: vote_reply_def)
    then have "quiet ids i ?n (vote_reply ps t resp ?n)"
      "votedFor (vote_reply ps t resp ?n) \<noteq> '''' \<longrightarrow> votedFor (vote_reply ps t resp ?n) = votedFor ?n
        \<and> currentTerm (vote_reply ps t resp ?n) = currentTerm ?n"
      using quiet_becomeFollower[of ?n "rvr_Term resp" ids i ps] becomeFollower_vote[of ps "rvr_Term resp" ?n] by auto
    then show ?thesis using raft_quiet[OF el inv i] extends_refl by blast
  next
    case True
    let ?m = "?n\<lparr>votes := (votes ?n)(t := votes ?n t + 1)\<rparr>"
    have o: "node_ok ids c i ?n" using el i by (simp add: election_inv_def)
    have v: "votedFor ?n = i" "(t, i, i) \<in> granted c \<or> i = ''''" using o True by (auto simp: node_ok_def)
    have q: "quiet ids i ?n ?m" by (simp add: quiet_def vote_requests_def)
    have inv1: "raft_inv ids (put_node i ?m c) g" by (rule raft_quiet[OF el inv i q]) simp
    have eq: "vote_reply ps t resp ?n = (if votes ?n t + 1 \<ge> quorum ?n then becomeLeader ?m else ?m)"
      using True by (simp add: vote_reply_def quorum_def Let_def)
    show ?thesis
    proof (cases "votes ?n t + 1 \<ge> quorum ?n")
      case win: True
      let ?d = "c\<lparr>counted := x\<rparr>"
      have pp: "put_node i (becomeLeader ?m) (put_node i ?m ?d) = put_node i (becomeLeader ?m) ?d"
        using True by (intro put_put) simp_all
      have i0: "i \<noteq> ''''" using vi i by (auto simp: valid_ids_def)
      have invd: "raft_inv ids (put_node i ?m ?d) g"
        using inv1 raft_counted[where c = "put_node i ?m c"] by (simp add: put_node_counted)
      have eld: "election_inv ids (put_node i (becomeLeader ?m) ?d)" using el' eq win by (simp add: put_node_counted)
      have self: "(t, i, i) \<in> granted (put_node i ?m ?d)" using v i0 by (simp add: put_node_def)
      have "\<exists>g'. extends g g' \<and> raft_inv ids (put_node i (becomeLeader ?m) ?d) g'"
        using raft_elect[OF invd i] True v self pp eld by simp
      then show ?thesis using eq win raft_counted[where c = "put_node i (becomeLeader ?m) c"] by (simp add: put_node_counted)
    qed (use raft_stays[OF inv1] eq in simp)
  qed
qed

section \<open>Leaders\<close>

lemma raft_same:
  assumes el: "election_inv ids c" and inv: "raft_inv ids c g" and i: "i \<in> set ids"
    and ok: "replica_ok ids (elected c) g i n"
    and ld: "role n = RoleLeader \<Longrightarrow> role (nd c i) = RoleLeader \<and> currentTerm n = currentTerm (nd c i)"
    and v: "votedFor n \<noteq> '''' \<Longrightarrow> votedFor n = votedFor (nd c i) \<and> currentTerm n = currentTerm (nd c i)"
  shows "raft_inv ids (put_node i n c) g"
proof -
  have s: "granted (put_node i n c) = granted c" "elected (put_node i n c) = elected c"
    by (rule put_granted[OF el i], erule v) (rule put_elected[OF el i], erule ld)
  show ?thesis
    using inv ok by (intro raft_put[OF inv extends_refl]) (simp_all add: s raft_inv_def early_votes_def)
qed

lemma replica_commit_lt:
  assumes "replica_ok ids el g i n" shows "commitIndex n < length (log n)"
  using assms by (auto simp: replica_ok_def commit_ok_def log_ok_def holds_def)

lemma delivered_advance:
  assumes "delivered n" "log n \<noteq> []" "lastIncludedIndex n = 0" "commitIndex n \<le> k" "k < length (log n)"
  shows "delivered (advanceCommitTo k n)"
proof -
  have "ApplyCh (advanceCommitTo k n) = ApplyCh n @ map CommandMsg (map (\<lambda>j. log n ! j) [commitIndex n + 1..<k + 1])"
    using delivered_entries[of n k] assms by (simp add: lastLogIndex_def)
  moreover have "[1..<Suc k] = [1..<Suc (commitIndex n)] @ [commitIndex n + 1..<k + 1]"
    using upt_add_eq_append[of 1 "Suc (commitIndex n)" "k - commitIndex n"] assms(4) by simp
  ultimately show ?thesis using assms(1) by (simp add: delivered_def)
qed

lemma advanceCommitTo_sel [simp]:
  "currentTerm (advanceCommitTo k n) = currentTerm n" "role (advanceCommitTo k n) = role n"
  "votedFor (advanceCommitTo k n) = votedFor n" "matchIndex (advanceCommitTo k n) = matchIndex n"
  "nextIndex (advanceCommitTo k n) = nextIndex n" "goroutines (advanceCommitTo k n) = goroutines n"
  "vote_requests (advanceCommitTo k n) = vote_requests n"
  by (simp_all add: advanceCommitTo_def vote_requests_def Let_def)

lemma replica_advance:
  assumes r: "replica_ok ids el g i n" and k: "commitIndex n \<le> k" "k < length (log n)"
    and c: "commit_ok ids g (currentTerm n) k (log n)"
  shows "replica_ok ids el g i (advanceCommitTo k n)"
proof -
  have "delivered (advanceCommitTo k n)"
    using r k by (intro delivered_advance) (auto simp: replica_ok_def log_ok_def)
  then show ?thesis
    using r[unfolded replica_ok_def leader_ok_def] c unfolding replica_ok_def leader_ok_def by simp
qed

lemma replicated_majority:
  assumes r: "replica_ok ids el g i n" and ld: "role n = RoleLeader" and i: "i \<in> set ids" "nodeID n = i"
    and k: "0 < k" "k < length (log n)" "le_term (log n ! k) = currentTerm n"
    and q: "length ids div 2 + 1 \<le> replicated_count k n"
  shows "committed ids g (currentTerm n) k"
proof -
  let ?t = "currentTerm n" and ?M = "filter (\<lambda>(p, m). p \<noteq> i \<and> k \<le> m) (matchIndex n)"
  have L: "gT g ?t = log n" "(?t, i, k) \<in> gA g" and ack: "\<And>p m. (p, m) \<in> set (matchIndex n) \<Longrightarrow> acked g ?t p m"
    using r ld k by (auto simp: replica_ok_def leader_ok_def)
  have "distinct (map fst ?M)" using r by (auto simp: replica_ok_def distinct_map_filter)
  from distinct_card[OF this] have len: "length ?M = card (fst ` set ?M)" by simp
  have keys: "fst ` set ?M \<subseteq> set ids - {i}" using r by (auto simp: replica_ok_def)
  have stored: "(?t, v, k) \<in> gA g" if v: "v \<in> fst ` set ?M" for v
  proof -
    obtain m where m: "(v, m) \<in> set (matchIndex n)" "k \<le> m" using v by auto
    then show ?thesis using ack[OF m(1)] L(1) k unfolding acked_def by auto
  qed
  have "insert i (fst ` set ?M) \<subseteq> {v \<in> set ids. v \<in> {v. (?t, v, k) \<in> gA g}}"
    using keys i(1) L(2) stored by blast
  then have "card (insert i (fst ` set ?M)) \<le> card {v \<in> set ids. v \<in> {v. (?t, v, k) \<in> gA g}}"
    by (intro card_mono) auto
  moreover have "card (insert i (fst ` set ?M)) = replicated_count k n"
    using keys len i(2) by (subst card_insert_disjoint) (auto simp: replicated_count_def)
  ultimately show ?thesis using q k L unfolding committed_def majority_def by simp
qed

lemma replica_maybeAdvance:
  assumes r: "replica_ok ids el g i n" and ld: "role n = RoleLeader" and i: "i \<in> set ids" "nodeID n = i"
    and q: "quorum n = length ids div 2 + 1"
  shows "replica_ok ids el g i (maybeAdvanceCommit n)"
proof (cases "maybeAdvanceCommit n = n")
  case False
  then obtain k p where k: "commitIndex n < k" "logPos k n = Some p" "le_term (log n ! p) = currentTerm n"
    "quorum n \<le> replicated_count k n" "maybeAdvanceCommit n = advanceCommitTo k n"
    using advance_loop_cases[of "lastLogIndex n" n] unfolding maybeAdvanceCommit_def by blast
  have p: "p = k" "k < length (log n)" using k(2) r by (auto simp: logPos_Some replica_ok_def)
  have "committed ids g (currentTerm n) k"
    using replicated_majority[OF r ld i, of k] k p q by simp
  moreover have "gT g (currentTerm n) = log n" using r ld by (simp add: replica_ok_def leader_ok_def)
  ultimately have "commit_ok ids g (currentTerm n) k (log n)"
    using holds_self[of k "gT g" "currentTerm n"] p(2) unfolding commit_ok_def by auto
  then show ?thesis using replica_advance[OF r] k p by simp
qed (use r in simp)

lemma maybeAdvance_sel [simp]:
  "role (maybeAdvanceCommit n) = role n" "currentTerm (maybeAdvanceCommit n) = currentTerm n"
  "votedFor (maybeAdvanceCommit n) = votedFor n"
proof -
  have "maybeAdvanceCommit n = n \<or> (\<exists>k. maybeAdvanceCommit n = advanceCommitTo k n)"
    using advance_loop_cases[of "lastLogIndex n" n] unfolding maybeAdvanceCommit_def by blast
  then show "role (maybeAdvanceCommit n) = role n" "currentTerm (maybeAdvanceCommit n) = currentTerm n"
    "votedFor (maybeAdvanceCommit n) = votedFor n" by auto
qed

text \<open>A proposal: the leader's own log and the history grow by one entry of its term.\<close>

lemma raft_propose:
  assumes el: "election_inv ids c" and inv: "raft_inv ids c g" and i: "i \<in> set ids" and vi: "valid_ids ids"
  shows "\<exists>g'. extends g g' \<and> raft_inv ids (put_node i (snd (Propose ps data (nd c i))) c) g'"
proof (cases "role (nd c i) = RoleLeader")
  case False
  then have "snd (Propose ps data (nd c i)) = nd c i" by (simp add: Propose_def)
  then show ?thesis using raft_stays[OF raft_quiet[OF el inv i, of "nd c i"]] by simp
next
  case ld: True
  let ?n = "nd c i" and ?t = "currentTerm (nd c i)" and ?l = "log (nd c i)"
  define e where "e = \<lparr>le_index = lastLogIndex ?n + 1, le_term = ?t, le_data = data, le_type = ENTRY_NORMAL\<rparr>"
  define n1 where "n1 = store (ps_AppendEntries ps [e]) (?n\<lparr>log := ?l @ [e]\<rparr>)"
  define n2 where "n2 = n1\<lparr>goroutines := goroutines n1 @ map (\<lambda>p. GoReplicate (fst p)) (Peers n1)\<rparr>"
  have P: "snd (Propose ps data ?n) = maybeAdvanceCommit n2"
    using ld by (simp add: Propose_def e_def n1_def n2_def Let_def)
  have o: "node_ok ids c i ?n" using el i by (simp add: election_inv_def)
  have id: "nodeID ?n = i" and led: "(?t, i) \<in> elected c" using o ld by (simp_all add: node_ok_def)
  have peers: "fst ` set (Peers ?n) = set ids - {i}" by (rule peers_set[OF o])
  have q: "quorum ?n = length ids div 2 + 1"
    using quorum_ids[OF _ i, of ?n] vi o unfolding valid_ids_def node_ok_def by blast
  have r: "replica_ok ids (elected c) g i ?n" and gok: "ghost_ok ids (elected c) g" and ev: "early_votes c g"
    using inv i by (auto simp: raft_inv_def)
  have lo: "?l \<noteq> []" "lastIncludedIndex ?n = 0" and L: "leader_ok ids g i ?n" and T: "gT g ?t = ?l"
    using r ld by (auto simp: replica_ok_def log_ok_def leader_ok_def)
  have e: "le_term e = ?t" "le_index e = length ?l" using lo by (simp_all add: e_def lastLogIndex_def)
  note t0 = ghost_elected(1)[OF gok led]
  note gp = ghost_propose[OF gok t0 T lo(1) e]
  define g1 where "g1 = g\<lparr>gT := (gT g)(?t := ?l @ [e])\<rparr>"
  define g2 where "g2 = g1\<lparr>gA := gA g1 \<union> {(?t, i, m) | m. m \<in> {length ?l}}\<rparr>"
  have "s \<le> ?t" if "(s, i, k) \<in> gG g" for s k
    using that ev el by (fastforce simp: early_votes_def election_inv_def history_ok_def)
  then have g2: "ghost_ok ids (elected c) g2"
    unfolding g2_def using gp(1) t0 e by (intro ghost_store) (auto simp: g1_def)
  have sel: "gT g2 = (gT g)(?t := ?l @ [e])" "gE g2 = gE g" "gG g2 = gG g"
    "gA g2 = insert (?t, i, length ?l) (gA g)" by (auto simp: g2_def g1_def)
  have ext: "extends g g2" using gp(2) by (auto simp: extends_def sel)
  have gr: "grows (gT g) (gT g2)" using ext by (simp add: extends_def)
  have same: "lastIncludedIndex n2 = 0" "log n2 = ?l @ [e]" "commitIndex n2 = commitIndex ?n" "ApplyCh n2 = ApplyCh ?n"
    "matchIndex n2 = matchIndex ?n" "nextIndex n2 = nextIndex ?n" "currentTerm n2 = ?t" "role n2 = RoleLeader"
    "vote_requests n2 = vote_requests ?n" "nodeID n2 = i" "quorum n2 = quorum ?n" "votedFor n2 = votedFor ?n"
    using lo ld id by (auto simp: n2_def n1_def store_def vote_requests_def quorum_def)
  have st: "m \<le> ?t \<and> (holds (gT g2) m k (?l @ [e]) \<or> blamed g2 m k ?t)" if A: "(m, i, k) \<in> gA g2" for m k
  proof (cases "(m, i, k) \<in> gA g")
    case True
    then have "m \<le> ?t" "holds (gT g) m k ?l \<or> blamed g m k ?t" using r by (auto simp: replica_ok_def)
    then show ?thesis
      using holds_append[OF holds_grows[OF gr]] blamed_grows[OF gr ghost_stored(2,3)[OF gok True], of ?t ?t] by blast
  next
    case False
    then show ?thesis using A by (auto simp: sel holds_def)
  qed
  have dl: "delivered n2"
    using r replica_commit_lt[OF r] by (auto simp: replica_ok_def delivered_def same nth_append)
  have lead: "leader_ok ids g2 i n2"
    using L acked_extends[OF ext, of ?t] unfolding leader_ok_def same
    by (auto simp: sel nth_append less_Suc_eq dest: bspec)
  have go: "p \<in> set ids - {i}" if "GoReplicate p \<in> set (goroutines n2)" for p
  proof (cases "GoReplicate p \<in> set (goroutines ?n)")
    case True
    then show ?thesis using r unfolding replica_ok_def by blast
  next
    case False
    then have "p \<in> fst ` set (Peers ?n)" using that by (auto simp: n2_def n1_def store_def)
    then show ?thesis using peers by simp
  qed
  have rq: "request_ok g2 b" if "(a, b) \<in> vote_requests ?n" for a b
    using r that request_ok_extends[OF ext] unfolding replica_ok_def by blast
  have lo2: "log_ok (gT g2) ?t (?l @ [e])" "commit_ok ids g2 ?t (commitIndex ?n) (?l @ [e])"
    using gp(3) r commit_ok_append[OF commit_ok_extends[OF ext]] by (simp_all add: sel replica_ok_def)
  have "replica_ok ids (elected c) g2 i n2"
    using r[unfolded replica_ok_def] st dl lead go rq lo2 unfolding replica_ok_def same by (auto simp: sel(2))
  then have ok: "replica_ok ids (elected c) g2 i (maybeAdvanceCommit n2)"
    using replica_maybeAdvance[of ids _ g2 i n2] same i q by simp
  have s: "elected (put_node i (maybeAdvanceCommit n2) c) = elected c"
    by (rule put_elected[OF el i]) (use same ld in simp)
  have sg: "granted (put_node i (maybeAdvanceCommit n2) c) = granted c"
    by (rule put_granted[OF el i]) (use same in simp)
  have other: "gT g2 (currentTerm (nd c j)) = gT g (currentTerm (nd c j))"
    if "j \<noteq> i" "j \<in> set ids" "role (nd c j) = RoleLeader" for j
  proof -
    have "(currentTerm (nd c j), j) \<in> elected c" using el that by (auto simp: election_inv_def node_ok_def)
    then have "currentTerm (nd c j) \<noteq> ?t" using elected_unique[OF el led] that(1) by metis
    then show ?thesis by (simp add: sel)
  qed
  have "raft_inv ids (put_node i (maybeAdvanceCommit n2) c) g2"
    using g2 ok ev other by (intro raft_put[OF inv ext]) (auto simp: s sg sel early_votes_def)
  then show ?thesis using P ext by auto
qed

lemma replicate_begin_ok:
  assumes el: "election_inv ids c" and inv: "raft_inv ids c g" and i: "i \<in> set ids"
    and p: "GoReplicate p \<in> set (goroutines (nd c i))" and b: "replicate_begin p (nd c i) = ReplicateAppend req"
  shows "append_ok ids (elected c) g p req"
proof -
  let ?n = "nd c i" and ?t = "currentTerm (nd c i)" and ?l = "log (nd c i)"
  let ?x = "map_get (nextIndex ?n) p"
  have ld: "role ?n = RoleLeader" using b by (auto simp: replicate_begin_def split: if_splits)
  have r: "replica_ok ids (elected c) g i ?n" using inv i by (simp add: raft_inv_def)
  have id: "nodeID ?n = i" "(?t, i) \<in> elected c" using el i ld by (auto simp: election_inv_def node_ok_def)
  have pi: "p \<in> set ids - {i}" and T: "gT g ?t = ?l" and lo: "?l \<noteq> []" "lastIncludedIndex ?n = 0"
    and co: "commit_ok ids g ?t (commitIndex ?n) ?l"
    using r p ld by (auto simp: replica_ok_def leader_ok_def log_ok_def)
  have x: "0 < ?x" "?x \<le> length ?l" using r ld pi by (auto simp: replica_ok_def leader_ok_def)
  have es: "ae_Term req = ?t" "ae_LeaderId req = i" "ae_PrevLogIndex req = ?x - 1" "ae_Entries req = drop ?x ?l"
    "ae_LeaderCommit req = commitIndex ?n"
    "0 < ?x - 1 \<Longrightarrow> ae_PrevLogTerm req = le_term (?l ! (?x - 1))"
    using b ld lo x id by (auto simp: replicate_begin_def lastLogIndex_def logPos_def Let_def split: if_splits)
  have k: "Suc (req_end req) = length ?l" using x by (simp add: req_end_def es)
  have "Suc (ae_PrevLogIndex req) = ?x" using x(1) by (simp add: es)
  then have "take (Suc (req_end req)) ?l = take (Suc (ae_PrevLogIndex req)) ?l @ ae_Entries req"
    by (simp add: k es(4))
  then show ?thesis
    using pi id T co es k replica_commit_lt[OF r] unfolding append_ok_def by auto
qed

lemma conflict_search_bound: "conflict_search k ct x n \<le> max x (Suc k)"
  by (induction k) (auto split: option.splits)

lemma map_get_update: "map_get (AList.update p v m) q = (if q = p then v else map_get m q)"
  by (simp add: map_get_def AList.update_conv')

lemma update_keys: "fst ` set (AList.update p v m) = insert p (fst ` set m)"
proof -
  have "dom (map_of (AList.update p v m)) = insert p (dom (map_of m))" by (simp add: AList.update_conv')
  then show ?thesis by (simp add: dom_map_of_conv_image_fst)
qed

lemma update_member:
  assumes "distinct (map fst m)" "(q, k) \<in> set (AList.update p v m)"
  shows "q = p \<and> k = v \<or> (q, k) \<in> set m"
proof -
  have "map_of (AList.update p v m) q = Some k" using assms by (intro map_of_is_SomeI distinct_update)
  then show ?thesis by (auto simp: AList.update_conv' split: if_splits dest: map_of_SomeD)
qed

text \<open>Changing a leader's bookkeeping about one peer.\<close>

lemma replica_indices:
  assumes r: "replica_ok ids el g i n" and ld: "role n = RoleLeader" and p: "p \<in> set ids - {i}"
    and x: "0 < x" "x \<le> length (log n)" and a: "acked g (currentTerm n) p k"
  shows "replica_ok ids el g i (n\<lparr>matchIndex := AList.update p k (matchIndex n), nextIndex := AList.update p x (nextIndex n)\<rparr>)"
    and "replica_ok ids el g i (n\<lparr>nextIndex := AList.update p x (nextIndex n), goroutines := goroutines n @ [GoReplicate p]\<rparr>)"
proof -
  have L: "leader_ok ids g i n" and d: "distinct (map fst (matchIndex n))" using r ld by (simp_all add: replica_ok_def)
  have a': "acked g (currentTerm n) q j" if "(q, j) \<in> set (AList.update p k (matchIndex n))" for q j
    using update_member[OF d that] a L by (auto simp: leader_ok_def)
  have "leader_ok ids g i (n\<lparr>matchIndex := AList.update p k (matchIndex n), nextIndex := AList.update p x (nextIndex n)\<rparr>)"
    using L x a' by (auto simp: leader_ok_def map_get_update)
  then show "replica_ok ids el g i (n\<lparr>matchIndex := AList.update p k (matchIndex n), nextIndex := AList.update p x (nextIndex n)\<rparr>)"
    using r[unfolded replica_ok_def] ld p d unfolding replica_ok_def
    by (simp add: update_keys distinct_update vote_requests_def delivered_def)
  have "leader_ok ids g i (n\<lparr>nextIndex := AList.update p x (nextIndex n), goroutines := goroutines n @ [GoReplicate p]\<rparr>)"
    using L x by (auto simp: leader_ok_def map_get_update)
  then show "replica_ok ids el g i (n\<lparr>nextIndex := AList.update p x (nextIndex n), goroutines := goroutines n @ [GoReplicate p]\<rparr>)"
    using r[unfolded replica_ok_def] ld p unfolding replica_ok_def
    by (simp add: vote_requests_def delivered_def)
qed

lemma raft_append_reply:
  assumes el: "election_inv ids c" and inv: "raft_inv ids c g" and m: "AEResp i p req resp \<in> net c"
    and i: "i \<in> set ids" and vi: "valid_ids ids"
  shows "raft_inv ids (put_node i (replicate_finish ps p req resp (nd c i)) c) g"
proof -
  let ?n = "nd c i" and ?t = "currentTerm (nd c i)" let ?n' = "replicate_finish ps p req resp ?n"
  have r: "replica_ok ids (elected c) g i ?n" using inv i by (simp add: raft_inv_def)
  have mok: "message_ok ids (elected c) g (AEResp i p req resp)" using inv m unfolding raft_inv_def by blast
  then have a: "append_ok ids (elected c) g p req" and pi: "p \<in> set ids - {i}" by (auto simp: append_ok_def)
  consider "aer_Term resp > ?t" | "aer_Term resp \<le> ?t" "role ?n \<noteq> RoleLeader \<or> ?t \<noteq> ae_Term req"
    | "aer_Term resp \<le> ?t" "role ?n = RoleLeader" "?t = ae_Term req" by fastforce
  then show ?thesis
  proof cases
    case 1
    have "raft_inv ids (put_node i (becomeFollower ps (aer_Term resp) ?n) c) g"
      by (rule raft_quiet[OF el inv i quiet_becomeFollower becomeFollower_vote]) (use 1 in simp_all)
    then show ?thesis using 1 by (simp add: replicate_finish_def)
  next
    case 2
    then have "?n' = ?n" by (auto simp: replicate_finish_def)
    then show ?thesis using raft_quiet[OF el inv i, of ?n] by simp
  next
    case 3
    have T: "gT g ?t = log ?n" and lo: "log ?n \<noteq> []" "lastIncludedIndex ?n = 0"
      using r 3(2) by (auto simp: replica_ok_def leader_ok_def log_ok_def)
    have o: "node_ok ids c i ?n" using el i by (simp add: election_inv_def)
    have q: "quorum ?n = length ids div 2 + 1" "nodeID ?n = i"
      using quorum_ids[OF _ i, of ?n] vi o unfolding valid_ids_def node_ok_def by blast+
    have re: "req_end req < length (log ?n)" using a T 3(3) by (simp add: append_ok_def)
    have nt: "\<not> aer_Term resp > ?t" "\<not> (role ?n \<noteq> RoleLeader \<or> ?t \<noteq> ae_Term req)" using 3 by auto
    show ?thesis
    proof (cases "aer_Success resp")
      case True
      let ?m = "?n\<lparr>matchIndex := AList.update p (req_end req) (matchIndex ?n), nextIndex := AList.update p (req_end req + 1) (nextIndex ?n)\<rparr>"
      have n': "?n' = maybeAdvanceCommit (if req_end req > map_get (matchIndex ?n) p then ?m else ?n)"
        using True nt by (simp add: replicate_finish_def req_end_def Let_def)
      have "acked g ?t p (req_end req)" using mok True 3(3) by simp
      then have rm: "replica_ok ids (elected c) g i ?m"
        using replica_indices(1)[OF r 3(2) pi, of "req_end req + 1"] re by simp
      have qm: "quorum ?m = quorum ?n" by (simp add: quorum_def)
      have "replica_ok ids (elected c) g i (maybeAdvanceCommit ?m)"
        by (rule replica_maybeAdvance[OF rm]) (use 3(2) i q qm in simp_all)
      moreover have "replica_ok ids (elected c) g i (maybeAdvanceCommit ?n)"
        by (rule replica_maybeAdvance[OF r]) (use 3(2) i q in simp_all)
      ultimately have "replica_ok ids (elected c) g i ?n'" unfolding n' by simp
      then show ?thesis by (rule raft_same[OF el inv i]) (use 3(2) in \<open>simp_all add: n'\<close>)
    next
      case False
      let ?x = "if aer_ConflictTerm resp > 0
        then conflict_search (lastLogIndex ?n) (aer_ConflictTerm resp) (aer_ConflictIndex resp) ?n
        else aer_ConflictIndex resp"
      let ?y = "if ?x < lastIncludedIndex ?n + 1 then lastIncludedIndex ?n + 1 else ?x"
      have n': "?n' = ?n\<lparr>nextIndex := AList.update p ?y (nextIndex ?n), goroutines := goroutines ?n @ [GoReplicate p]\<rparr>"
        using False nt by (simp add: replicate_finish_def Let_def)
      have ci: "aer_ConflictIndex resp < length (log ?n)" using mok False 3 re by (auto simp: req_end_def)
      have "Suc (lastLogIndex ?n) = length (log ?n)" using lo by (simp add: lastLogIndex_def)
      then have "?x \<le> length (log ?n)"
        using conflict_search_bound[of "lastLogIndex ?n" "aer_ConflictTerm resp" "aer_ConflictIndex resp" ?n] ci by auto
      then have y: "0 < ?y" "?y \<le> length (log ?n)" using lo by (auto simp: Suc_le_eq)
      have "acked g ?t p 0" using T lo by (simp add: acked_def)
      then have "replica_ok ids (elected c) g i ?n'"
        unfolding n' by (rule replica_indices(2)[OF r 3(2) pi y])
      then show ?thesis by (rule raft_same[OF el inv i]) (use 3(2) in \<open>simp_all add: n'\<close>)
    qed
  qed
qed

section \<open>Followers\<close>

lemma append_loop_sel [simp]:
  "role (append_loop ps idx es n) = role n" "votedFor (append_loop ps idx es n) = votedFor n"
  "matchIndex (append_loop ps idx es n) = matchIndex n" "goroutines (append_loop ps idx es n) = goroutines n"
  by (induction ps idx es n rule: append_loop.induct) (auto simp: store_def Let_def split: option.splits)

text \<open>Accepting entries is replacing the log and then moving the commit index.\<close>

lemma accept_entries_split:
  obtains n1 where "log n1 = log (accept_entries ps req n)" "lastIncludedIndex n1 = lastIncludedIndex n"
    "commitIndex n1 = commitIndex n" "ApplyCh n1 = ApplyCh n" "matchIndex n1 = matchIndex n"
    "currentTerm n1 = currentTerm n" "role n1 = role n" "votedFor n1 = votedFor n" "goroutines n1 = goroutines n"
    "accept_entries ps req n = (if ae_LeaderCommit req > commitIndex n
       then advanceCommitTo (min (ae_LeaderCommit req) (lastLogIndex n1)) n1 else n1)"
proof -
  define a where "a = append_loop ps (ae_PrevLogIndex req + 1) (ae_Entries req) n"
  define n1 where "n1 = (if length (ae_Entries req) > 0 then store (ps_AppendEntries ps (ae_Entries req)) a else a)"
  have s: "log n1 = log a" "lastIncludedIndex n1 = lastIncludedIndex n" "commitIndex n1 = commitIndex n"
    "ApplyCh n1 = ApplyCh n" "matchIndex n1 = matchIndex n" "currentTerm n1 = currentTerm n" "role n1 = role n"
    "votedFor n1 = votedFor n" "goroutines n1 = goroutines n"
    by (simp_all add: n1_def a_def store_def)
  have eq: "accept_entries ps req n = (if ae_LeaderCommit req > commitIndex n
       then advanceCommitTo (min (ae_LeaderCommit req) (lastLogIndex n1)) n1 else n1)"
    by (simp add: accept_entries_def Let_def n1_def a_def)
  show thesis by (rule that[OF _ s(2-) eq]) (simp add: eq)
qed

text \<open>
  The log of a follower after it accepted a request of the leader of term \<open>t\<close>: it follows the
  history, agrees with the leader up to the end of the request, and keeps what it shared with
  the leader before.
\<close>

lemma accept_log:
  fixes ps :: "'s PersistentState"
  assumes lo: "log_ok (gT g) (ae_Term req) (log n)" "lastIncludedIndex n = 0" and gok: "ghost_ok ids el g"
    and a: "append_ok ids el g i req" and ck: "check_prev req n = None"
  defines "l' \<equiv> log (accept_entries ps req n)"
  shows "log_ok (gT g) (ae_Term req) l'" "holds (gT g) (ae_Term req) (req_end req) l'"
    and "\<And>s m. holds (gT g) s m (log n) \<Longrightarrow> holds (gT g) s m (gT g (ae_Term req)) \<Longrightarrow> holds (gT g) s m l'"
proof -
  let ?t = "ae_Term req" and ?p = "ae_PrevLogIndex req" and ?es = "ae_Entries req" and ?l = "log n" and ?T = "gT g"
  have ne: "?l \<noteq> []" using lo(1) by (simp add: log_ok_def)
  have k: "req_end req < length (?T ?t)" and es: "take (Suc (req_end req)) (?T ?t) = take (Suc ?p) (?T ?t) @ ?es"
    using a by (auto simp: append_ok_def)
  have L: "log_ok ?T ?t (?T ?t)" using k by (intro ghost_log[OF gok]) auto
  have pl: "?p < length ?l" using check_prev_NoneD[OF ck] lo(2) ne by (cases ?l) (auto simp: lastLogIndex_def)
  have pt: "?p < length (?T ?t)" using k by (simp add: req_end_def)
  have eqp: "take (Suc ?p) ?l = take (Suc ?p) (?T ?t)"
  proof (cases "?p = 0")
    case True
    then show ?thesis using lo(1) L by (cases ?l; cases "?T ?t") (auto simp: log_ok_def)
  next
    case False
    then have "le_term (?l ! ?p) = ae_PrevLogTerm req" using ck lo(2) pl
      by (auto simp: check_prev_def lastLogIndex_def logPos_def split: if_splits)
    also have "\<dots> = le_term (?T ?t ! ?p)" using a False by (simp add: append_ok_def)
    finally show ?thesis using lo(1) L pl pt by (intro follows_match[of ?T]) (auto simp: log_ok_def)
  qed
  have l': "l' = take (Suc ?p) ?l @ splice_log (drop (Suc ?p) ?l) ?es"
    unfolding l'_def using accept_entries_log[OF ne check_prev_NoneD[OF ck], of ps] lo(2) by simp
  have "Suc ?p + length ?es \<le> length (?T ?t)" "take (Suc ?p + length ?es) (?T ?t) = take (Suc ?p) (?T ?t) @ ?es"
    using k es by (simp_all add: req_end_def)
  note sp = splice_leader[OF lo(1) L pl eqp this, folded l' req_end_def]
  have "l' = ?l \<or> l' = take (Suc (req_end req)) (?T ?t)" using sp(1) by (simp add: req_end_def)
  then show "log_ok ?T ?t l'" using lo(1) log_ok_take[OF L, of "Suc (req_end req)"] by auto
  show "holds ?T ?t (req_end req) l'" by (rule sp(2))
  show "holds ?T s m l'" if "holds ?T s m ?l" "holds ?T s m (?T ?t)" for s m
    using sp(3)[of m] that by (auto simp: holds_def)
qed

text \<open>A committed prefix survives in every log that keeps what it shares with a later leader.\<close>

lemma commit_survives:
  assumes co: "commit_ok ids g t k l" and gok: "ghost_ok ids el g" and T: "gT g t \<noteq> []"
    and keep: "\<And>s m. holds (gT g) s m l \<Longrightarrow> holds (gT g) s m (gT g t) \<Longrightarrow> holds (gT g) s m l'"
  shows "commit_ok ids g t k l' \<and> (\<forall>j. 0 < j \<and> j \<le> k \<longrightarrow> l' ! j = l ! j)"
proof (cases "k = 0")
  case False
  then obtain s m where s: "committed ids g s m" "k \<le> m" "s \<le> t" "holds (gT g) s k l"
    using co by (auto simp: commit_ok_def)
  have "holds (gT g) s k (gT g t)" by (rule holds_le[OF completeness[OF gok s(1,3) T] s(2)])
  then have h: "holds (gT g) s k l'" by (rule keep[OF s(4)])
  have "l' ! j = l ! j" if "j \<le> k" for j using holds_nth[OF h that] holds_nth[OF s(4) that] by simp
  then show ?thesis using s h unfolding commit_ok_def by blast
qed (simp add: commit_ok_def)

definition ack_all :: "string \<Rightarrow> AppendEntriesRequest \<Rightarrow> ghost \<Rightarrow> ghost" where
  "ack_all i req g = g\<lparr>gA := gA g \<union> {(ae_Term req, i, m) | m. m \<in> {j. 0 < j \<and> j \<le> req_end req
     \<and> le_term (gT g (ae_Term req) ! j) = ae_Term req}}\<rparr>"

lemma ack_all_sel [simp]:
  "gT (ack_all i req g) = gT g" "gE (ack_all i req g) = gE g" "gG (ack_all i req g) = gG g"
  "blamed (ack_all i req g) = blamed g" "extends g (ack_all i req g)"
  by (auto simp: ack_all_def blamed_def fun_eq_iff extends_def)

text \<open>The log part: the new log before the commit index moves.\<close>

lemma replica_new_log:
  assumes r: "replica_ok ids el g i n" and gok: "ghost_ok ids el g" and a: "append_ok ids el g i req"
    and t: "currentTerm n = ae_Term req" and fo: "role n = RoleFollower"
    and lo': "log_ok (gT g) (ae_Term req) l'" and hk: "holds (gT g) (ae_Term req) (req_end req) l'"
    and keep: "\<And>s m. holds (gT g) s m (log n) \<Longrightarrow> holds (gT g) s m (gT g (ae_Term req)) \<Longrightarrow> holds (gT g) s m l'"
    and n1: "log n1 = l'" "lastIncludedIndex n1 = lastIncludedIndex n"
    "commitIndex n1 = commitIndex n" "ApplyCh n1 = ApplyCh n" "matchIndex n1 = matchIndex n"
    "currentTerm n1 = currentTerm n" "role n1 = role n" "goroutines n1 = goroutines n"
  shows "replica_ok ids el (ack_all i req g) i n1"
proof -
  let ?t = "ae_Term req" and ?T = "gT g" and ?l = "log n" and ?g = "ack_all i req g"
  have T: "?T ?t \<noteq> []" using a by (auto simp: append_ok_def)
  have st: "s \<le> ?t \<and> (holds ?T s m l' \<or> blamed g s m ?t)" if A: "(s, i, m) \<in> gA ?g" for s m
  proof (cases "(s, i, m) \<in> gA g")
    case True
    then have s: "s \<le> ?t" "holds ?T s m ?l \<or> blamed g s m ?t" using r t by (auto simp: replica_ok_def)
    have "blamed g s m ?t" if "\<not> holds ?T s m (?T ?t)"
    proof -
      have "s \<noteq> ?t" using that holds_self[of m ?T s] ghost_stored(2)[OF gok True] by auto
      then show ?thesis using s(1) that T unfolding blamed_def by (intro exI[of _ ?t]) auto
    qed
    then show ?thesis using s keep by blast
  next
    case False
    then have "s = ?t" "m \<le> req_end req" using A by (auto simp: ack_all_def)
    then show ?thesis using holds_le[OF hk] by simp
  qed
  have vr: "vote_requests n1 = vote_requests n" by (simp add: vote_requests_def n1)
  have "commit_ok ids g ?t (commitIndex n) ?l" using r t by (simp add: replica_ok_def)
  then have co: "commit_ok ids g ?t (commitIndex n) l'" "\<And>j. 0 < j \<Longrightarrow> j \<le> commitIndex n \<Longrightarrow> l' ! j = ?l ! j"
    using commit_survives[OF _ gok T keep] by blast+
  have "map ((!) l') [1..<Suc (commitIndex n)] = map ((!) ?l) [1..<Suc (commitIndex n)]"
    using co(2) by (intro map_cong) auto
  then have dl: "delivered n1" using r unfolding replica_ok_def delivered_def n1 by simp
  have rq: "request_ok ?g q" if "(p, q) \<in> vote_requests n" for p q
    using r that request_ok_extends[of g ?g] unfolding replica_ok_def by auto
  have co': "commit_ok ids ?g ?t (commitIndex n) l'" by (rule commit_ok_extends[OF _ co(1)]) simp
  show ?thesis
    using r[unfolded replica_ok_def] st lo' co' dl rq fo t unfolding replica_ok_def n1 vr by auto
qed

lemma replica_accept:
  assumes r: "replica_ok ids el g i n" and gok: "ghost_ok ids el g" and a: "append_ok ids el g i req"
    and t: "currentTerm n = ae_Term req" and fo: "role n = RoleFollower" and ck: "check_prev req n = None"
  shows "replica_ok ids el (ack_all i req g) i (accept_entries ps req n)"
proof -
  let ?t = "ae_Term req" and ?l' = "log (accept_entries ps req n)" and ?c = "ae_LeaderCommit req" and ?g = "ack_all i req g"
  have lo: "log_ok (gT g) ?t (log n)" "lastIncludedIndex n = 0" using r t by (auto simp: replica_ok_def)
  note al = accept_log[OF lo gok a ck, where ps = ps]
  obtain n1 where n1: "log n1 = ?l'" "lastIncludedIndex n1 = lastIncludedIndex n"
    "commitIndex n1 = commitIndex n" "ApplyCh n1 = ApplyCh n" "matchIndex n1 = matchIndex n"
    "currentTerm n1 = currentTerm n" "role n1 = role n" "votedFor n1 = votedFor n" "goroutines n1 = goroutines n"
    "accept_entries ps req n = (if ?c > commitIndex n then advanceCommitTo (min ?c (lastLogIndex n1)) n1 else n1)"
    by (rule accept_entries_split)
  have r1: "replica_ok ids el ?g i n1" by (rule replica_new_log[OF r gok a t fo al n1(1-7,9)])
  have kl: "req_end req < length ?l'" using al(2) by (simp add: holds_def)
  have lc: "?c \<le> req_end req" and cT: "commit_ok ids g ?t ?c (gT g ?t)" using a by (simp_all add: append_ok_def)
  have mn: "min ?c (lastLogIndex n1) = ?c" using kl lc lo(2) by (simp add: lastLogIndex_def n1(1,2))
  have "commit_ok ids g ?t ?c ?l'" using cT holds_trans[OF holds_le[OF al(2) lc]] unfolding commit_ok_def by blast
  then have "commit_ok ids ?g ?t ?c ?l'" by (rule commit_ok_extends[rotated]) simp
  then have "replica_ok ids el ?g i (advanceCommitTo ?c n1)" if "?c > commitIndex n"
    using that kl lc t by (intro replica_advance[OF r1]) (auto simp: n1(1,3,6))
  then show ?thesis unfolding n1(10) mn using r1 by simp
qed

lemma conflict_loop_le: "conflict_loop t k n \<le> k"
proof (induction t k n rule: conflict_loop.induct)
  case (1 t k n)
  then show ?case by (subst conflict_loop.simps) (auto split: option.splits intro: le_trans[of _ "k - 1"])
qed

lemma check_prev_conflict: "check_prev req n = Some (ct, ci) \<Longrightarrow> ci \<le> ae_PrevLogIndex req"
  by (auto simp: check_prev_def conflict_loop_le split: if_splits option.splits)

lemma accept_entries_role [simp]:
  "role (accept_entries ps req n) = role n" "votedFor (accept_entries ps req n) = votedFor n"
  "currentTerm (accept_entries ps req n) = currentTerm n"
  by (simp_all add: accept_entries_def store_def Let_def)

lemma follow_leader_role [simp]: "role (follow_leader ps t l n) = RoleFollower"
  by (simp add: follow_leader_def becomeFollower_def resetElectionTimer_def store_def Let_def)

lemma acked_ack_all:
  "append_ok ids el g p req \<Longrightarrow> acked (ack_all p req g) (ae_Term req) p (req_end req)"
  by (auto simp: acked_def ack_all_def append_ok_def)

lemma raft_append:
  assumes el: "election_inv ids c" and inv: "raft_inv ids c g" and m: "AEReq p req \<in> net c" and p: "p \<in> set ids"
    and h: "HandleAppendEntries ps req (nd c p) = (resp, n)"
  shows "\<exists>g'. extends g g' \<and> raft_inv ids (send (AEResp (ae_LeaderId req) p req resp) (put_node p n c)) g'"
proof -
  let ?n = "nd c p" and ?t = "ae_Term req" let ?m = "follow_leader ps ?t (ae_LeaderId req) ?n"
  have a: "append_ok ids (elected c) g p req" using inv m by (force simp: raft_inv_def)
  have r: "replica_ok ids (elected c) g p ?n" and gok: "ghost_ok ids (elected c) g" and ev: "early_votes c g"
    using inv p by (auto simp: raft_inv_def)
  consider (stale) "?t < currentTerm ?n" "n = ?n" "\<not> aer_Success resp" "aer_Term resp = currentTerm ?n"
    | (refuse) ct ci where "currentTerm ?n \<le> ?t" "n = ?m" "\<not> aer_Success resp" "check_prev req ?m = Some (ct, ci)"
        "aer_ConflictIndex resp = ci"
    | (accept) "currentTerm ?n \<le> ?t" "n = accept_entries ps req ?m" "aer_Success resp" "check_prev req ?m = None"
    using h by (auto simp: HandleAppendEntries_def Let_def not_less split: if_splits option.splits)
  then show ?thesis
  proof cases
    case stale
    have "raft_inv ids (put_node p ?n c) g" by (rule raft_quiet[OF el inv p]) simp_all
    moreover have "elected c \<subseteq> elected (put_node p ?n c)" by (rule elected_put)
    ultimately show ?thesis
      using a stale append_ok_extends[OF gok extends_refl] by (intro raft_stays raft_send) auto
  next
    case refuse
    have q: "quiet ids p ?n ?m" by (rule quiet_follow_leader[OF refuse(1)])
    have "raft_inv ids (put_node p ?m c) g" by (rule raft_quiet[OF el inv p q follow_leader_vote])
    then show ?thesis
      using a refuse append_ok_extends[OF gok extends_refl elected_put] check_prev_conflict[OF refuse(4)]
      by (intro raft_stays raft_send) auto
  next
    case accept
    let ?g = "ack_all p req g"
    have q: "quiet ids p ?n ?m" by (rule quiet_follow_leader[OF accept(1)])
    have rm: "replica_ok ids (elected c) g p ?m" by (rule replica_quiet[OF r q])
    have rn: "replica_ok ids (elected c) ?g p n"
      unfolding accept(2) by (rule replica_accept[OF rm gok a follow_leader_term[OF accept(1)]]) (use accept in simp_all)
    have s: "elected (put_node p n c) = elected c" by (rule put_elected[OF el p]) (simp add: accept(2))
    have sg: "granted (put_node p n c) = granted c"
      by (rule put_granted[OF el p]) (use follow_leader_vote in \<open>simp add: accept(2)\<close>)
    have late: "s \<le> ?t" if "(s, p, k) \<in> gG g" for s k
      using that ev el accept(1) by (fastforce simp: early_votes_def election_inv_def history_ok_def)
    have "0 < ?t" using a ghost_elected(1)[OF gok] by (auto simp: append_ok_def)
    then have g: "ghost_ok ids (elected c) ?g"
      unfolding ack_all_def using a late by (intro ghost_store[OF gok]) (auto simp: append_ok_def)
    have "raft_inv ids (put_node p n c) ?g"
      using g rn ev by (intro raft_put[OF inv ack_all_sel(5)]) (auto simp: s sg early_votes_def ack_all_def)
    moreover have "append_ok ids (elected c) ?g p req" by (rule append_ok_extends[OF gok _ _ a]) simp_all
    ultimately show ?thesis
      using accept(3) acked_ack_all[OF a] by (intro exI[of _ ?g] conjI raft_send) (auto simp: s)
  qed
qed

section \<open>Runs\<close>

lemma raft_step:
  assumes step: "cluster_step None ps ids c c'" and el: "election_inv ids c" and el': "election_inv ids c'"
    and vi: "valid_ids ids" and inv: "raft_inv ids c g"
  shows "\<exists>g'. extends g g' \<and> raft_inv ids c' g'"
  using step
proof cases
  case (election_tick i)
  then show ?thesis using raft_tick[OF el inv _ vi] el' by simp
next
  case (heartbeat_tick i)
  then show ?thesis using raft_stays[OF raft_heartbeat[OF el inv]] by simp
next
  case (propose i data)
  then show ?thesis using raft_propose[OF el inv _ vi] by blast
next
  case (send_vote_request i p req)
  then have "request_ok g req" using inv by (auto simp: raft_inv_def replica_ok_def vote_requests_def)
  then have "raft_inv ids (send (RVReq p req) c) g" by (intro raft_send[OF inv]) simp
  from raft_stays[OF this] show ?thesis using send_vote_request by simp
next
  case (handle_vote_request p req resp n)
  obtain g' where g': "extends g g'" "raft_inv ids (put_node p n c) g'"
    using raft_vote[OF el inv handle_vote_request(2,3)] by blast
  then have "raft_inv ids c' g'" unfolding handle_vote_request(1) by (intro raft_send) simp_all
  then show ?thesis using g'(1) by blast
next
  case (handle_vote_reply i t p resp)
  then show ?thesis using raft_vote_reply[OF el inv _ vi] el' by auto
next
  case (send_append i p req)
  then have "raft_inv ids c' g" using replicate_begin_ok[OF el inv] raft_send[OF inv] by (metis message_ok.simps(3))
  then show ?thesis by (rule raft_stays)
next
  case (handle_append p req resp n)
  then show ?thesis using raft_append[OF el inv] by blast
next
  case (handle_append_reply i p req resp)
  then show ?thesis using raft_stays[OF raft_append_reply[OF el inv _ _ vi]] by blast
next
  case (begin_snapshot i p hdr)
  then have r: "replica_ok ids (elected c) g i (nd c i)" using inv by (simp add: raft_inv_def)
  have "role (nd c i) = RoleLeader" using begin_snapshot(4) by (auto simp: replicate_begin_def split: if_splits)
  then have "lastIncludedIndex (nd c i) < map_get (nextIndex (nd c i)) p"
    using r begin_snapshot(3) by (auto simp: replica_ok_def leader_ok_def)
  then show ?thesis using begin_snapshot(4) by (auto simp: replicate_begin_def Let_def split: if_splits)
qed (use inv in \<open>auto simp: raft_inv_def\<close>)

end
