(* ===== verification/KV_Recovery.thy ===== *)
theory KV_Recovery
  imports KV_RaftSafety
begin

text \<open>
  Crashes and restarts in the runs of \<open>KV_RaftSafety\<close>. A restart is lossless when the new process reads
  back the log the crashed one had in memory. (With the code as it is not every restart is: see
  \<open>repeated_append_corrupts_restart\<close>.) The invariant survives lossless restarts, at any moment between two
  locked sections, any number of times and at any nodes, and its history only ever grows; so log
  matching, leader completeness and state machine safety hold across them, and state machine safety
  also between what one process delivered and what any process delivers later.
\<close>

section \<open>Lossless runs\<close>

definition reads_back :: "'s Node \<Rightarrow> 's Node \<Rightarrow> bool" where
  "reads_back n n' \<longleftrightarrow> log n' = log n \<and> lastIncludedIndex n' = lastIncludedIndex n"

inductive lossless_step :: "('s \<Rightarrow> 's option) \<Rightarrow> 's PersistentState \<Rightarrow> string list \<Rightarrow> 's cluster \<Rightarrow> 's cluster \<Rightarrow> bool"
  for reopen ps ids c where
  lossless_normal: "cluster_step None ps ids c c' \<Longrightarrow> lossless_step reopen ps ids c c'"
| lossless_restart: "i \<in> set ids \<Longrightarrow> reopen (storage (nd c i)) = Some s \<Longrightarrow>
    restart ps ((nd c i)\<lparr>storage := s\<rparr>) = Some n \<Longrightarrow> reads_back (nd c i) n \<Longrightarrow>
    lossless_step reopen ps ids c (put_node i n c)"

definition lossless_run :: "('s \<Rightarrow> 's option) \<Rightarrow> 's PersistentState \<Rightarrow> 's \<Rightarrow> string list \<Rightarrow> 's cluster \<Rightarrow> bool" where
  "lossless_run reopen ps s0 ids c \<longleftrightarrow> (lossless_step reopen ps ids)\<^sup>*\<^sup>* (cluster_init ps s0 ids) c"

lemma lossless_cluster_run: "cluster_run None ps s0 ids c \<Longrightarrow> lossless_run reopen ps s0 ids c"
proof (induction rule: cluster_run.induct)
  case run_init
  show ?case by (simp add: lossless_run_def)
next
  case (run_step c c')
  then show ?case unfolding lossless_run_def by (meson lossless_normal rtranclp.rtrancl_into_rtrancl)
qed

lemma lossless_run_later:
  "lossless_run reopen ps s0 ids c \<Longrightarrow> (lossless_step reopen ps ids)\<^sup>*\<^sup>* c c' \<Longrightarrow> lossless_run reopen ps s0 ids c'"
  unfolding lossless_run_def by (rule rtranclp_trans)

section \<open>When a restart is lossless\<close>

text \<open>
  The in-memory storage holds the log of its node. Proposals keep that, and so does an append request
  whose first entry is new to the follower: one that lies behind its log or conflicts with it.
\<close>

definition stored :: "memState Node \<Rightarrow> bool" where
  "stored n \<longleftrightarrow> log n = sentinel 0 0 # ms_entries (storage n) \<and> log_wf n \<and> lastIncludedIndex n = 0
     \<and> ms_lastIncludedIndex (storage n) = 0"

definition repeats :: "AppendEntriesRequest \<Rightarrow> 's Node \<Rightarrow> bool" where
  "repeats req n \<longleftrightarrow> (case ae_Entries req of [] \<Rightarrow> False
     | e # _ \<Rightarrow> (case logPos (ae_PrevLogIndex req + 1) n of None \<Rightarrow> False | Some pos \<Rightarrow> le_term (log n ! pos) = le_term e))"

lemma stored_reads_back: "stored n \<Longrightarrow> \<exists>n'. restart memState_ops n = Some n' \<and> reads_back n n'"
  by (simp add: stored_def restart_def Start_def NewNode_def memState_defs reads_back_def resetElectionTimer_def)

lemma stored_index:
  assumes "stored n" "k < length (ms_entries (storage n))" shows "le_index (ms_entries (storage n) ! k) = Suc k"
  using assms unfolding stored_def log_wf_def by (metis Suc_less_eq add_0 length_Cons nth_Cons_Suc)

lemma stored_cong:
  "stored n \<Longrightarrow> log n' = log n \<Longrightarrow> lastIncludedIndex n' = lastIncludedIndex n \<Longrightarrow>
   ms_entries (storage n') = ms_entries (storage n) \<Longrightarrow>
   ms_lastIncludedIndex (storage n') = ms_lastIncludedIndex (storage n) \<Longrightarrow> stored n'"
  unfolding stored_def log_wf_def by metis

lemma append_loop_end_storage:
  assumes "idx = lastIncludedIndex n + length (log n)" "log n \<noteq> []"
  shows "storage (append_loop ps idx es n) = storage n"
  using assms
proof (induction es arbitrary: idx n)
  case (Cons e es)
  have "logPos idx n = None" using Cons.prems(1) by (simp add: logPos_None)
  moreover have "\<not> idx \<le> lastIncludedIndex n" using Cons.prems by (cases "log n") auto
  ultimately show ?case using Cons.IH[of "Suc idx" "n\<lparr>log := log n @ [e]\<rparr>"] Cons.prems by simp
qed simp

lemma append_loop_new:
  assumes s: "stored n" and p: "p < length (log n)" and es: "es \<noteq> []" and nr: "p + 1 < length (log n) \<Longrightarrow> le_term (log n ! (p + 1)) \<noteq> le_term (hd es)"
  shows "log (append_loop memState_ops (p + 1) es n) = sentinel 0 0 # take p (ms_entries (storage n)) @ es
    \<and> ms_entries (storage (append_loop memState_ops (p + 1) es n)) = take p (ms_entries (storage n))
    \<and> ms_lastIncludedIndex (storage (append_loop memState_ops (p + 1) es n)) = 0"
proof (cases "p + 1 = length (log n)")
  case True
  then show ?thesis
    using append_loop_end[of "p + 1" n memState_ops es] append_loop_end_storage[of "p + 1" n memState_ops es] s
    by (auto simp: stored_def)
next
  case False
  obtain e fs where e: "es = e # fs" using es by (cases es) auto
  let ?t = "take p (ms_entries (storage n))"
  let ?m = "(store (memState_TruncateSuffix p) (n\<lparr>log := take (p + 1) (log n)\<rparr>))\<lparr>log := take (p + 1) (log n) @ [e]\<rparr>"
  have l: "log n = sentinel 0 0 # ms_entries (storage n)" "lastIncludedIndex n = 0" "ms_lastIncludedIndex (storage n) = 0"
    using s by (simp_all add: stored_def)
  note ix = stored_index[OF s]
  have f: "filter (\<lambda>e. le_index e \<le> p) (ms_entries (storage n)) = ?t"
  proof -
    have "ms_entries (storage n) = ?t @ drop p (ms_entries (storage n))" by simp
    moreover have "filter (\<lambda>e. le_index e \<le> p) ?t = ?t" using ix by (auto simp: filter_id_conv in_set_conv_nth)
    moreover have "filter (\<lambda>e. le_index e \<le> p) (drop p (ms_entries (storage n))) = []"
      using ix by (auto simp: filter_empty_conv in_set_conv_nth)
    ultimately show ?thesis by (metis append_Nil2 filter_append)
  qed
  have "logPos (p + 1) n = Some (p + 1)" using p False l by (simp add: logPos_def)
  then have "append_loop memState_ops (p + 1) es n = append_loop memState_ops (p + 2) fs ?m"
    using nr p False l by (simp add: e memState_ops_def store_def Let_def)
  moreover have m: "log ?m = sentinel 0 0 # ?t @ [e]" "lastIncludedIndex ?m = 0" "length (log ?m) = p + 2"
    "ms_entries (storage ?m) = ?t" "ms_lastIncludedIndex (storage ?m) = 0"
    using l f p False by (auto simp: store_def memState_TruncateSuffix_def)
  ultimately show ?thesis
    using append_loop_end[of "p + 2" ?m memState_ops fs] append_loop_end_storage[of "p + 2" ?m memState_ops fs] by (simp add: e)
qed

lemma stored_advance: "stored n \<Longrightarrow> stored (advanceCommitTo k n)" "stored n \<Longrightarrow> stored (advance_loop k n)"
proof -
  show a: "stored n \<Longrightarrow> stored (advanceCommitTo k n)" for k
    by (erule stored_cong) (simp_all add: advanceCommitTo_def Let_def)
  show "stored n \<Longrightarrow> stored (advance_loop k n)"
    by (induction k) (auto simp: Let_def a split: option.splits)
qed

lemma stored_append:
  assumes s: "stored n" and nr: "\<not> repeats req n" and h: "HandleAppendEntries memState_ops req n = (resp, n')"
    and ix: "\<forall>k < length (ae_Entries req). le_index (ae_Entries req ! k) = ae_PrevLogIndex req + 1 + k"
  shows "stored n'"
proof -
  let ?m = "follow_leader memState_ops (ae_Term req) (ae_LeaderId req) n" and ?es = "ae_Entries req" and ?p = "ae_PrevLogIndex req"
  have m: "stored ?m" "log ?m = log n"
    by (rule stored_cong[OF s])
      (simp_all add: follow_leader_def becomeFollower_def resetElectionTimer_def store_def memState_defs Let_def)
  consider "n' = n" | "n' = ?m" | "n' = accept_entries memState_ops req ?m" "check_prev req ?m = None"
    using h by (auto simp: HandleAppendEntries_def Let_def split: if_splits option.splits)
  then show ?thesis
  proof cases
    case 3
    define n1 where "n1 = append_loop memState_ops (?p + 1) ?es ?m"
    define n2 where "n2 = (if length ?es > 0 then store (memState_AppendEntries ?es) n1 else n1)"
    have "stored n2"
    proof (cases "?es = []")
      case True
      then show ?thesis using m by (simp add: n2_def n1_def)
    next
      case False
      have l: "lastIncludedIndex ?m = 0" "log ?m = sentinel 0 0 # ms_entries (storage ?m)" using m(1) by (simp_all add: stored_def)
      have p: "?p < length (log ?m)"
        using check_prev_NoneD[OF 3(2)] l by (cases "?p = 0") (auto simp: lastLogIndex_def check_prev_def split: if_splits)
      have "le_term (log ?m ! (?p + 1)) \<noteq> le_term (hd ?es)" if "?p + 1 < length (log ?m)"
        using nr that False l s m(2) by (auto simp: repeats_def logPos_def stored_def neq_Nil_conv)
      note a = append_loop_new[OF m(1) p False this, folded n1_def]
      have i1: "lastIncludedIndex n1 = 0" using l by (simp add: n1_def)
      have "length (take ?p (ms_entries (storage ?m))) = ?p" using p l by simp
      then have "le_index ((sentinel 0 0 # take ?p (ms_entries (storage ?m)) @ ?es) ! k) = k"
        if "k < length (sentinel 0 0 # take ?p (ms_entries (storage ?m)) @ ?es)" for k
        using that ix stored_index[OF m(1)] by (cases k) (auto simp: nth_append sentinel_def)
      then show ?thesis
        using False a i1 by (simp add: n2_def stored_def log_wf_def store_def memState_AppendEntries_def)
    qed
    moreover have "ps_AppendEntries memState_ops = memState_AppendEntries" by (simp add: memState_ops_def)
    ultimately show ?thesis
      unfolding 3(1) accept_entries_def Let_def n1_def[symmetric] by (simp add: stored_advance(1) n2_def split: if_splits)
  qed (use s m in simp_all)
qed

lemma stored_Propose: "stored n \<Longrightarrow> stored (snd (Propose memState_ops data n))"
proof -
  assume s: "stored n"
  let ?e = "\<lparr>le_index = lastLogIndex n + 1, le_term = currentTerm n, le_data = data, le_type = ENTRY_NORMAL\<rparr>"
  let ?n = "store (memState_AppendEntries [?e]) (n\<lparr>log := log n @ [?e]\<rparr>)"
  have "stored ?n"
    using s by (auto simp: stored_def log_wf_def store_def memState_AppendEntries_def lastLogIndex_def nth_append nth_Cons' less_Suc_eq)
  then have "stored (?n\<lparr>goroutines := g\<rparr>)" for g by (rule stored_cong) simp_all
  then show ?thesis using s stored_advance(2) by (simp add: Propose_def maybeAdvanceCommit_def memState_ops_def Let_def)
qed

section \<open>The invariant\<close>

lemma replica_restarted:
  assumes r: "replica_ok ids el g i n" and rb: "reads_back n n'" and t: "currentTerm n' = currentTerm n"
    and f: "role n' = RoleFollower" "goroutines n' = []" "commitIndex n' = 0" "ApplyCh n' = []" "matchIndex n' = []"
  shows "replica_ok ids el g i n'"
  using r rb t f unfolding replica_ok_def
  by (simp add: reads_back_def commit_ok_def delivered_def vote_requests_def)

context hard_storage
begin

lemma raft_restart:
  assumes inv: "cluster_inv ids c" "raft_inv ids c g" and i: "i \<in> set ids" and ok: "\<forall>j \<in> set ids. okid j"
    and re: "reopen (storage (nd c i)) = Some s" and r: "restart ps ((nd c i)\<lparr>storage := s\<rparr>) = Some n"
    and rb: "reads_back (nd c i) n"
  shows "raft_inv ids (put_node i n c) g"
proof -
  let ?m = "(nd c i)\<lparr>storage := s\<rparr>"
  have rep: "replica_ok ids (elected c) g i (nd c i)" using inv(2) i by (simp add: raft_inv_def)
  have "okid (votedFor ?m)" using inv(1) i ok ok_empty by (auto simp: cluster_inv_def)
  moreover have "coherent ?m" using inv(1) i reopen_hard[OF _ re] by (simp add: cluster_inv_def coherent_def)
  ultimately have h: "currentTerm n = currentTerm (nd c i)" "votedFor n = votedFor (nd c i)" "role n = RoleFollower"
    "goroutines n = []" using restart_hard[OF _ _ r] by simp_all
  have l: "lastIncludedIndex n = 0" using rep rb by (simp add: replica_ok_def reads_back_def)
  then have "commitIndex n = 0" "ApplyCh n = []" "matchIndex n = []"
    using r by (auto simp: restart_def Start_def NewNode_def resetElectionTimer_def Let_def split: option.splits if_splits)
  then have "replica_ok ids (elected c) g i n" using replica_restarted[OF rep rb] h by simp
  moreover have "election_inv ids c" using inv(1) by (simp add: cluster_inv_def)
  ultimately show ?thesis using h by (intro raft_same[OF _ inv(2) i]) simp_all
qed

lemma raft_lossless:
  assumes "lossless_step reopen ps ids c c'" "cluster_inv ids c" "raft_inv ids c g" "valid_ids ids" "\<forall>j \<in> set ids. okid j"
  shows "cluster_inv ids c' \<and> (\<exists>g'. extends g g' \<and> raft_inv ids c' g')"
  using assms(1)
proof cases
  case lossless_normal
  then have "cluster_inv ids c'" using cluster_inv_step assms(2,4,5) by blast
  then show ?thesis using raft_step[OF lossless_normal _ _ assms(4,3)] assms(2) by (simp add: cluster_inv_def)
next
  case (lossless_restart i s n)
  then show ?thesis
    using cluster_inv_restart[OF assms(2) _ assms(5)] raft_stays[OF raft_restart[OF assms(2,3) _ assms(5)]] by blast
qed

lemma raft_later:
  assumes "(lossless_step reopen ps ids)\<^sup>*\<^sup>* c c'" "cluster_inv ids c" "raft_inv ids c g" "valid_ids ids" "\<forall>j \<in> set ids. okid j"
  shows "cluster_inv ids c' \<and> (\<exists>g'. extends g g' \<and> raft_inv ids c' g')"
  using assms
proof (induction rule: rtranclp_induct)
  case base
  then show ?case using raft_stays by blast
next
  case (step c1 c2)
  then show ?case using raft_lossless extends_trans by (metis (no_types, lifting))
qed

end

definition ghost_init :: ghost where
  "ghost_init = \<lparr>gT = (\<lambda>t. if t = 0 then [sentinel 0 0] else []), gE = (\<lambda>_ _. []), gA = {}, gG = {}\<rparr>"

locale fresh_storage = hard_storage +
  fixes t0 :: nat and s0 :: 'a
  assumes fresh_hard: "srel s0 (0, '''')" and fresh_load: "ps_LoadHardState ps s0 = Some (0, '''')"
    and fresh_meta: "ps_LoadSnapshotMeta ps s0 = Some (0, t0)" and fresh_entries: "ps_LoadEntries ps s0 = Some []"
begin

lemma raft_init: "raft_inv ids (cluster_init ps s0 ids) ghost_init"
proof -
  have n: "nd (cluster_init ps s0 ids) i = (NewNode i (peers_of ids i) s0)\<lparr>electionTimer := True\<rparr>" for i
    by (simp add: cluster_init_def Start_def NewNode_def fresh_meta fresh_entries fresh_load resetElectionTimer_def)
  have "log_ok (gT ghost_init) 0 [sentinel 0 0]"
    by (simp add: log_ok_def follows_def holds_def ghost_init_def sentinel_def)
  then show ?thesis
    by (auto simp: raft_inv_def n ghost_ok_def early_votes_def replica_ok_def NewNode_def commit_ok_def delivered_def
        vote_requests_def) (auto simp: cluster_init_def ghost_init_def)
qed

lemma lossless_inv:
  assumes "lossless_run reopen ps s0 ids c" "valid_ids ids" "\<forall>j \<in> set ids. okid j"
  shows "cluster_inv ids c \<and> (\<exists>g. raft_inv ids c g)"
  using assms raft_later[OF _ cluster_inv_init[OF _ fresh_hard] raft_init] unfolding lossless_run_def by blast

end

interpretation msf: fresh_storage memState_ops "\<lambda>m h. h = (ms_term m, ms_voted m)" "\<lambda>_. True" Some 0 newMemState
  by unfold_locales (simp_all add: memState_defs newMemState_def)

section \<open>What the invariant gives\<close>

lemma inv_log_matching:
  assumes "raft_inv ids c g" "i \<in> set ids" "j \<in> set ids" "k < length (log (nd c i))" "k < length (log (nd c j))"
    and "le_term (log (nd c i) ! k) = le_term (log (nd c j) ! k)"
  shows "take (Suc k) (log (nd c i)) = take (Suc k) (log (nd c j))"
  using assms by (intro follows_match[of "gT g"]) (auto simp: raft_inv_def replica_ok_def log_ok_def)

lemma inv_committed:
  assumes inv: "raft_inv ids c g" and j: "j \<in> set ids" and k: "0 < k" "k \<le> commitIndex (nd c j)"
  shows "\<exists>t m. committed ids g t m \<and> k \<le> m \<and> t \<le> currentTerm (nd c j) \<and> holds (gT g) t k (log (nd c j))"
proof -
  have "commit_ok ids g (currentTerm (nd c j)) (commitIndex (nd c j)) (log (nd c j))"
    using inv j by (simp add: raft_inv_def replica_ok_def)
  then obtain t m where "committed ids g t m" "commitIndex (nd c j) \<le> m" "t \<le> currentTerm (nd c j)"
    "holds (gT g) t (commitIndex (nd c j)) (log (nd c j))" using k by (auto simp: commit_ok_def)
  then show ?thesis using holds_le k(2) le_trans by blast
qed

lemma inv_leader_completeness:
  assumes inv: "raft_inv ids c g" and ij: "i \<in> set ids" "j \<in> set ids" and ld: "role (nd c i) = RoleLeader"
    and le: "currentTerm (nd c j) \<le> currentTerm (nd c i)"
  shows "take (Suc (commitIndex (nd c j))) (log (nd c i)) = take (Suc (commitIndex (nd c j))) (log (nd c j))"
proof (cases "commitIndex (nd c j) = 0")
  case True
  have "log_ok (gT g) (currentTerm (nd c k)) (log (nd c k))" if "k \<in> set ids" for k
    using inv that by (simp add: raft_inv_def replica_ok_def)
  from this[OF ij(1)] this[OF ij(2)] show ?thesis
    using True by (cases "log (nd c i)"; cases "log (nd c j)") (auto simp: log_ok_def)
next
  case False
  have gok: "ghost_ok ids (elected c) g" and r: "replica_ok ids (elected c) g i (nd c i)"
    using inv ij by (auto simp: raft_inv_def)
  obtain t m where t: "committed ids g t m" "commitIndex (nd c j) \<le> m" "t \<le> currentTerm (nd c j)"
    "holds (gT g) t (commitIndex (nd c j)) (log (nd c j))" using inv_committed[OF inv ij(2) _ order_refl] False by auto
  have "gT g (currentTerm (nd c i)) = log (nd c i)" "log (nd c i) \<noteq> []"
    using r ld by (auto simp: replica_ok_def leader_ok_def log_ok_def)
  then have "holds (gT g) t m (log (nd c i))" using completeness[OF gok t(1), of "currentTerm (nd c i)"] t(3) le by simp
  from holds_le[OF this t(2)] show ?thesis using t(4) by (simp add: holds_def)
qed

text \<open>Two committed logs of one history agree, whoever holds them and whenever they were held.\<close>

lemma commit_ok_agree:
  assumes gok: "ghost_ok ids el g" and co: "commit_ok ids g a k l" "commit_ok ids g b k' l'"
    and x: "0 < x" "x \<le> k" "x \<le> k'"
  shows "l ! x = l' ! x"
proof -
  obtain s m where s: "committed ids g s m" "k \<le> m" "holds (gT g) s k l" using co(1) x by (auto simp: commit_ok_def)
  obtain t n where t: "committed ids g t n" "k' \<le> n" "holds (gT g) t k' l'" using co(2) x by (auto simp: commit_ok_def)
  have ne: "gT g s \<noteq> []" "gT g t \<noteq> []" using s(3) t(3) by (auto simp: holds_def)
  have "gT g s ! x = gT g t ! x"
  proof (cases "s \<le> t")
    case True
    then show ?thesis using holds_nth[OF completeness[OF gok s(1) True ne(2)], of x] s(2) x(2) by simp
  next
    case False
    then show ?thesis using holds_nth[OF completeness[OF gok t(1) _ ne(1)], of x] t(2) x(3) by simp
  qed
  then show ?thesis using holds_nth[OF s(3) x(2)] holds_nth[OF t(3) x(3)] by simp
qed

lemma inv_commit_agree:
  assumes "raft_inv ids c g" "raft_inv ids c' g'" "extends g g'" "i \<in> set ids" "j \<in> set ids"
    and "0 < k" "k \<le> commitIndex (nd c i)" "k \<le> commitIndex (nd c' j)"
  shows "log (nd c i) ! k = log (nd c' j) ! k"
proof -
  have "commit_ok ids g' (currentTerm (nd c i)) (commitIndex (nd c i)) (log (nd c i))"
    using assms(1,4) by (intro commit_ok_extends[OF assms(3)]) (simp add: raft_inv_def replica_ok_def)
  moreover have "commit_ok ids g' (currentTerm (nd c' j)) (commitIndex (nd c' j)) (log (nd c' j))" "ghost_ok ids (elected c') g'"
    using assms(2,5) by (simp_all add: raft_inv_def replica_ok_def)
  ultimately show ?thesis using commit_ok_agree assms(6-8) by blast
qed

lemma inv_delivered:
  assumes inv: "raft_inv ids c g" and i: "i \<in> set ids"
  shows "ApplyCh (nd c i) = map (\<lambda>k. CommandMsg (log (nd c i) ! k)) [1..<Suc (commitIndex (nd c i))]"
    and "k \<le> commitIndex (nd c i) \<Longrightarrow> le_index (log (nd c i) ! k) = k"
proof -
  have r: "replica_ok ids (elected c) g i (nd c i)" using inv i by (simp add: raft_inv_def)
  then show "ApplyCh (nd c i) = map (\<lambda>k. CommandMsg (log (nd c i) ! k)) [1..<Suc (commitIndex (nd c i))]"
    by (simp add: replica_ok_def delivered_def)
  show "le_index (log (nd c i) ! k) = k" if "k \<le> commitIndex (nd c i)"
    using r replica_commit_lt[OF r] that by (auto simp: replica_ok_def log_ok_def)
qed

lemma inv_applied_prefix:
  assumes inv: "raft_inv ids c g" "raft_inv ids c' g'" "extends g g'" and ij: "i \<in> set ids" "j \<in> set ids"
  shows "ApplyCh (nd c i) = take (commitIndex (nd c i)) (ApplyCh (nd c' j))
    \<or> ApplyCh (nd c' j) = take (commitIndex (nd c' j)) (ApplyCh (nd c i))"
proof -
  have "map (\<lambda>x. CommandMsg (log (nd c i) ! x)) [1..<Suc k] = map (\<lambda>x. CommandMsg (log (nd c' j) ! x)) [1..<Suc k]"
    if "k \<le> commitIndex (nd c i)" "k \<le> commitIndex (nd c' j)" for k
    using inv_commit_agree[OF inv ij] that by (simp del: upt_Suc)
  from this[of "min (commitIndex (nd c i)) (commitIndex (nd c' j))"] show ?thesis
    by (cases "commitIndex (nd c i) \<le> commitIndex (nd c' j)")
      (simp_all add: inv_delivered(1)[OF inv(1) ij(1)] inv_delivered(1)[OF inv(2) ij(2)] take_map min_def del: upt_Suc)
qed

section \<open>A run with a committed entry\<close>

text \<open>The leader of the sample run takes a proposal, the second node stores it, the leader commits it.\<close>

definition sample_command :: LogEntry where
  "sample_command = \<lparr>le_index = 1, le_term = 1, le_data = [7], le_type = ENTRY_NORMAL\<rparr>"

definition sample_replicate :: AppendEntriesRequest where
  "sample_replicate = \<lparr>ae_Term = 1, ae_LeaderId = ''a'', ae_PrevLogIndex = 0, ae_PrevLogTerm = 0,
     ae_Entries = [sample_command], ae_LeaderCommit = 0\<rparr>"

definition sample_proposed :: "memState cluster" where
  "sample_proposed = put_node ''a'' (snd (Propose memState_ops [7] (nd sample_elected ''a''))) sample_elected"

definition sample_sent :: "memState cluster" where
  "sample_sent = send (AEReq ''b'' sample_replicate) sample_proposed"

definition sample_reply :: "AppendEntriesResponse \<times> memState Node" where
  "sample_reply = HandleAppendEntries memState_ops sample_replicate (nd sample_sent ''b'')"

definition sample_stored :: "memState cluster" where
  "sample_stored = send (AEResp ''a'' ''b'' sample_replicate (fst sample_reply)) (put_node ''b'' (snd sample_reply) sample_sent)"

definition sample_committed :: "memState cluster" where
  "sample_committed =
     put_node ''a'' (replicate_finish memState_ops ''b'' sample_replicate (fst sample_reply) (nd sample_stored ''a'')) sample_stored"

lemma sample_voted_nodes:
  "nd sample_voted ''a'' = nd sample_candidate ''a''" "nd sample_voted ''b'' = snd sample_vote"
  by (simp_all add: sample_voted_def sample_request_def)

lemma sample_candidate_fields:
  "log (nd sample_candidate ''a'') = [sentinel 0 0]" "lastIncludedIndex (nd sample_candidate ''a'') = 0"
  "commitIndex (nd sample_candidate ''a'') = 0" "ApplyCh (nd sample_candidate ''a'') = []"
  "nextIndex (nd sample_candidate ''a'') = []" "matchIndex (nd sample_candidate ''a'') = []"
  "Peers (nd sample_candidate ''a'') = [(''b'', ''b''), (''c'', ''c'')]" "nodeID (nd sample_candidate ''a'') = ''a''"
  by (simp_all add: sample_candidate_def sample_init_node sample_ids_def NewNode_def peers_of_def
      run_election_tick_def startElection_def store_def resetElectionTimer_def quorum_def Let_def)

lemma sample_elected_fields:
  "log (nd sample_elected ''a'') = [sentinel 0 0]" "lastIncludedIndex (nd sample_elected ''a'') = 0"
  "commitIndex (nd sample_elected ''a'') = 0" "ApplyCh (nd sample_elected ''a'') = []"
  "currentTerm (nd sample_elected ''a'') = 1" "nodeID (nd sample_elected ''a'') = ''a''"
  "nextIndex (nd sample_elected ''a'') = [(''b'', 1), (''c'', 1)]"
  "matchIndex (nd sample_elected ''a'') = [(''b'', 0), (''c'', 0)]"
  "Peers (nd sample_elected ''a'') = [(''b'', ''b''), (''c'', ''c'')]" "nd sample_elected ''b'' = snd sample_vote"
  using sample_candidate_node(1-3)
  by (simp_all add: sample_elected_def sample_voted_nodes vote_reply_def sample_vote_granted quorum_def
      becomeLeader_def sendHeartbeats_def resetHeartbeatTimer_def sample_candidate_fields lastLogIndex_def Let_def)

lemma sample_proposed_fields:
  "log (nd sample_proposed ''a'') = [sentinel 0 0, sample_command]" "lastIncludedIndex (nd sample_proposed ''a'') = 0"
  "commitIndex (nd sample_proposed ''a'') = 0" "ApplyCh (nd sample_proposed ''a'') = []"
  "currentTerm (nd sample_proposed ''a'') = 1" "nodeID (nd sample_proposed ''a'') = ''a''"
  "role (nd sample_proposed ''a'') = RoleLeader"
  "nextIndex (nd sample_proposed ''a'') = [(''b'', 1), (''c'', 1)]"
  "matchIndex (nd sample_proposed ''a'') = [(''b'', 0), (''c'', 0)]" "length (Peers (nd sample_proposed ''a'')) = 2"
  "GoReplicate ''b'' \<in> set (goroutines (nd sample_proposed ''a''))" "nd sample_proposed ''b'' = snd sample_vote"
  by (simp_all add: sample_proposed_def Propose_def sample_leader sample_elected_fields lastLogIndex_def store_def
      maybeAdvanceCommit_def logPos_def quorum_def replicated_count_def sample_command_def Let_def)

lemma sample_vote_fields:
  "log (snd sample_vote) = [sentinel 0 0]" "lastIncludedIndex (snd sample_vote) = 0" "currentTerm (snd sample_vote) = 1"
  "commitIndex (snd sample_vote) = 0" "ApplyCh (snd sample_vote) = []"
  by (simp_all add: sample_vote_def sample_request_def sample_candidate_def sample_init_node sample_ids_def
      NewNode_def HandleRequestVote_def becomeFollower_def store_def resetElectionTimer_def
      candidateLogUpToDate_def lastLogIndex_def lastLogTerm_def sentinel_def sample_vote_request_def Let_def)

lemma sample_reply_fields:
  "aer_Success (fst sample_reply)" "aer_Term (fst sample_reply) = 1"
  "log (snd sample_reply) = [sentinel 0 0, sample_command]" "ApplyCh (snd sample_reply) = []"
  "commitIndex (snd sample_reply) = 0"
  by (simp_all add: sample_reply_def sample_sent_def sample_proposed_fields HandleAppendEntries_def sample_vote_fields
      sample_replicate_def follow_leader_def resetElectionTimer_def check_prev_def accept_entries_def store_def
      logPos_def Let_def)

lemma sample_committed_fields:
  "log (nd sample_committed ''a'') = [sentinel 0 0, sample_command]" "commitIndex (nd sample_committed ''a'') = 1"
  "ApplyCh (nd sample_committed ''a'') = [CommandMsg sample_command]" "role (nd sample_committed ''a'') = RoleLeader"
  "currentTerm (nd sample_committed ''a'') = 1" "nd sample_committed ''b'' = snd sample_reply"
proof -
  have "nd sample_stored ''a'' = nd sample_proposed ''a''" by (simp add: sample_stored_def sample_sent_def)
  then show "log (nd sample_committed ''a'') = [sentinel 0 0, sample_command]" "commitIndex (nd sample_committed ''a'') = 1"
    "ApplyCh (nd sample_committed ''a'') = [CommandMsg sample_command]" "role (nd sample_committed ''a'') = RoleLeader"
    "currentTerm (nd sample_committed ''a'') = 1"
    by (simp_all add: sample_committed_def replicate_finish_def sample_reply_fields sample_proposed_fields
        sample_replicate_def map_get_def maybeAdvanceCommit_def lastLogIndex_def logPos_def quorum_def
        replicated_count_def advanceCommitTo_def map_filter_def)
      (simp_all add: sample_command_def)
  show "nd sample_committed ''b'' = snd sample_reply" by (simp add: sample_committed_def sample_stored_def)
qed

lemma sample_committed_run: "cluster_run faults memState_ops newMemState sample_ids sample_committed"
proof -
  have ids: "''a'' \<in> set sample_ids" "''b'' \<in> set sample_ids" by (simp_all add: sample_ids_def)
  have r1: "cluster_run faults memState_ops newMemState sample_ids sample_proposed"
    unfolding sample_proposed_def by (rule run_step[OF sample_run propose[OF ids(1)]])
  have "replicate_begin ''b'' (nd sample_proposed ''a'') = ReplicateAppend sample_replicate"
    by (simp add: replicate_begin_def sample_proposed_fields map_get_def lastLogIndex_def logPos_def sample_replicate_def)
  from run_step[OF r1 send_append[OF ids(1) sample_proposed_fields(11) this]]
  have r2: "cluster_run faults memState_ops newMemState sample_ids sample_sent" unfolding sample_sent_def .
  have "AEReq ''b'' sample_replicate \<in> net sample_sent" by (simp add: sample_sent_def send_def)
  moreover have "HandleAppendEntries memState_ops sample_replicate (nd sample_sent ''b'') = (fst sample_reply, snd sample_reply)"
    by (simp add: sample_reply_def)
  ultimately have "cluster_step faults memState_ops sample_ids sample_sent
      (send (AEResp (ae_LeaderId sample_replicate) ''b'' sample_replicate (fst sample_reply)) (put_node ''b'' (snd sample_reply) sample_sent))"
    by (intro handle_append[OF _ ids(2)])
  then have r3: "cluster_run faults memState_ops newMemState sample_ids sample_stored"
    using run_step[OF r2] by (simp add: sample_stored_def sample_replicate_def)
  have "AEResp ''a'' ''b'' sample_replicate (fst sample_reply) \<in> net sample_stored" by (simp add: sample_stored_def send_def)
  from run_step[OF r3 handle_append_reply[OF this ids(1)]] show ?thesis unfolding sample_committed_def .
qed

lemma sample_committed_stored: "stored (nd sample_committed ''a'')"
proof -
  have e: "ms_entries (storage (nd sample_elected ''a'')) = []" "ms_lastIncludedIndex (storage (nd sample_elected ''a'')) = 0"
    by (simp_all add: sample_elected_def sample_voted_nodes vote_reply_def becomeFollower_def becomeLeader_def
        sendHeartbeats_def resetHeartbeatTimer_def resetElectionTimer_def sample_candidate_def sample_init_node
        NewNode_def newMemState_def run_election_tick_def startElection_def store_def memState_defs quorum_def
        sample_ids_def peers_of_def Let_def)
  then have "stored (nd sample_elected ''a'')"
    by (simp add: stored_def log_wf_def sample_elected_fields sentinel_def)
  then have "stored (nd sample_proposed ''a'')" by (simp add: sample_proposed_def stored_Propose)
  moreover have "nd sample_stored ''a'' = nd sample_proposed ''a''" by (simp add: sample_stored_def sample_sent_def)
  moreover have "stored n \<Longrightarrow> stored (n\<lparr>matchIndex := x, nextIndex := y\<rparr>)" for n x y by (erule stored_cong) simp_all
  ultimately show ?thesis
    by (simp add: sample_committed_def replicate_finish_def sample_reply_fields sample_proposed_fields
        sample_replicate_def maybeAdvanceCommit_def stored_advance Let_def)
qed

text \<open>Then the leader crashes and reads its log back.\<close>

definition sample_restarted :: "memState cluster" where
  "sample_restarted = put_node ''a'' (the (restart memState_ops (nd sample_committed ''a''))) sample_committed"

lemma sample_restarted_fields:
  "restart memState_ops (nd sample_committed ''a'') = Some (nd sample_restarted ''a'')"
  "log (nd sample_restarted ''a'') = [sentinel 0 0, sample_command]" "lastIncludedIndex (nd sample_restarted ''a'') = 0"
  "commitIndex (nd sample_restarted ''a'') = 0" "ApplyCh (nd sample_restarted ''a'') = []"
  "nd sample_restarted ''b'' = snd sample_reply"
proof -
  have st: "stored (nd sample_committed ''a'')" by (rule sample_committed_stored)
  obtain n where n: "restart memState_ops (nd sample_committed ''a'') = Some n" "reads_back (nd sample_committed ''a'') n"
    using stored_reads_back[OF st] by blast
  have a: "nd sample_restarted ''a'' = n" using n(1) by (simp add: sample_restarted_def)
  show "restart memState_ops (nd sample_committed ''a'') = Some (nd sample_restarted ''a'')" using n(1) a by simp
  show l: "log (nd sample_restarted ''a'') = [sentinel 0 0, sample_command]" "lastIncludedIndex (nd sample_restarted ''a'') = 0"
    using n(2) st by (simp_all add: a reads_back_def sample_committed_fields stored_def)
  show "commitIndex (nd sample_restarted ''a'') = 0" "ApplyCh (nd sample_restarted ''a'') = []"
    using n(1) st by (auto simp: a stored_def restart_def Start_def NewNode_def memState_defs resetElectionTimer_def)
  show "nd sample_restarted ''b'' = snd sample_reply" by (simp add: sample_restarted_def sample_committed_fields)
qed

lemma sample_restarted_step: "lossless_step Some memState_ops sample_ids sample_committed sample_restarted"
proof -
  let ?n = "nd sample_restarted ''a''"
  have "sample_restarted = put_node ''a'' ?n sample_committed" by (simp add: sample_restarted_def)
  moreover have "lossless_step Some memState_ops sample_ids sample_committed (put_node ''a'' ?n sample_committed)"
  proof (rule lossless_restart)
    show "restart memState_ops ((nd sample_committed ''a'')\<lparr>storage := storage (nd sample_committed ''a'')\<rparr>) = Some ?n"
      by (simp add: sample_restarted_fields)
    show "reads_back (nd sample_committed ''a'') ?n"
      using sample_committed_stored by (simp add: reads_back_def sample_restarted_fields sample_committed_fields stored_def)
  qed (simp_all add: sample_ids_def)
  ultimately show ?thesis by simp
qed

lemma sample_restarted_run: "lossless_run Some memState_ops newMemState sample_ids sample_restarted"
  by (rule lossless_run_later[OF lossless_cluster_run[OF sample_committed_run]])
    (rule r_into_rtranclp, rule sample_restarted_step)

section \<open>Properties\<close>

text \<open>
  C3: log matching. In every run without compaction, whatever the network loses, delays, repeats or
  reorders, and with any crashes after which the log is read back: if two nodes' logs hold entries with the same term at the same
  index, then the two logs are identical up to and including that index.
\<close>

theorem log_matching:
  assumes "lossless_run Some memState_ops newMemState ids c" and "valid_ids ids" and "i \<in> set ids" and "j \<in> set ids"
    and "k < length (log (nd c i))" and "k < length (log (nd c j))"
    and "le_term (log (nd c i) ! k) = le_term (log (nd c j) ! k)"
  shows "take (Suc k) (log (nd c i)) = take (Suc k) (log (nd c j))"
proof -
  obtain g where "raft_inv ids c g" using msf.lossless_inv[OF assms(1,2)] by auto
  then show ?thesis using assms(3-7) by (rule inv_log_matching)
qed

theorem log_matching_witness:
  "le_term (log (nd sample_restarted ''a'') ! 1) = 1 \<and> length (log (nd sample_restarted ''b'')) = 2
    \<and> take 2 (log (nd sample_restarted ''a'')) = take 2 (log (nd sample_restarted ''b''))"
  using log_matching[OF sample_restarted_run sample_valid, of "''a''" "''b''" 1]
  by (simp add: sample_ids_def sample_restarted_fields sample_reply_fields sample_command_def numeral_2_eq_2)

text \<open>
  C4: leader completeness. In every run without compaction, with any crashes after which the log is
  read back, a leader's log holds
  everything that any node of the same or a lower term has committed, entry by entry up to that
  node's commit index.
\<close>

theorem leader_completeness:
  assumes "lossless_run Some memState_ops newMemState ids c" and "valid_ids ids" and "i \<in> set ids" and "j \<in> set ids"
    and "role (nd c i) = RoleLeader" and "currentTerm (nd c j) \<le> currentTerm (nd c i)"
  shows "commitIndex (nd c j) < length (log (nd c i))
    \<and> take (Suc (commitIndex (nd c j))) (log (nd c i)) = take (Suc (commitIndex (nd c j))) (log (nd c j))"
proof -
  obtain g where g: "raft_inv ids c g" using msf.lossless_inv[OF assms(1,2)] by auto
  have "replica_ok ids (elected c) g j (nd c j)" using g assms(4) by (simp add: raft_inv_def)
  then have lt: "commitIndex (nd c j) < length (log (nd c j))" by (rule replica_commit_lt)
  note eq = inv_leader_completeness[OF g assms(3-6)]
  have "min (length (log (nd c i))) (Suc (commitIndex (nd c j))) = Suc (commitIndex (nd c j))"
    using arg_cong[OF eq, of length] lt by simp
  then show ?thesis using eq by linarith
qed

theorem leader_completeness_witness:
  "commitIndex (nd sample_committed ''a'') = 1
    \<and> take (Suc (commitIndex (nd sample_committed ''b''))) (log (nd sample_committed ''a''))
      = take (Suc (commitIndex (nd sample_committed ''b''))) (log (nd sample_committed ''b''))"
proof -
  have "currentTerm (nd sample_committed ''b'') = 1"
    by (simp add: sample_committed_fields sample_reply_def sample_sent_def sample_proposed_fields
        HandleAppendEntries_def sample_vote_fields sample_replicate_def follow_leader_def resetElectionTimer_def
        check_prev_def accept_entries_def store_def logPos_def Let_def)
  then show ?thesis
    using leader_completeness[OF lossless_cluster_run[OF sample_committed_run] sample_valid, of "''a''" "''b''"]
    by (simp add: sample_ids_def sample_committed_fields)
qed

text \<open>
  C2: state machine safety. In every run without compaction, with any crashes after which the log is
  read back: each process has handed to its application exactly the entries of the indices 1 up to
  its commit index, in order; and of what any process at any moment has delivered and what any
  process at the same or a later moment has delivered, one is a prefix of the other. So no index is
  ever applied with two different entries, on any node, before or after any crash.
\<close>

theorem state_machine_safety:
  assumes "lossless_run Some memState_ops newMemState ids c" and "(lossless_step Some memState_ops ids)\<^sup>*\<^sup>* c c'"
    and "valid_ids ids" and "i \<in> set ids" and "j \<in> set ids"
  shows "(\<exists>es. ApplyCh (nd c i) = map CommandMsg es \<and> map le_index es = [1..<Suc (commitIndex (nd c i))])
    \<and> (ApplyCh (nd c i) = take (commitIndex (nd c i)) (ApplyCh (nd c' j))
       \<or> ApplyCh (nd c' j) = take (commitIndex (nd c' j)) (ApplyCh (nd c i)))"
proof -
  obtain g where g: "ms.cluster_inv ids c" "raft_inv ids c g" using msf.lossless_inv[OF assms(1,3)] by auto
  obtain g' where g': "extends g g'" "raft_inv ids c' g'" using ms.raft_later[OF assms(2) g assms(3)] by auto
  let ?es = "map ((!) (log (nd c i))) [1..<Suc (commitIndex (nd c i))]"
  have "ApplyCh (nd c i) = map CommandMsg ?es" using inv_delivered(1)[OF g(2) assms(4)] by (simp add: comp_def)
  moreover have "map le_index ?es = [1..<Suc (commitIndex (nd c i))]"
    using inv_delivered(2)[OF g(2) assms(4)] by (auto intro!: map_idI simp: comp_def simp del: upt_Suc)
  ultimately show ?thesis using inv_applied_prefix[OF g(2) g'(2,1) assms(4,5)] by blast
qed

theorem state_machine_safety_witness:
  "ApplyCh (nd sample_committed ''a'') = [CommandMsg sample_command]
    \<and> ApplyCh (nd sample_restarted ''a'') = take 0 (ApplyCh (nd sample_committed ''a''))"
proof -
  have "(lossless_step Some memState_ops sample_ids)\<^sup>*\<^sup>* sample_committed sample_restarted"
    by (rule r_into_rtranclp, rule sample_restarted_step)
  from state_machine_safety[OF lossless_cluster_run[OF sample_committed_run] this sample_valid, of "''a''" "''a''"]
  show ?thesis by (simp add: sample_ids_def sample_committed_fields sample_restarted_fields)
qed

end
