(* ===== verification/KV_WalState.thy ===== *)
theory KV_WalState
  imports KV_Json KV_Wal KV_Recovery
begin

text \<open>
  The storage of a Raft node on disk, \<open>server/walstate.go\<close>: the write-ahead log, the term and
  vote in \<open>hardstate.json\<close> and the snapshot in \<open>snapshot.bin\<close>, all in one directory. The two files
  are written under a temporary name and renamed. \<open>io\<close> says how the disk treats a file: \<open>None\<close>
  when it takes the write, \<open>Some n\<close> when a write stops after \<open>n\<close> bytes (or, for the target of a
  rename, when the rename does not happen); a crash between the two calls looks the same. The
  theorems show that the store keeps the contract \<open>hard_storage\<close> the election proofs rest on.
\<close>

section \<open>The hard state file\<close>

record hardState =
  hs_Term :: nat
  hs_VotedFor :: string

definition hardState_Marshal :: "hardState \<Rightarrow> bytes" where
  "hardState_Marshal hs =
     string_bytes (json_object [(''term'', dec_string (hs_Term hs)), (''voted_for'', json_string (hs_VotedFor hs))])"

text \<open>
  Storing one member: names match up to case, \<open>null\<close> leaves the field alone, a value of another
  type is an error, and so is a number that is no \<open>uint64\<close>; other members are skipped.
\<close>

definition hardState_member :: "string \<times> json \<Rightarrow> hardState \<Rightarrow> hardState option" where
  "hardState_member m hs =
     (if fold_name (fst m) = ''TERM'' then
        (case snd m of
           JNull \<Rightarrow> Some hs
         | JNum x \<Rightarrow> map_option (\<lambda>n. hs\<lparr>hs_Term := n\<rparr>) (ParseUint x)
         | _ \<Rightarrow> None)
      else if fold_name (fst m) = ''VOTED_FOR'' then
        (case snd m of JNull \<Rightarrow> Some hs | JStr s \<Rightarrow> Some (hs\<lparr>hs_VotedFor := s\<rparr>) | _ \<Rightarrow> None)
      else Some hs)"

fun hardState_members :: "(string \<times> json) list \<Rightarrow> hardState \<Rightarrow> hardState option" where
  "hardState_members [] hs = Some hs"
| "hardState_members (m # ms) hs =
     (case hardState_member m hs of None \<Rightarrow> None | Some hs1 \<Rightarrow> hardState_members ms hs1)"

definition hardState_Unmarshal :: "bytes \<Rightarrow> hardState option" where
  "hardState_Unmarshal data =
     (let zero = \<lparr>hs_Term = 0, hs_VotedFor = ''''\<rparr>
      in case parse_json data of
           Some (JObj ms) \<Rightarrow> hardState_members ms zero
         | Some JNull \<Rightarrow> Some zero
         | _ \<Rightarrow> None)"

section \<open>The store\<close>

record walState =
  ws_w :: WAL

type_synonym disk_io = "string \<Rightarrow> nat option"

abbreviation ws_files :: "walState \<Rightarrow> dir" where
  "ws_files ws \<equiv> w_files (ws_w ws)"

definition set_files :: "dir \<Rightarrow> walState \<Rightarrow> walState" where
  "set_files d ws = ws\<lparr>ws_w := (ws_w ws)\<lparr>w_files := d\<rparr>\<rparr>"

definition WriteFile :: "disk_io \<Rightarrow> string \<Rightarrow> bytes \<Rightarrow> dir \<Rightarrow> bool \<times> dir" where
  "WriteFile io p data d =
     (case io p of None \<Rightarrow> (True, dir_put p data d) | Some n \<Rightarrow> (False, dir_put p (take n data) d))"

definition Rename :: "disk_io \<Rightarrow> string \<Rightarrow> string \<Rightarrow> dir \<Rightarrow> bool \<times> dir" where
  "Rename io old new d =
     (case dir_get d old of
        None \<Rightarrow> (False, d)
      | Some c \<Rightarrow> if io new = None then (True, dir_put new c (dir_remove old d)) else (False, d))"

definition newWALState :: "unmarshal \<Rightarrow> dir \<Rightarrow> wal_error + walState" where
  "newWALState unm d = (case wal_Open unm d of Inl err \<Rightarrow> Inl err | Inr w \<Rightarrow> Inr \<lparr>ws_w = w\<rparr>)"

definition walState_SaveHardState :: "disk_io \<Rightarrow> nat \<Rightarrow> string \<Rightarrow> walState \<Rightarrow> bool \<times> walState" where
  "walState_SaveHardState io term v ws =
     (let data = hardState_Marshal \<lparr>hs_Term = term, hs_VotedFor = v\<rparr>;
          tmpPath = ''hardstate.tmp'';
          finalPath = ''hardstate.json''
      in case WriteFile io tmpPath data (ws_files ws) of
           (False, d) \<Rightarrow> (False, set_files d ws)
         | (True, d) \<Rightarrow> (case Rename io tmpPath finalPath d of (ok, d1) \<Rightarrow> (ok, set_files d1 ws)))"

definition walState_LoadHardState :: "walState \<Rightarrow> (nat \<times> string) option" where
  "walState_LoadHardState ws =
     (case dir_get (ws_files ws) ''hardstate.json'' of
        None \<Rightarrow> Some (0, '''')
      | Some data \<Rightarrow> map_option (\<lambda>hs. (hs_Term hs, hs_VotedFor hs)) (hardState_Unmarshal data))"

definition walState_AppendEntries :: "marshal \<Rightarrow> LogEntry list \<Rightarrow> walState \<Rightarrow> bool \<times> walState" where
  "walState_AppendEntries mar es ws =
     (case wal_AppendBatch mar es (ws_w ws) of (err, w) \<Rightarrow> (err = None, ws\<lparr>ws_w := w\<rparr>))"

definition walState_LoadEntries :: "unmarshal \<Rightarrow> walState \<Rightarrow> LogEntry list option" where
  "walState_LoadEntries unm ws = (case wal_ReadAll unm (ws_w ws) of Inl _ \<Rightarrow> None | Inr es \<Rightarrow> Some es)"

definition walState_TruncateSuffix :: "marshal \<Rightarrow> unmarshal \<Rightarrow> nat \<Rightarrow> walState \<Rightarrow> bool \<times> walState" where
  "walState_TruncateSuffix mar unm keepIndex ws =
     (case wal_TruncateSuffix mar unm keepIndex (ws_w ws) of (err, w) \<Rightarrow> (err = None, ws\<lparr>ws_w := w\<rparr>))"

definition walState_SaveSnapshot :: "disk_io \<Rightarrow> bytes \<Rightarrow> nat \<Rightarrow> nat \<Rightarrow> walState \<Rightarrow> bool \<times> walState" where
  "walState_SaveSnapshot io data idx term ws =
     (let buf = PutUint64 (word_of_nat idx) @ PutUint64 (word_of_nat term) @ data;
          tmpPath = ''snapshot.tmp'';
          finalPath = ''snapshot.bin''
      in case WriteFile io tmpPath buf (ws_files ws) of
           (False, d) \<Rightarrow> (False, set_files d ws)
         | (True, d) \<Rightarrow> (case Rename io tmpPath finalPath d of (ok, d1) \<Rightarrow> (ok, set_files d1 ws)))"

definition walState_LoadSnapshot :: "walState \<Rightarrow> (bytes \<times> nat \<times> nat) option" where
  "walState_LoadSnapshot ws =
     (case dir_get (ws_files ws) ''snapshot.bin'' of
        None \<Rightarrow> Some ([], 0, 0)
      | Some buf \<Rightarrow>
          if length buf < 16 then None
          else Some (drop 16 buf, unat (Uint64 (take 8 buf)), unat (Uint64 (take 8 (drop 8 buf)))))"

definition walState_LoadSnapshotMeta :: "walState \<Rightarrow> (nat \<times> nat) option" where
  "walState_LoadSnapshotMeta ws =
     (case dir_get (ws_files ws) ''snapshot.bin'' of
        None \<Rightarrow> Some (0, 0)
      | Some f \<Rightarrow>
          (case ReadFull 16 f of
             ReadOk header _ \<Rightarrow> Some (unat (Uint64 (take 8 header)), unat (Uint64 (drop 8 header)))
           | _ \<Rightarrow> None))"

definition walState_TruncatePrefix :: "marshal \<Rightarrow> unmarshal \<Rightarrow> nat \<Rightarrow> walState \<Rightarrow> bool \<times> walState" where
  "walState_TruncatePrefix mar unm discardIndex ws =
     (case wal_TruncatePrefix mar unm discardIndex (ws_w ws) of (err, w) \<Rightarrow> (err = None, ws\<lparr>ws_w := w\<rparr>))"

definition walState_ops :: "disk_io \<Rightarrow> marshal \<Rightarrow> unmarshal \<Rightarrow> walState PersistentState" where
  "walState_ops io mar unm =
     \<lparr>ps_SaveHardState = walState_SaveHardState io, ps_LoadHardState = walState_LoadHardState,
      ps_AppendEntries = walState_AppendEntries mar, ps_LoadEntries = walState_LoadEntries unm,
      ps_TruncateSuffix = walState_TruncateSuffix mar unm, ps_SaveSnapshot = walState_SaveSnapshot io,
      ps_LoadSnapshot = walState_LoadSnapshot, ps_LoadSnapshotMeta = walState_LoadSnapshotMeta,
      ps_TruncatePrefix = walState_TruncatePrefix mar unm\<rparr>"

text \<open>What a new process finds: the files, opened again. What was still buffered is gone.\<close>

definition reopen_walState :: "unmarshal \<Rightarrow> walState \<Rightarrow> walState option" where
  "reopen_walState unm ws = (case newWALState unm (ws_files ws) of Inl _ \<Rightarrow> None | Inr ws1 \<Rightarrow> Some ws1)"

section \<open>The hard state round-trips\<close>

lemma hardState_roundtrip:
  assumes "valid_utf8 (hs_VotedFor hs)"
  shows "hardState_Unmarshal (hardState_Marshal hs) = (if hs_Term hs < 2 ^ 64 then Some hs else None)"
proof -
  have "valid_utf8 ''term''" "valid_utf8 ''voted_for''" by (rule valid_utf8_ascii, simp)+
  then have "parse_json (hardState_Marshal hs) =
      Some (JObj [(''term'', JNum (dec_string (hs_Term hs))), (''voted_for'', JStr (hs_VotedFor hs))])"
    unfolding hardState_Marshal_def
    by (intro parse_json_object) (simp_all add: coded_number coded_string assms)
  moreover have "fold_name ''term'' = ''TERM''" "fold_name ''voted_for'' = ''VOTED_FOR''" by code_simp+
  moreover have "ParseUint (dec_string n) = (if n < 2 ^ 64 then Some n else None)" for n
    using dec_string_digits[of n] by (simp add: ParseUint_def)
  ultimately show ?thesis by (simp add: hardState_Unmarshal_def hardState_member_def)
qed

section \<open>Files other than segments\<close>

text \<open>
  Every operation of the write-ahead log, failed ones included, touches segment files only.
\<close>

definition wal_named :: "WAL \<Rightarrow> bool" where
  "wal_named w \<longleftrightarrow> (case w_current w of None \<Rightarrow> True | Some p \<Rightarrow> has_suffix ''.wal'' p)"

definition same_other :: "dir \<Rightarrow> dir \<Rightarrow> bool" where
  "same_other d d' \<longleftrightarrow> (\<forall>p. \<not> has_suffix ''.wal'' p \<longrightarrow> dir_get d' p = dir_get d p)"

definition keeps_other :: "WAL \<Rightarrow> WAL \<Rightarrow> bool" where
  "keeps_other w w' \<longleftrightarrow> (wal_named w \<longrightarrow> wal_named w' \<and> same_other (w_files w) (w_files w'))"

lemma keeps_other_refl [simp]: "keeps_other w w"
  by (simp add: keeps_other_def same_other_def)

lemma keeps_other_trans: "keeps_other u v \<Longrightarrow> keeps_other v w \<Longrightarrow> keeps_other u w"
  by (auto simp: keeps_other_def same_other_def)

lemma keeps_other_upd [simp]:
  "keeps_other w (w'\<lparr>w_lastIndex := l\<rparr>) = keeps_other w w'" "keeps_other w (w'\<lparr>w_buf := b\<rparr>) = keeps_other w w'"
  "keeps_other w (w'\<lparr>w_size := s\<rparr>) = keeps_other w w'"
  by (simp_all add: keeps_other_def wal_named_def)

lemma keeps_flush [simp]: "keeps_other w (wal_flush w)"
  by (auto simp: keeps_other_def wal_named_def same_other_def wal_flush_def split: option.splits)

lemma keeps_writeRecord: "keeps_other w (snd (writeRecord data w))"
  by (simp add: writeRecord_def)

lemma keeps_createSegment: "keeps_other w (snd (createSegment k w))"
  by (auto simp: createSegment_def keeps_other_def wal_named_def same_other_def wal_flush_def segment_path_def Let_def
      split: option.splits)

lemma keeps_rollSegment: "keeps_other w (snd (rollSegment k w))"
  using keeps_other_trans[OF keeps_flush keeps_createSegment] by (simp add: rollSegment_def)

lemma keeps_append_one: "keeps_other w (snd (append_one mar e w))"
proof (cases "mar e")
  case (Some data)
  obtain err w1 where r: "(if w_size w + (headerSize + length data) > maxSegmentSize
      then rollSegment (le_index e) w else (None, w)) = (err, w1)" by fastforce
  then have "keeps_other w w1" using keeps_rollSegment[of w "le_index e"] by (auto split: if_split_asm)
  then show ?thesis
    using keeps_other_trans[OF _ keeps_writeRecord] by (simp add: append_one_def Some r split: option.split)
qed (simp add: append_one_def)

lemma keeps_batch_loop: "keeps_other w (snd (batch_loop mar es w))"
proof (induction es arbitrary: w)
  case (Cons e es)
  obtain err w1 where a: "append_one mar e w = (err, w1)" by fastforce
  then have "keeps_other w w1" using keeps_append_one[of w mar e] by simp
  then show ?case using keeps_other_trans[OF _ Cons.IH[of "w1\<lparr>w_lastIndex := le_index e\<rparr>"]] a by (simp split: option.split)
qed simp

lemma keeps_AppendBatch: "keeps_other w (snd (wal_AppendBatch mar es w))"
proof -
  obtain err w1 where b: "batch_loop mar es w = (err, w1)" by fastforce
  then have "keeps_other w w1" using keeps_batch_loop[of w mar es] by simp
  then show ?thesis using keeps_other_trans[OF _ keeps_flush] b by (simp add: wal_AppendBatch_def split: option.split)
qed

lemma keeps_rewrite_loop: "keeps_other w (snd (rewrite_loop mar es w))"
proof (induction es arbitrary: w)
  case (Cons e es)
  show ?case
  proof (cases "mar e")
    case (Some data)
    obtain err w1 where a: "writeRecord data w = (err, w1)" by fastforce
    then have "keeps_other w w1" using keeps_writeRecord[of w data] by simp
    then show ?thesis
      using keeps_other_trans[OF _ Cons.IH[of "w1\<lparr>w_lastIndex := le_index e\<rparr>"]] a Some by (simp split: option.split)
  qed simp
qed simp

lemma dir_get_remove_list: "dir_get (fold dir_remove ps d) p = (if p \<in> set ps then None else dir_get d p)"
  by (induction ps arbitrary: d) auto

lemma keeps_rewrite: "keeps_other w (snd (wal_rewrite mar unm sel base first w))"
proof -
  define w1 where "w1 = (wal_flush w)\<lparr>w_current := None, w_buf := []\<rparr>"
  define w2 where "w2 = w1\<lparr>w_files := fold dir_remove (Glob ''.wal'' (w_files w1)) (w_files w1), w_size := 0, w_lastIndex := base\<rparr>"
  have k1: "keeps_other w w1" using keeps_flush[of w] by (simp add: w1_def keeps_other_def wal_named_def)
  have "keeps_other w1 w2" by (auto simp: w2_def keeps_other_def wal_named_def same_other_def dir_get_remove_list set_Glob)
  then have k2: "keeps_other w w2" by (rule keeps_other_trans[OF k1])
  obtain err w3 where c: "createSegment first w2 = (err, w3)" by fastforce
  then have k3: "keeps_other w w3" using keeps_other_trans[OF k2] keeps_createSegment[of w2 first] by simp
  have k4: "keeps_other w (snd (rewrite_loop mar es w3))" for es by (rule keeps_other_trans[OF k3 keeps_rewrite_loop])
  have k5: "keeps_other w (wal_flush (snd (rewrite_loop mar es w3)))" for es by (rule keeps_other_trans[OF k4 keeps_flush])
  show ?thesis
    using k1 k3 k4 k5 c
    by (simp add: wal_rewrite_def Let_def w1_def[symmetric] w2_def[symmetric] split: sum.split option.split prod.split)
      (metis snd_conv)
qed

lemma keeps_Open:
  assumes "wal_Open unm d = Inr w" shows "wal_named w \<and> same_other d (w_files w)"
proof (cases "Glob ''.wal'' d = []")
  case True
  let ?w = "\<lparr>w_files = d, w_current = None, w_buf = [], w_size = 0, w_lastIndex = 0\<rparr>"
  have "wal_named ?w" by (simp add: wal_named_def)
  then show ?thesis
    using keeps_createSegment[of ?w 1] assms True
    by (auto simp: wal_Open_def keeps_other_def Let_def split: prod.splits option.splits)
next
  case False
  then have "has_suffix ''.wal'' (last (Glob ''.wal'' d))" using last_in_set[OF False] by (simp add: set_Glob)
  then show ?thesis
    using assms False by (auto simp: wal_Open_def wal_named_def same_other_def Let_def split: sum.splits)
qed

section \<open>The contract of the hard state\<close>

definition hard_holds :: "walState \<Rightarrow> nat \<times> string \<Rightarrow> bool" where
  "hard_holds ws h \<longleftrightarrow> wal_named (ws_w ws)
     \<and> (case dir_get (ws_files ws) ''hardstate.json'' of
          None \<Rightarrow> h = (0, '''')
        | Some data \<Rightarrow> data = hardState_Marshal \<lparr>hs_Term = fst h, hs_VotedFor = snd h\<rparr>)"

lemma other_names [simp]:
  "\<not> has_suffix ''.wal'' ''hardstate.json''" "\<not> has_suffix ''.wal'' ''hardstate.tmp''"
  "\<not> has_suffix ''.wal'' ''snapshot.bin''" "\<not> has_suffix ''.wal'' ''snapshot.tmp''"
  by (simp_all add: has_suffix_def)

lemma set_files_simps [simp]:
  "ws_files (set_files d ws) = d" "w_current (ws_w (set_files d ws)) = w_current (ws_w ws)"
  "wal_named (ws_w (set_files d ws)) = wal_named (ws_w ws)"
  by (simp_all add: set_files_def wal_named_def)


lemma Glob_other:
  "\<not> has_suffix suf p \<Longrightarrow> Glob suf (dir_put p c d) = Glob suf d"
  "\<not> has_suffix suf p \<Longrightarrow> Glob suf (dir_remove p d) = Glob suf d"
proof -
  show "\<not> has_suffix suf p \<Longrightarrow> Glob suf (dir_put p c d) = Glob suf d"
    by (induction p c d rule: dir_put.induct) (auto simp: Glob_def)
  show "\<not> has_suffix suf p \<Longrightarrow> Glob suf (dir_remove p d) = Glob suf d"
    by (induction d) (auto simp: Glob_def dir_remove_def)
qed

text \<open>
  Writing a file over a temporary one: either the write is reported and the file is the new one,
  or it is not and the file is the old one; no other file but the temporary one changes.
\<close>

definition save_file :: "disk_io \<Rightarrow> string \<Rightarrow> string \<Rightarrow> bytes \<Rightarrow> dir \<Rightarrow> bool \<times> dir" where
  "save_file io tmp final data d =
     (case WriteFile io tmp data d of (ok, d1) \<Rightarrow> if ok then Rename io tmp final d1 else (False, d1))"

lemma save_file:
  assumes "save_file io tmp final data d = (ok, d')" "tmp \<noteq> final"
  shows "dir_get d' final = (if ok then Some data else dir_get d final)"
    and "p \<noteq> tmp \<Longrightarrow> p \<noteq> final \<Longrightarrow> dir_get d' p = dir_get d p"
    and "io tmp = None \<Longrightarrow> io final = None \<Longrightarrow> ok"
    and "dir_ok d \<Longrightarrow> dir_ok d'"
    and "\<not> has_suffix suf tmp \<Longrightarrow> \<not> has_suffix suf final \<Longrightarrow> Glob suf d' = Glob suf d"
  using assms by (auto simp: save_file_def WriteFile_def Rename_def Glob_other split: option.splits if_splits)

lemma SaveHardState_file:
  "walState_SaveHardState io t v ws =
     (case save_file io ''hardstate.tmp'' ''hardstate.json'' (hardState_Marshal \<lparr>hs_Term = t, hs_VotedFor = v\<rparr>) (ws_files ws) of
        (ok, d) \<Rightarrow> (ok, set_files d ws))"
  by (simp add: walState_SaveHardState_def save_file_def split: prod.split bool.split)

lemma SaveSnapshot_file:
  "walState_SaveSnapshot io data i t ws =
     (case save_file io ''snapshot.tmp'' ''snapshot.bin''
         (PutUint64 (word_of_nat i) @ PutUint64 (word_of_nat t) @ data) (ws_files ws) of
        (ok, d) \<Rightarrow> (ok, set_files d ws))"
  by (simp add: walState_SaveSnapshot_def save_file_def split: prod.split bool.split)

lemma wal_writers:
  "walState_AppendEntries mar es ws = (fst (wal_AppendBatch mar es (ws_w ws)) = None, ws\<lparr>ws_w := snd (wal_AppendBatch mar es (ws_w ws))\<rparr>)"
  "walState_TruncateSuffix mar unm i ws =
     (fst (wal_TruncateSuffix mar unm i (ws_w ws)) = None, ws\<lparr>ws_w := snd (wal_TruncateSuffix mar unm i (ws_w ws))\<rparr>)"
  "walState_TruncatePrefix mar unm i ws =
     (fst (wal_TruncatePrefix mar unm i (ws_w ws)) = None, ws\<lparr>ws_w := snd (wal_TruncatePrefix mar unm i (ws_w ws))\<rparr>)"
  by (simp_all add: walState_AppendEntries_def walState_TruncateSuffix_def walState_TruncatePrefix_def split_beta)

lemma keeps_truncate:
  "keeps_other w (snd (wal_TruncateSuffix mar unm i w))" "keeps_other w (snd (wal_TruncatePrefix mar unm i w))"
  by (simp_all add: wal_TruncateSuffix_def wal_TruncatePrefix_def keeps_rewrite)

lemma hard_holds_keeps:
  "hard_holds ws h \<Longrightarrow> keeps_other (ws_w ws) w \<Longrightarrow> hard_holds (ws\<lparr>ws_w := w\<rparr>) h"
  by (simp add: hard_holds_def keeps_other_def same_other_def)

lemma hard_holds_load:
  assumes "hard_holds ws h" "valid_utf8 (snd h)"
  shows "walState_LoadHardState ws = (if fst h < 2 ^ 64 then Some h else None)"
  using assms by (auto simp: hard_holds_def walState_LoadHardState_def hardState_roundtrip split: option.splits)

interpretation wh: hard_storage "walState_ops (\<lambda>_. None) mar unm" hard_holds valid_utf8 "reopen_walState unm" for mar unm
proof (unfold_locales, goal_cases)
  case (1 s h t v)
  obtain ok d where d: "save_file (\<lambda>_. None) ''hardstate.tmp'' ''hardstate.json''
      (hardState_Marshal \<lparr>hs_Term = t, hs_VotedFor = v\<rparr>) (ws_files s) = (ok, d)" by fastforce
  then show ?case using 1 save_file(1,3)[OF d] by (simp add: walState_ops_def SaveHardState_file hard_holds_def)
next
  case (2 s h)
  then show ?case using hard_holds_load by (simp add: walState_ops_def)
next
  case (5 s h data i t)
  obtain ok d where d: "save_file (\<lambda>_. None) ''snapshot.tmp'' ''snapshot.bin''
      (PutUint64 (word_of_nat i) @ PutUint64 (word_of_nat t) @ data) (ws_files s) = (ok, d)" by fastforce
  then show ?case using 5 save_file(2)[OF d, of "''hardstate.json''"] by (simp add: walState_ops_def SaveSnapshot_file hard_holds_def)
next
  case (7 s h s')
  then show ?case
    using keeps_Open[of unm "ws_files s"]
    by (auto simp: hard_holds_def same_other_def reopen_walState_def newWALState_def split: sum.splits)
qed (simp_all add: walState_ops_def wal_writers hard_holds_keeps keeps_AppendBatch keeps_truncate valid_utf8.simps)

section \<open>Refinement of the in-memory state\<close>

text \<open>
  The operations of a storage as data, to run the same sequence on two storages; \<open>OpCrash\<close> drops
  what is only in memory and opens the storage again.
\<close>

datatype storage_op =
    OpSaveHardState nat string
  | OpAppendEntries "LogEntry list"
  | OpCutSuffix nat
  | OpSaveSnapshot bytes nat nat
  | OpCutPrefix nat
  | OpCrash

definition run_storage_op :: "'s PersistentState \<Rightarrow> ('s \<Rightarrow> 's option) \<Rightarrow> storage_op \<Rightarrow> 's \<Rightarrow> 's option" where
  "run_storage_op ps reopen op s =
     (let done = (\<lambda>(ok, s1). if ok then Some s1 else None)
      in case op of
           OpSaveHardState t v \<Rightarrow> done (ps_SaveHardState ps t v s)
         | OpAppendEntries es \<Rightarrow> done (ps_AppendEntries ps es s)
         | OpCutSuffix i \<Rightarrow> done (ps_TruncateSuffix ps i s)
         | OpSaveSnapshot data i t \<Rightarrow> done (ps_SaveSnapshot ps data i t s)
         | OpCutPrefix i \<Rightarrow> done (ps_TruncatePrefix ps i s)
         | OpCrash \<Rightarrow> reopen s)"

fun run_storage_ops :: "'s PersistentState \<Rightarrow> ('s \<Rightarrow> 's option) \<Rightarrow> storage_op list \<Rightarrow> 's \<Rightarrow> 's option" where
  "run_storage_ops ps reopen [] s = Some s"
| "run_storage_ops ps reopen (op # ops) s =
     (case run_storage_op ps reopen op s of None \<Rightarrow> None | Some s1 \<Rightarrow> run_storage_ops ps reopen ops s1)"

text \<open>
  What a sequence must respect: terms, indices and names the files can hold, and appended entries
  that continue the log. \<open>hi\<close> is the bound later indices exceed.
\<close>

fun next_bound :: "storage_op \<Rightarrow> nat \<Rightarrow> nat" where
  "next_bound (OpAppendEntries es) hi = last (hi # map le_index es)"
| "next_bound (OpCutSuffix i) hi = min hi i"
| "next_bound (OpCutPrefix i) hi = max hi i"
| "next_bound _ hi = hi"

fun storage_op_ok :: "marshal \<Rightarrow> unmarshal \<Rightarrow> nat \<Rightarrow> storage_op \<Rightarrow> bool" where
  "storage_op_ok mar unm hi (OpSaveHardState t v) \<longleftrightarrow> t < 2 ^ 64 \<and> valid_utf8 v"
| "storage_op_ok mar unm hi (OpAppendEntries es) \<longleftrightarrow> list_all (entry_codes mar unm) es
     \<and> sorted_wrt (<) (hi # map le_index es) \<and> list_all (\<lambda>e. le_index e < 10 ^ 16) es"
| "storage_op_ok mar unm hi (OpSaveSnapshot data i t) \<longleftrightarrow> i < 2 ^ 64 \<and> t < 2 ^ 64"
| "storage_op_ok mar unm hi (OpCutPrefix i) \<longleftrightarrow> i + 1 < 10 ^ 16"
| "storage_op_ok mar unm hi _ \<longleftrightarrow> True"

fun storage_ops_ok :: "marshal \<Rightarrow> unmarshal \<Rightarrow> nat \<Rightarrow> storage_op list \<Rightarrow> bool" where
  "storage_ops_ok mar unm hi [] \<longleftrightarrow> True"
| "storage_ops_ok mar unm hi (op # ops) \<longleftrightarrow> storage_op_ok mar unm hi op \<and> storage_ops_ok mar unm (next_bound op hi) ops"

definition snapshot_holds :: "walState \<Rightarrow> memState \<Rightarrow> bool" where
  "snapshot_holds ws m \<longleftrightarrow>
     (case dir_get (ws_files ws) ''snapshot.bin'' of
        None \<Rightarrow> ms_snapshot m = [] \<and> ms_lastIncludedIndex m = 0 \<and> ms_lastIncludedTerm m = 0
      | Some f \<Rightarrow> f = PutUint64 (word_of_nat (ms_lastIncludedIndex m)) @ PutUint64 (word_of_nat (ms_lastIncludedTerm m)) @ ms_snapshot m
          \<and> ms_lastIncludedIndex m < 2 ^ 64 \<and> ms_lastIncludedTerm m < 2 ^ 64)"

definition ws_rel :: "marshal \<Rightarrow> unmarshal \<Rightarrow> nat \<Rightarrow> walState \<Rightarrow> memState \<Rightarrow> bool" where
  "ws_rel mar unm hi ws m \<longleftrightarrow> wal_rel mar unm (ms_entries m, hi) (ws_w ws)
     \<and> hard_holds ws (ms_term m, ms_voted m) \<and> ms_term m < 2 ^ 64 \<and> valid_utf8 (ms_voted m)
     \<and> snapshot_holds ws m"

lemma ws_rel_loads:
  assumes "ws_rel mar unm hi ws m"
  shows "walState_LoadHardState ws = memState_LoadHardState m" "walState_LoadEntries unm ws = memState_LoadEntries m"
    "walState_LoadSnapshot ws = memState_LoadSnapshot m" "walState_LoadSnapshotMeta ws = memState_LoadSnapshotMeta m"
proof -
  show "walState_LoadHardState ws = memState_LoadHardState m"
    using assms hard_holds_load[of ws "(ms_term m, ms_voted m)"] by (simp add: ws_rel_def memState_LoadHardState_def)
  show "walState_LoadEntries unm ws = memState_LoadEntries m"
    using assms read_segments_has[of mar unm "ms_entries m" hi "ws_w ws"]
    by (simp add: ws_rel_def wal_rel_def walState_LoadEntries_def wal_ReadAll_def memState_LoadEntries_def)
  have s: "snapshot_holds ws m" using assms by (simp add: ws_rel_def)
  then show "walState_LoadSnapshot ws = memState_LoadSnapshot m"
    by (auto simp: snapshot_holds_def walState_LoadSnapshot_def memState_LoadSnapshot_def unat_of_nat split: option.splits)
  have "ReadFull 16 (PutUint64 a @ PutUint64 b @ rest) = ReadOk (PutUint64 a @ PutUint64 b) rest" for a b rest
    using ReadFull_append[of 16 "PutUint64 a @ PutUint64 b" rest] by simp
  then show "walState_LoadSnapshotMeta ws = memState_LoadSnapshotMeta m"
    using s by (auto simp: snapshot_holds_def walState_LoadSnapshotMeta_def memState_LoadSnapshotMeta_def unat_of_nat
        split: option.splits)
qed

lemma wal_rel_files:
  assumes "wal_rel mar unm st w" "dir_ok (w_files w) \<Longrightarrow> dir_ok d" "Glob ''.wal'' d = Glob ''.wal'' (w_files w)"
    "\<And>p. has_suffix ''.wal'' p \<Longrightarrow> dir_get d p = dir_get (w_files w) p"
  shows "wal_rel mar unm st (w\<lparr>w_files := d\<rparr>)"
proof -
  have "wal_segments mar unm pre k es hi (w\<lparr>w_files := d\<rparr>)" if "wal_segments mar unm pre k es hi w" for pre k es hi
    using that assms(2-4) by (simp add: wal_segments_def)
  then show ?thesis using assms(1) unfolding wal_rel_def wal_has_def by fastforce
qed

lemma ws_rel_wal:
  assumes r: "ws_rel mar unm hi ws m" and k: "keeps_other (ws_w ws) w" and w: "wal_rel mar unm (es, hi') w"
  shows "ws_rel mar unm hi' (ws\<lparr>ws_w := w\<rparr>) (m\<lparr>ms_entries := es\<rparr>)"
proof -
  have "wal_named (ws_w ws)" using r by (simp add: ws_rel_def hard_holds_def)
  then have "dir_get (w_files w) ''snapshot.bin'' = dir_get (ws_files ws) ''snapshot.bin''"
    using k by (simp add: keeps_other_def same_other_def)
  then show ?thesis
    using r w hard_holds_keeps[OF _ k] by (auto simp: ws_rel_def snapshot_holds_def split: option.splits)
qed

lemma wal_rel_save:
  assumes "wal_rel mar unm st (ws_w ws)" "save_file io tmp final data (ws_files ws) = (ok, d)" "tmp \<noteq> final"
    "\<not> has_suffix ''.wal'' tmp" "\<not> has_suffix ''.wal'' final"
  shows "wal_rel mar unm st (ws_w (set_files d ws))"
  using wal_rel_files[OF assms(1), of d] save_file[OF assms(2,3)] assms(4,5) by (fastforce simp: set_files_def)

lemma ws_rel_step:
  assumes r: "ws_rel mar unm hi ws m" and ok: "storage_op_ok mar unm hi op"
  shows "\<exists>ws1 m1. run_storage_op (walState_ops (\<lambda>_. None) mar unm) (reopen_walState unm) op ws = Some ws1
    \<and> run_storage_op memState_ops Some op m = Some m1 \<and> ws_rel mar unm (next_bound op hi) ws1 m1"
proof -
  have w: "wal_rel mar unm (ms_entries m, hi) (ws_w ws)" using r by (simp add: ws_rel_def)
  note defs = run_storage_op_def walState_ops_def memState_defs wal_writers Let_def
  show ?thesis
  proof (cases op)
    case (OpSaveHardState t v)
    obtain b d where d: "save_file (\<lambda>_. None) ''hardstate.tmp'' ''hardstate.json''
        (hardState_Marshal \<lparr>hs_Term = t, hs_VotedFor = v\<rparr>) (ws_files ws) = (b, d)" by fastforce
    then show ?thesis
      using save_file(1,3)[OF d] save_file(2)[OF d, of "''snapshot.bin''"] wal_rel_save[OF w d] r ok OpSaveHardState
      by (auto simp: defs SaveHardState_file ws_rel_def hard_holds_def snapshot_holds_def split: option.splits)
  next
    case (OpSaveSnapshot data i t)
    obtain b d where d: "save_file (\<lambda>_. None) ''snapshot.tmp'' ''snapshot.bin''
        (PutUint64 (word_of_nat i) @ PutUint64 (word_of_nat t) @ data) (ws_files ws) = (b, d)" by fastforce
    then show ?thesis
      using save_file(1,3)[OF d] save_file(2)[OF d, of "''hardstate.json''"] wal_rel_save[OF w d] r ok OpSaveSnapshot
      by (auto simp: defs SaveSnapshot_file ws_rel_def hard_holds_def snapshot_holds_def split: option.splits)
  next
    case (OpAppendEntries es)
    then show ?thesis
      using run_wal_op_rel[OF w, of "OpAppend es"] ws_rel_wal[OF r keeps_AppendBatch[of "ws_w ws" mar es]] ok
      by (auto simp: defs run_wal_op_def split_beta split: if_splits simp del: last.simps)
  next
    case (OpCutSuffix i)
    then show ?thesis
      using run_wal_op_rel[OF w, of "OpTruncateSuffix i"] ws_rel_wal[OF r keeps_truncate(1)[of "ws_w ws" mar unm i]]
      by (auto simp: defs run_wal_op_def split_beta split: if_splits)
  next
    case (OpCutPrefix i)
    then show ?thesis
      using run_wal_op_rel[OF w, of "OpTruncatePrefix i"] ws_rel_wal[OF r keeps_truncate(2)[of "ws_w ws" mar unm i]] ok
      by (auto simp: defs run_wal_op_def split_beta split: if_splits)
  next
    case OpCrash
    obtain w1 where w1: "wal_Open unm (ws_files ws) = Inr w1" "wal_rel mar unm (ms_entries m, hi) w1"
      using wal_Open_has[of mar unm "ms_entries m" hi "ws_w ws"] w by (auto simp: wal_rel_def)
    then have "keeps_other (ws_w ws) w1" using keeps_Open[OF w1(1)] by (simp add: keeps_other_def)
    from ws_rel_wal[OF r this w1(2)] show ?thesis
      using w1(1) OpCrash by (cases ws) (simp add: run_storage_op_def reopen_walState_def newWALState_def)
  qed
qed

lemma ws_rel_steps:
  "ws_rel mar unm hi ws m \<Longrightarrow> storage_ops_ok mar unm hi ops \<Longrightarrow>
   \<exists>ws1 m1 hi1. run_storage_ops (walState_ops (\<lambda>_. None) mar unm) (reopen_walState unm) ops ws = Some ws1
    \<and> run_storage_ops memState_ops Some ops m = Some m1 \<and> ws_rel mar unm hi1 ws1 m1"
proof (induction ops arbitrary: hi ws m)
  case (Cons op ops)
  then obtain ws1 m1 where "run_storage_op (walState_ops (\<lambda>_. None) mar unm) (reopen_walState unm) op ws = Some ws1"
    "run_storage_op memState_ops Some op m = Some m1" "ws_rel mar unm (next_bound op hi) ws1 m1"
    using ws_rel_step[of mar unm hi ws m op] by auto
  then show ?case using Cons by simp
qed auto

lemma newWALState_fresh: "\<exists>ws. newWALState unm [] = Inr ws \<and> ws_rel mar unm 0 ws newMemState"
proof -
  obtain w where w: "wal_Open unm [] = Inr w" "wal_rel mar unm ([], 0) w" using wal_Open_fresh by blast
  have "hard_holds \<lparr>ws_w = w\<rparr> (0, '''')" "dir_get (w_files w) ''snapshot.bin'' = None"
    using keeps_Open[OF w(1)] by (simp_all add: hard_holds_def same_other_def)
  then show ?thesis
    using w by (simp add: newWALState_def ws_rel_def newMemState_def snapshot_holds_def valid_utf8.simps)
qed

section \<open>A cluster on disk\<close>

text \<open>The store of a node that starts in an empty directory.\<close>

definition fresh_walState :: "unmarshal \<Rightarrow> walState" where
  "fresh_walState unm = (case newWALState unm [] of Inl _ \<Rightarrow> \<lparr>ws_w = \<lparr>w_files = [], w_current = None, w_buf = [],
      w_size = 0, w_lastIndex = 0\<rparr>\<rparr> | Inr ws \<Rightarrow> ws)"

lemma fresh_walState: "newWALState unm [] = Inr (fresh_walState unm)" "ws_rel mar unm 0 (fresh_walState unm) newMemState"
  using newWALState_fresh[of unm mar] by (auto simp: fresh_walState_def)

interpretation whf: fresh_storage "walState_ops (\<lambda>_. None) mar unm" hard_holds valid_utf8 "reopen_walState unm" 0
  "fresh_walState unm" for mar unm
proof (unfold_locales, goal_cases)
  case 1
  show ?case using fresh_walState(2)[of mar unm] by (simp add: ws_rel_def newMemState_def)
qed (use ws_rel_loads[OF fresh_walState(2)[of mar unm]] in
    \<open>simp_all add: walState_ops_def memState_defs newMemState_def\<close>)

text \<open>A run on any storage in which the first of three nodes wins an election.\<close>

context fresh_storage
begin

lemma three_node_leader:
  "\<exists>c. cluster_run faults ps s0 [''a'', ''b'', ''c''] c \<and> role (nd c ''a'') = RoleLeader \<and> currentTerm (nd c ''a'') = 1"
proof -
  let ?ids = "[''a'', ''b'', ''c'']"
  define c0 where "c0 = cluster_init ps s0 ?ids"
  have n0: "nd c0 i = (NewNode i (peers_of ?ids i) s0)\<lparr>electionTimer := True\<rparr>" for i
    by (simp add: c0_def cluster_init_def Start_def NewNode_def fresh_meta fresh_entries fresh_load resetElectionTimer_def)
  define c1 where "c1 = put_node ''a'' (run_election_tick ps (nd c0 ''a'')) c0"
  define req where "req = \<lparr>rv_Term = 1, rv_CandidateId = ''a'', rv_LastLogIndex = 0, rv_LastLogTerm = 0\<rparr>"
  have a1: "role (nd c1 ''a'') = RoleCandidate" "currentTerm (nd c1 ''a'') = 1" "votes (nd c1 ''a'') 1 = 1"
    "length (Peers (nd c1 ''a'')) = 2" "GoRequestVote ''b'' req \<in> set (goroutines (nd c1 ''a''))"
    by (simp_all add: c1_def n0 put_node_def run_election_tick_def startElection_def NewNode_def peers_of_def store_def
        resetElectionTimer_def quorum_def lastLogIndex_def lastLogTerm_def sentinel_def req_def Let_def)
  define c2 where "c2 = send (RVReq ''b'' req) c1"
  obtain resp n where v: "HandleRequestVote ps req (nd c2 ''b'') = (resp, n)" by fastforce
  have "nd c2 ''b'' = nd c0 ''b''" by (simp add: c2_def c1_def send_def put_node_def)
  then have resp: "resp = \<lparr>rvr_Term = 1, rvr_VoteGranted = True\<rparr>"
    using v n0[of "''b''"]
    by (simp add: HandleRequestVote_def req_def becomeFollower_def store_def resetElectionTimer_def NewNode_def
        candidateLogUpToDate_def lastLogIndex_def lastLogTerm_def sentinel_def Let_def)
  define c3 where "c3 = send (RVResp ''a'' 1 ''b'' resp) (put_node ''b'' n c2)"
  define c4 where "c4 = (put_node ''a'' (vote_reply ps 1 resp (nd c3 ''a'')) c3)\<lparr>counted := insert (''a'', 1, ''b'') (counted c3)\<rparr>"
  have r1: "cluster_run faults ps s0 ?ids c1"
    unfolding c1_def c0_def by (rule run_step[OF run_init election_tick]) simp
  have r2: "cluster_run faults ps s0 ?ids c2"
    unfolding c2_def by (rule run_step[OF r1 send_vote_request[OF _ a1(5)]]) simp
  have r3: "cluster_run faults ps s0 ?ids c3"
    unfolding c3_def using run_step[OF r2 handle_vote_request[OF _ v]] by (simp add: c2_def send_def req_def)
  have r4: "cluster_run faults ps s0 ?ids c4"
    unfolding c4_def
    by (rule run_step[OF r3 handle_vote_reply]) (simp_all add: c3_def c2_def c1_def c0_def send_def put_node_def cluster_init_def)
  have "nd c3 ''a'' = nd c1 ''a''" by (simp add: c3_def c2_def send_def put_node_def)
  then have "role (nd c4 ''a'') = RoleLeader \<and> currentTerm (nd c4 ''a'') = 1"
    using a1(1-4) by (simp add: c4_def put_node_def vote_reply_def resp becomeLeader_def sendHeartbeats_def
        resetHeartbeatTimer_def quorum_def Let_def)
  then show ?thesis using r4 by blast
qed

end

section \<open>Properties\<close>







end
