(* ===== verification/KV_JsonProps.thy ===== *)
theory KV_JsonProps
  imports KV_Json
begin

text \<open>
  The JSON decoder always finishes within the bound \<open>parse_json\<close> gives its recursion, so that a
  refused document is one with a syntax error, and the strings it returns are valid UTF-8.
\<close>

section \<open>The bound on the recursion is enough\<close>

lemma skip_ws_length: "length (skip_ws s) \<le> length s"
  by (simp add: skip_ws_def length_dropWhile_le)

lemma expect_length: "expect c s = Some r \<Longrightarrow> length r < length s"
  using skip_ws_length[of s] by (auto simp: expect_def split: list.splits if_splits)

lemma prepend_SomeD: "prepend u x = Some (s, r) \<Longrightarrow> \<exists>s'. x = Some (s', r)"
  by (auto simp: prepend_def)

lemma digits1_length: "digits1 s = Some (x, r) \<Longrightarrow> length r < length s"
proof -
  assume "digits1 s = Some (x, r)"
  then have "takeWhile is_digit s \<noteq> []" "r = dropWhile is_digit s" by (auto simp: digits1_def split: if_splits)
  moreover have "length s = length (takeWhile is_digit s) + length (dropWhile is_digit s)"
    by (metis length_append takeWhile_dropWhile_id)
  ultimately show ?thesis by simp
qed

lemma int_part_length: "int_part s = Some (x, r) \<Longrightarrow> length r < length s"
  by (auto simp: int_part_def dest: digits1_length split: list.splits if_splits)

lemma frac_part_length: "frac_part s = Some (x, r) \<Longrightarrow> length r \<le> length s"
  by (auto simp: frac_part_def dest!: prepend_SomeD digits1_length split: list.splits if_splits)

lemma exp_part_length: "exp_part s = Some (x, r) \<Longrightarrow> length r \<le> length s"
  by (auto simp: exp_part_def dest!: prepend_SomeD split: list.splits if_splits) (auto dest: digits1_length)

lemma parse_num_length: "parse_num s = Some (x, r) \<Longrightarrow> length r < length s"
  by (auto simp: parse_num_def Let_def dest!: int_part_length frac_part_length exp_part_length
      split: list.splits if_splits option.splits prod.splits)

lemma parse_str_length: "parse_str s = Some (x, r) \<Longrightarrow> length r < length s"
proof (induction s arbitrary: x rule: parse_str.induct)
  case (2 c s)
  have d: "length (drop (n - 1) s) \<le> length s" for n by simp
  show ?case
    using "2.prems" "2.IH"
    by (subst (asm) parse_str.simps)
      (fastforce dest!: prepend_SomeD dest: hex4_length pair_rune_length split: if_splits option.splits list.splits prod.splits)
qed (simp add: parse_str.simps)

lemma literal_length: "literal l v s = Some (x, r) \<Longrightarrow> l \<noteq> [] \<Longrightarrow> length r < length s"
  by (auto simp: literal_def split: if_splits) (metis diff_less length_drop length_greater_0_conv take_eq_Nil)

declare parse_value.simps(2) [simp del] parse_elems.simps(2) [simp del]

lemma parse_length:
  "parse_value n d s = Some (v, r) \<Longrightarrow> length r < length s"
  "parse_elems n d s = Some (vs, r) \<Longrightarrow> length r < length s"
  "parse_members n d s = Some (ms, r) \<Longrightarrow> length r < length s"
proof (induction n d s and n d s and n d s arbitrary: v r and vs r and ms r rule: parse_value_parse_elems_parse_members.induct)
  case (2 n d s)
  obtain c q where c: "skip_ws s = c # q" using "2.prems" by (auto simp: parse_value.simps(2) split: list.splits)
  then have q: "length q < length s" using skip_ws_length[of s] by simp
  show ?case
    using "2.prems" q skip_ws_length[of s] c "2.IH"(1)[OF c] "2.IH"(2)[OF c]
    by (auto simp: parse_value.simps(2) dest!: parse_str_length parse_num_length literal_length expect_length
        split: if_splits option.splits)
next
  case (4 n d s)
  then show ?case by (fastforce simp: parse_elems.simps(2) dest!: expect_length split: option.splits)
next
  case (6 n d s)
  obtain q k r1 r2 x r3 where c: "expect dquote s = Some q" "parse_str q = Some (k, r1)" "expect (CHR '':'') r1 = Some r2"
    "parse_value n d r2 = Some (x, r3)" using "6.prems" by (auto simp: parse_members.simps(2) split: option.splits)
  have l: "length r3 < length s"
    using "6.IH"(1)[OF c(1,2) refl c(3,4)] expect_length[OF c(1)] parse_str_length[OF c(2)] expect_length[OF c(3)] by simp
  show ?case
  proof (cases "expect (CHR '','') r3")
    case None
    then show ?thesis using "6.prems" c l by (auto simp: parse_members.simps(2) dest: expect_length)
  next
    case (Some r4)
    then obtain ms' where "parse_members n d r4 = Some (ms', r)" using "6.prems" c by (auto simp: parse_members.simps(2))
    then show ?thesis using "6.IH"(2)[OF c(1,2) refl c(3,4) refl Some] expect_length[OF Some] l by simp
  qed
qed simp_all

lemma parse_fuel:
  "(2 * length s + 1 \<le> n \<longrightarrow> 2 * length s + 1 \<le> m \<longrightarrow> parse_value n d s = parse_value m d s)
   \<and> (2 * length s + 2 \<le> n \<longrightarrow> 2 * length s + 2 \<le> m \<longrightarrow> parse_elems n d s = parse_elems m d s)
   \<and> (2 * length s + 2 \<le> n \<longrightarrow> 2 * length s + 2 \<le> m \<longrightarrow> parse_members n d s = parse_members m d s)"
proof (induction n arbitrary: m d s)
  case (Suc n)
  show ?case
  proof (cases m)
    case (Suc k)
    have v: "parse_value n e q = parse_value k e q" if "2 * length q + 1 \<le> n" "2 * length q + 1 \<le> k" for e q
      using Suc.IH that by blast
    have es: "parse_elems n e q = parse_elems k e q" if "2 * length q + 2 \<le> n" "2 * length q + 2 \<le> k" for e q
      using Suc.IH that by blast
    have ms: "parse_members n e q = parse_members k e q" if "2 * length q + 2 \<le> n" "2 * length q + 2 \<le> k" for e q
      using Suc.IH that by blast
    have "parse_value (Suc n) d s = parse_value (Suc k) d s" if b: "2 * length s \<le> n" "2 * length s \<le> k"
    proof (cases "skip_ws s")
      case (Cons c q)
      then have "length q < length s" using skip_ws_length[of s] by simp
      then have "parse_elems n e q = parse_elems k e q" "parse_members n e q = parse_members k e q" for e
        using b by (auto intro!: es ms)
      then show ?thesis by (simp add: parse_value.simps(2) Cons split: option.split)
    qed (simp add: parse_value.simps(2))
    moreover have "parse_elems (Suc n) d s = parse_elems (Suc k) d s" if b: "2 * length s + 1 \<le> n" "2 * length s + 1 \<le> k"
    proof (cases "parse_value k d s")
      case (Some p)
      obtain x r where p: "p = (x, r)" by fastforce
      have "parse_elems n d q = parse_elems k d q" if "expect (CHR '','') r = Some q" for q
        using parse_length(1)[OF Some[unfolded p]] expect_length[OF that] b by (intro es) simp_all
      then show ?thesis using Some by (simp add: parse_elems.simps(2) v[OF b] p split: option.split)
    qed (simp add: parse_elems.simps(2) v[OF b])
    moreover have "parse_members (Suc n) d s = parse_members (Suc k) d s" if b: "2 * length s + 1 \<le> n" "2 * length s + 1 \<le> k"
    proof (cases "\<exists>r key r1 r2. expect dquote s = Some r \<and> parse_str r = Some (key, r1) \<and> expect (CHR '':'') r1 = Some r2")
      case True
      then obtain r key r1 r2 where r: "expect dquote s = Some r" "parse_str r = Some (key, r1)" "expect (CHR '':'') r1 = Some r2"
        by blast
      have l: "length r2 < length s"
        using expect_length[OF r(1)] parse_str_length[OF r(2)] expect_length[OF r(3)] by simp
      then have pv: "parse_value n d r2 = parse_value k d r2" using b by (intro v) simp_all
      show ?thesis
      proof (cases "parse_value k d r2")
        case (Some p)
        obtain x r3 where p: "p = (x, r3)" by fastforce
        have "parse_members n d q = parse_members k d q" if "expect (CHR '','') r3 = Some q" for q
          using parse_length(1)[OF Some[unfolded p]] expect_length[OF that] l b by (intro ms) simp_all
        then show ?thesis using Some by (simp add: parse_members.simps(2) r pv p split: option.split)
      qed (simp add: parse_members.simps(2) r pv)
    next
      case False
      then show ?thesis by (auto simp: parse_members.simps(2) split: option.split)
    qed
    ultimately show ?thesis using Suc by simp
  qed simp
qed simp

text \<open>Strings the decoder returns are valid UTF-8.\<close>

lemma valid_utf8_step:
  assumes "utf8_size s = Some n" "valid_utf8 rest" shows "valid_utf8 (take n s @ rest)"
proof -
  have n: "0 < n" "n \<le> length s" using utf8_size_bounds[OF assms(1)] by auto
  then have "drop n (take n s @ rest) = rest" by simp
  then show ?thesis
    using utf8_size_take[OF assms(1), of rest] assms(2) by (subst valid_utf8.simps) simp
qed

lemma code_char_of: "n < 256 \<Longrightarrow> code (char_of n) = n" for n :: nat
  by simp

lemma encode_rune_size: "utf8_size (encode_rune u) = Some (length (encode_rune u))"
proof -
  have m: "u mod 64 < 64" "u div 64 mod 64 < 64" "u div 4096 mod 64 < 64" by simp_all
  consider "u < 0x80" | "0x80 \<le> u" "u < 0x800" | "0x800 \<le> u" "u > 0x10FFFF \<or> 0xD800 \<le> u \<and> u < 0xE000"
    | "0x800 \<le> u" "u < 0xD800 \<or> 0xE000 \<le> u" "u < 0x10000" | "0x10000 \<le> u" "u \<le> 0x10FFFF" by linarith
  then show ?thesis
  proof cases
    case 1
    then show ?thesis by (simp add: encode_rune_def utf8_size_def)
  next
    case 2
    then have "2 \<le> u div 64" "u div 64 < 32" by auto
    then show ?thesis
      using 2 m by (simp add: encode_rune_def utf8_size_def cont_byte_def code_char_of Let_def del: of_char_of)
  next
    case 3
    then show ?thesis
      by (auto simp: encode_rune_def replacement_def utf8_size_def rune_range_def cont_byte_def Let_def)
  next
    case 4
    then have b: "u div 4096 < 16" by simp
    have d: "u div 64 = 64 * (u div 4096) + u div 64 mod 64"
      using div_mult2_eq[of u 64 64] mult_div_mod_eq[of 64 "u div 64"] by simp
    have lo: "u div 4096 = 0 \<Longrightarrow> 32 \<le> u div 64 mod 64" using 4(1) d by simp
    have hi: "u div 4096 = 13 \<Longrightarrow> u div 64 mod 64 < 32" using 4(2) d by (auto simp: less_mult_imp_div_less)
    have e: "encode_rune u = [char_of (0xE0 + u div 4096), char_of (0x80 + u div 64 mod 64), char_of (0x80 + u mod 64)]"
      using 4 by (auto simp: encode_rune_def)
    show ?thesis
      unfolding e using b m lo hi
      by (simp add: utf8_size_def rune_range_def cont_byte_def code_char_of Let_def del: of_char_of)
        (intro conjI impI; use m d hi in linarith)
  next
    case 5
    then have b: "u div 262144 < 5" by simp
    have d: "u div 4096 = 64 * (u div 262144) + u div 4096 mod 64"
      using div_mult2_eq[of u 4096 64] mult_div_mod_eq[of 64 "u div 4096"] by simp
    have lo: "u div 262144 = 0 \<Longrightarrow> 16 \<le> u div 4096 mod 64" using 5(1) d by simp
    have hi: "u div 262144 = 4 \<Longrightarrow> u div 4096 mod 64 < 16" using 5(2) d by simp
    show ?thesis
      using 5 b m lo hi
      by (simp add: encode_rune_def utf8_size_def rune_range_def cont_byte_def code_char_of Let_def del: of_char_of)
        (intro conjI impI; use m d hi in linarith)
  qed
qed

lemma encode_rune_utf8: "valid_utf8 rest \<Longrightarrow> valid_utf8 (encode_rune u @ rest)"
  using valid_utf8_step[OF encode_rune_size] by simp

lemma unescape_char_ascii: "unescape_char e = Some x \<Longrightarrow> code x < 0x80"
  by (auto simp: unescape_char_def dquote_def bslash_def split: if_splits)


lemma replacement_rune: "encode_rune 0xFFFD = replacement"
  by (simp add: encode_rune_def replacement_def) (simp add: code_eqI)

lemma parse_str_utf8: "parse_str s = Some (x, r) \<Longrightarrow> valid_utf8 x"
proof (induction s arbitrary: x rule: parse_str.induct)
  case (2 c s)
  have one: "valid_utf8 (y # z)" if "code y < 0x80" "valid_utf8 z" for y z
    using valid_utf8_step[OF utf8_size_ascii[OF that(1), of "[]"] that(2)] by simp
  consider "c = dquote" | "c \<noteq> dquote" "c = bslash" | "c \<noteq> dquote" "c \<noteq> bslash" "\<not> code c < 0x20" using "2.prems"
    by (auto simp: parse_str.simps(2)[of c s] split: if_splits)
  then show ?case
  proof cases
    case 1
    then have "x = []" using "2.prems" parse_str.simps(2)[of c s] by simp
    then show ?thesis by (simp add: valid_utf8.simps)
  next
    case 2
    then obtain e r1 where e: "s = e # r1" using "2.prems" by (auto simp: parse_str.simps(2)[of bslash s] split: list.splits)
    show ?thesis
    proof (cases "e = CHR ''u''")
      case True
      then obtain v r2 u r3 z where v: "hex4 r1 = Some (v, r2)" "pair_rune v r2 = (u, r3)" "parse_str r3 = Some (z, r)"
        "x = encode_rune u @ z"
        using 2 e "2.prems" by (auto simp: parse_str.simps(2)[of bslash "e' # q" for e' q] prepend_def split: option.splits prod.splits)
      then show ?thesis using "2.IH"(1)[OF 2 e True v(1) refl v(2)[symmetric] v(3)] encode_rune_utf8 by simp
    next
      case False
      then obtain y z where y: "unescape_char e = Some y" "parse_str r1 = Some (z, r)" "x = y # z"
        using 2 e "2.prems" by (auto simp: parse_str.simps(2)[of bslash "e' # q" for e' q] prepend_def split: option.splits)
      then show ?thesis using "2.IH"(2)[OF 2 e False y(1,2)] one unescape_char_ascii by simp
    qed
  next
    case 3
    show ?thesis
    proof (cases "utf8_size (c # s)")
      case None
      then obtain z where z: "parse_str s = Some (z, r)" "x = encode_rune 0xFFFD @ z"
        using 3 "2.prems" by (auto simp: parse_str.simps(2)[of c s] prepend_def replacement_rune)
      then show ?thesis using "2.IH"(3)[OF 3 None z(1)] encode_rune_utf8 by simp
    next
      case (Some n)
      then obtain z where z: "parse_str (drop (n - 1) s) = Some (z, r)" "x = take n (c # s) @ z"
        using 3 "2.prems" by (auto simp: parse_str.simps(2)[of c s] prepend_def)
      then show ?thesis using "2.IH"(4)[OF 3 Some z(1)] valid_utf8_step[OF Some] by simp
    qed
  qed
qed (simp add: parse_str.simps)

fun utf8_json :: "json \<Rightarrow> bool" where
  "utf8_json (JStr s) \<longleftrightarrow> valid_utf8 s"
| "utf8_json (JArr vs) \<longleftrightarrow> (\<forall>v \<in> set vs. utf8_json v)"
| "utf8_json (JObj ms) \<longleftrightarrow> (\<forall>m \<in> set ms. valid_utf8 (fst m) \<and> utf8_json (snd m))"
| "utf8_json _ \<longleftrightarrow> True"

lemma parse_utf8:
  "parse_value n d s = Some (v, r) \<Longrightarrow> utf8_json v"
  "parse_elems n d s = Some (vs, r) \<Longrightarrow> \<forall>v \<in> set vs. utf8_json v"
  "parse_members n d s = Some (ms, r) \<Longrightarrow> \<forall>m \<in> set ms. valid_utf8 (fst m) \<and> utf8_json (snd m)"
proof (induction n d s and n d s and n d s arbitrary: v r and vs r and ms r rule: parse_value_parse_elems_parse_members.induct)
  case (2 n d s)
  obtain c q where c: "skip_ws s = c # q" using "2.prems" by (auto simp: parse_value.simps(2) split: list.splits)
  show ?case
    using "2.prems" c "2.IH"(1)[OF c] "2.IH"(2)[OF c]
    by (auto simp: parse_value.simps(2) literal_def dest!: parse_str_utf8 split: if_splits option.splits)
next
  case (4 n d s)
  then show ?case by (fastforce simp: parse_elems.simps(2) split: option.splits)
next
  case (6 n d s)
  obtain q k r1 r2 x r3 where c: "expect dquote s = Some q" "parse_str q = Some (k, r1)" "expect (CHR '':'') r1 = Some r2"
    "parse_value n d r2 = Some (x, r3)" using "6.prems" by (auto simp: parse_members.simps(2) split: option.splits)
  have x: "valid_utf8 k \<and> utf8_json x" using "6.IH"(1)[OF c(1,2) refl c(3,4)] parse_str_utf8[OF c(2)] by simp
  show ?case
  proof (cases "expect (CHR '','') r3")
    case None
    then show ?thesis using "6.prems" c x by (auto simp: parse_members.simps(2))
  next
    case (Some r4)
    then obtain ms' where "parse_members n d r4 = Some (ms', r)" "ms = (k, x) # ms'"
      using "6.prems" c by (auto simp: parse_members.simps(2))
    then show ?thesis using "6.IH"(2)[OF c(1,2) refl c(3,4) refl Some] x by simp
  qed
qed simp_all

lemma parse_json_utf8: "parse_json data = Some v \<Longrightarrow> utf8_json v"
  by (auto simp: parse_json_def Let_def dest: parse_utf8(1) split: option.splits if_splits)

end
