(* ===== verification/KV_StateMachine.thy ===== *)
theory KV_StateMachine
  imports KV_Snapshot KV_RaftLog
begin

text \<open>
  The replicated state machine of \<open>server/statemachine.go\<close> and the change broadcaster of
  \<open>server/watch.go\<close>. The JSON coding of commands is an argument (\<open>enc\<close>, \<open>dec\<close>) of the operations
  that use it; no theorem here assumes anything of it, so they hold for every coding. The text of
  an error sent to a client is abstracted to the constructor that names its cause. A channel a
  client waits on is a number, and the results sent on channels are collected in a list.
\<close>

section \<open>Change broadcaster\<close>

datatype OpType = OP_PUT | OP_DELETE

record ChangeEvent =
  ce_Index :: nat
  ce_Term :: nat
  ce_Op :: OpType
  ce_Key :: string
  ce_Value :: bytes

definition watchSubscriberBuffer :: nat where
  "watchSubscriberBuffer = 256"

text \<open>A subscriber: its identity, its key prefix and the events its channel holds.\<close>

record watchSubscriber =
  ws_id :: nat
  ws_keyPrefix :: string
  ws_ch :: "ChangeEvent list"

record changeBroadcaster =
  cb_subs :: "watchSubscriber list"
  cb_closed :: "watchSubscriber list"
  cb_next :: nat

definition newChangeBroadcaster :: changeBroadcaster where
  "newChangeBroadcaster = \<lparr>cb_subs = [], cb_closed = [], cb_next = 0\<rparr>"

definition subscribe :: "string \<Rightarrow> changeBroadcaster \<Rightarrow> nat \<times> changeBroadcaster" where
  "subscribe keyPrefix b =
     (cb_next b, b\<lparr>cb_subs := \<lparr>ws_id = cb_next b, ws_keyPrefix = keyPrefix, ws_ch = []\<rparr> # cb_subs b,
                   cb_next := cb_next b + 1\<rparr>)"

definition unsubscribe :: "nat \<Rightarrow> changeBroadcaster \<Rightarrow> changeBroadcaster" where
  "unsubscribe i b =
     b\<lparr>cb_subs := filter (\<lambda>s. ws_id s \<noteq> i) (cb_subs b),
       cb_closed := filter (\<lambda>s. ws_id s = i) (cb_subs b) @ cb_closed b\<rparr>"

definition watches :: "ChangeEvent \<Rightarrow> watchSubscriber \<Rightarrow> bool" where
  "watches event s \<longleftrightarrow> ws_keyPrefix s = '''' \<or> take (length (ws_keyPrefix s)) (ce_Key event) = ws_keyPrefix s"

definition publish :: "ChangeEvent \<Rightarrow> changeBroadcaster \<Rightarrow> changeBroadcaster" where
  "publish event b =
     (let full = (\<lambda>s. watches event s \<and> length (ws_ch s) \<ge> watchSubscriberBuffer)
      in b\<lparr>cb_subs := map (\<lambda>s. if watches event s then s\<lparr>ws_ch := ws_ch s @ [event]\<rparr> else s)
                        (filter (\<lambda>s. \<not> full s) (cb_subs b)),
           cb_closed := filter full (cb_subs b) @ cb_closed b\<rparr>)"

section \<open>State machine\<close>

record Command =
  c_Op :: string
  c_Key :: string
  c_Value :: bytes
  c_ClientID :: string
  c_SeqNum :: nat

datatype Result =
    ResultOk
  | ResultCorrupt
  | ResultUnknownOp string
  | ResultEngine engine_error
  | ResultSuperseded

record pendingWrite =
  pw_logIndex :: nat
  pw_term :: nat
  pw_done :: nat

record StateMachine =
  sm_engine :: Engine
  sm_pending :: "(nat \<times> pendingWrite) list"
  sm_lastApplied :: nat
  sm_lastSeq :: "string \<Rightarrow> nat option"
  sm_snapshotInterval :: nat
  sm_broadcaster :: changeBroadcaster
  sm_channels :: nat
  sm_sent :: "(nat \<times> Result) list"
  sm_stopped :: bool

definition NewStateMachine :: "nat \<Rightarrow> Engine \<Rightarrow> StateMachine" where
  "NewStateMachine interval e =
     \<lparr>sm_engine = e, sm_pending = [], sm_lastApplied = 0, sm_lastSeq = (\<lambda>_. None),
      sm_snapshotInterval = interval, sm_broadcaster = newChangeBroadcaster, sm_channels = 0, sm_sent = [],
      sm_stopped = False\<rparr>"

datatype propose_error = ProposeMarshal | ErrNotLeader

text \<open>The part of \<open>ProposeWrite\<close> before it blocks: the channel it then waits on.\<close>

definition ProposeWrite ::
  "(Command \<Rightarrow> bytes option) \<Rightarrow> 's PersistentState \<Rightarrow> Command \<Rightarrow> StateMachine \<Rightarrow> 's Node \<Rightarrow>
   (propose_error + nat) \<times> StateMachine \<times> 's Node" where
  "ProposeWrite enc ps cmd sm n =
     (case enc cmd of
        None \<Rightarrow> (Inl ProposeMarshal, sm, n)
      | Some data \<Rightarrow>
          (let ((idx, term, isLeader), n1) = Propose ps data n
           in if \<not> isLeader then (Inl ErrNotLeader, sm, n1)
              else
                (let ch = sm_channels sm;
                     pw = \<lparr>pw_logIndex = idx, pw_term = term, pw_done = ch\<rparr>
                 in (Inr ch, sm\<lparr>sm_pending := AList.update idx pw (sm_pending sm), sm_channels := ch + 1\<rparr>, n1))))"

definition ReadValue :: "string \<Rightarrow> StateMachine \<Rightarrow> 's Node \<Rightarrow> propose_error + bytes option" where
  "ReadValue key sm n = (if \<not> IsLeader n then Inl ErrNotLeader else Inr (Engine_Get key (sm_engine sm)))"

definition notifyPending :: "nat \<Rightarrow> Result \<Rightarrow> StateMachine \<Rightarrow> StateMachine" where
  "notifyPending idx result sm =
     (case map_of (sm_pending sm) idx of
        None \<Rightarrow> sm
      | Some pw \<Rightarrow>
          sm\<lparr>sm_pending := AList.delete idx (sm_pending sm), sm_sent := sm_sent sm @ [(pw_done pw, result)]\<rparr>)"

definition apply_write :: "Command \<Rightarrow> Engine \<Rightarrow> Result \<times> Engine" where
  "apply_write cmd e =
     (let result = (\<lambda>(err, e1). (case err of None \<Rightarrow> ResultOk | Some x \<Rightarrow> ResultEngine x, e1))
      in if c_Op cmd = ''put'' then result (Engine_Put (c_Key cmd) (c_Value cmd) e)
         else if c_Op cmd = ''delete'' then result (Engine_Delete (c_Key cmd) e)
         else (ResultUnknownOp (c_Op cmd), e))"

definition is_dup :: "Command \<Rightarrow> (string \<Rightarrow> nat option) \<Rightarrow> bool" where
  "is_dup cmd seqs \<longleftrightarrow> c_ClientID cmd \<noteq> ''''
     \<and> (case seqs (c_ClientID cmd) of None \<Rightarrow> False | Some seq \<Rightarrow> c_SeqNum cmd \<le> seq)"

definition change_event :: "LogEntry \<Rightarrow> Command \<Rightarrow> ChangeEvent" where
  "change_event entry cmd =
     \<lparr>ce_Index = le_index entry, ce_Term = le_term entry,
      ce_Op = (if c_Op cmd = ''delete'' then OP_DELETE else OP_PUT),
      ce_Key = c_Key cmd, ce_Value = c_Value cmd\<rparr>"

definition sm_apply :: "(bytes \<Rightarrow> Command option) \<Rightarrow> LogEntry \<Rightarrow> StateMachine \<Rightarrow> StateMachine" where
  "sm_apply dec entry sm =
     (let idx = le_index entry; done = (\<lambda>r s. notifyPending idx r (s\<lparr>sm_lastApplied := idx\<rparr>))
      in if idx \<le> sm_lastApplied sm then notifyPending idx ResultOk sm
         else
           case dec (le_data entry) of
             None \<Rightarrow> done ResultCorrupt sm
           | Some cmd \<Rightarrow>
               if is_dup cmd (sm_lastSeq sm) then done ResultOk sm
               else
                 (let (r, e1) = apply_write cmd (sm_engine sm);
                      sm1 = sm\<lparr>sm_engine := e1\<rparr>;
                      sm2 = (if r = ResultOk
                             then sm1\<lparr>sm_broadcaster := publish (change_event entry cmd) (sm_broadcaster sm1)\<rparr>
                             else sm1);
                      sm3 = (if c_ClientID cmd \<noteq> '''' \<and> r = ResultOk
                             then sm2\<lparr>sm_lastSeq := (sm_lastSeq sm2)(c_ClientID cmd := Some (c_SeqNum cmd))\<rparr>
                             else sm2)
                  in done r sm3))"

definition applySnapshot :: "disk \<Rightarrow> bytes \<Rightarrow> nat \<Rightarrow> StateMachine \<Rightarrow> StateMachine" where
  "applySnapshot dk data idx sm =
     (if idx \<le> sm_lastApplied sm then sm
      else
        (case Engine_LoadSnapshot dk data (sm_engine sm) of
           Inl _ \<Rightarrow> sm
         | Inr e1 \<Rightarrow>
             (let old = filter (\<lambda>(i, pw). i \<le> idx) (sm_pending sm)
              in sm\<lparr>sm_engine := e1, sm_lastSeq := (\<lambda>_. None),
                    sm_pending := filter (\<lambda>(i, pw). \<not> i \<le> idx) (sm_pending sm),
                    sm_sent := sm_sent sm @ map (\<lambda>(i, pw). (pw_done pw, ResultSuperseded)) old,
                    sm_lastApplied := idx\<rparr>)))"

definition maybeSnapshot ::
  "'s PersistentState \<Rightarrow> nat \<Rightarrow> nat \<Rightarrow> StateMachine \<Rightarrow> 's Node \<Rightarrow> 's Node" where
  "maybeSnapshot ps idx term sm n =
     (case Engine_Snapshot (sm_engine sm) of
        Inl _ \<Rightarrow> n
      | Inr data \<Rightarrow> snd (CompactLog ps data idx term n))"

fun dispatch ::
  "(bytes \<Rightarrow> Command option) \<Rightarrow> disk \<Rightarrow> 's PersistentState \<Rightarrow> ApplyMsg \<Rightarrow> StateMachine \<times> 's Node \<Rightarrow>
   StateMachine \<times> 's Node" where
  "dispatch dec dk ps (CommandMsg entry) (sm, n) =
     (let sm1 = sm_apply dec entry sm
      in (sm1, if sm_snapshotInterval sm1 > 0 \<and> le_index entry mod sm_snapshotInterval sm1 = 0
               then maybeSnapshot ps (le_index entry) (le_term entry) sm1 n else n))"
| "dispatch dec dk ps (SnapshotMsg data idx term) (sm, n) = (applySnapshot dk data idx sm, n)"

text \<open>
  The apply loop on the messages it receives, in the order of the channel; \<open>Stop\<close> returns when the
  loop has drained what the channel still holds, and panics (\<open>None\<close>) when called twice.
\<close>

definition applyLoop ::
  "(bytes \<Rightarrow> Command option) \<Rightarrow> disk \<Rightarrow> 's PersistentState \<Rightarrow> ApplyMsg list \<Rightarrow> StateMachine \<times> 's Node \<Rightarrow>
   StateMachine \<times> 's Node" where
  "applyLoop dec dk ps msgs s = fold (dispatch dec dk ps) msgs s"

definition sm_Stop ::
  "(bytes \<Rightarrow> Command option) \<Rightarrow> disk \<Rightarrow> 's PersistentState \<Rightarrow> ApplyMsg list \<Rightarrow> StateMachine \<times> 's Node \<Rightarrow>
   (StateMachine \<times> 's Node) option" where
  "sm_Stop dec dk ps msgs s =
     (if sm_stopped (fst s) then None
      else Some (applyLoop dec dk ps msgs ((fst s)\<lparr>sm_stopped := True\<rparr>, snd s)))"

definition sm_Subscribe :: "string \<Rightarrow> StateMachine \<Rightarrow> nat \<times> StateMachine" where
  "sm_Subscribe keyPrefix sm =
     (case subscribe keyPrefix (sm_broadcaster sm) of (i, b) \<Rightarrow> (i, sm\<lparr>sm_broadcaster := b\<rparr>))"

text \<open>
  The end of \<open>ProposeWrite\<close>: the ways its \<open>select\<close> can go on in the present state, none while the
  call stays blocked. When a result has been sent and the state machine is stopped, either is taken.
\<close>

datatype write_outcome = WriteOk | WriteFailed Result | WriteStopped

definition ProposeWrite_wait :: "nat \<Rightarrow> StateMachine \<Rightarrow> write_outcome list" where
  "ProposeWrite_wait ch sm =
     (case map_of (sm_sent sm) ch of
        None \<Rightarrow> []
      | Some result \<Rightarrow> [if result = ResultOk then WriteOk else WriteFailed result])
     @ (if sm_stopped sm then [WriteStopped] else [])"

definition LastApplied :: "StateMachine \<Rightarrow> nat" where
  "LastApplied sm = sm_lastApplied sm"

section \<open>Reference: a map with deduplication\<close>

text \<open>The contents, the table of sequence numbers and the last index, with no engine below.\<close>

type_synonym spec_state = "(string \<Rightarrow> bytes option) \<times> (string \<Rightarrow> nat option) \<times> nat"

definition spec_write :: "Command \<Rightarrow> (string \<Rightarrow> bytes option) \<Rightarrow> (string \<Rightarrow> bytes option) option" where
  "spec_write cmd f =
     (if c_Op cmd = ''put'' then Some (f(c_Key cmd := Some (c_Value cmd)))
      else if c_Op cmd = ''delete'' then Some (f(c_Key cmd := None)) else None)"

definition spec_apply :: "(bytes \<Rightarrow> Command option) \<Rightarrow> LogEntry \<Rightarrow> spec_state \<Rightarrow> spec_state" where
  "spec_apply dec entry st =
     (case st of (f, seqs, applied) \<Rightarrow>
        if le_index entry \<le> applied then st
        else
          (case dec (le_data entry) of
             None \<Rightarrow> (f, seqs, le_index entry)
           | Some cmd \<Rightarrow>
               if is_dup cmd seqs then (f, seqs, le_index entry)
               else
                 (case spec_write cmd f of
                    None \<Rightarrow> (f, seqs, le_index entry)
                  | Some f1 \<Rightarrow>
                      (f1, if c_ClientID cmd \<noteq> '''' then seqs(c_ClientID cmd := Some (c_SeqNum cmd)) else seqs,
                       le_index entry))))"

definition sm_view :: "StateMachine \<Rightarrow> spec_state" where
  "sm_view sm = (engine_view (sm_engine sm), sm_lastSeq sm, sm_lastApplied sm)"

lemma notifyPending_keeps [simp]:
  "sm_engine (notifyPending i r sm) = sm_engine sm" "sm_lastSeq (notifyPending i r sm) = sm_lastSeq sm"
  "sm_lastApplied (notifyPending i r sm) = sm_lastApplied sm"
  by (simp_all add: notifyPending_def split: option.split)

lemma apply_write_view:
  assumes "en_open e"
  shows "en_open (snd (apply_write cmd e))"
    and "case spec_write cmd (engine_view e) of
        None \<Rightarrow> fst (apply_write cmd e) \<noteq> ResultOk \<and> snd (apply_write cmd e) = e
      | Some f \<Rightarrow> fst (apply_write cmd e) = ResultOk \<and> engine_view (snd (apply_write cmd e)) = f"
proof -
  have p: "fst (Engine_Put k v e) = None" "fst (Engine_Delete k e) = None" for k v
    using assms by (simp_all add: Engine_Put_def Engine_Delete_def en_open_def Let_def)
  have o: "en_open (snd (Engine_Put k v e))" "en_open (snd (Engine_Delete k e))"
    "engine_view (snd (Engine_Put k v e)) = (engine_view e)(k := Some v)"
    "engine_view (snd (Engine_Delete k e)) = (engine_view e)(k := None)" for k v
    using en.run_op_invar[OF assms, of "KvPut k v"] en.run_op_invar[OF assms, of "KvDelete k"]
      en.run_op_contents[OF assms, of "KvPut k v"] en.run_op_contents[OF assms, of "KvDelete k"] by simp_all
  show "en_open (snd (apply_write cmd e))"
    using assms o p by (simp add: apply_write_def Let_def case_prod_unfold)
  show "case spec_write cmd (engine_view e) of
        None \<Rightarrow> fst (apply_write cmd e) \<noteq> ResultOk \<and> snd (apply_write cmd e) = e
      | Some f \<Rightarrow> fst (apply_write cmd e) = ResultOk \<and> engine_view (snd (apply_write cmd e)) = f"
    using o p by (simp add: apply_write_def spec_write_def Let_def case_prod_unfold)
qed

lemma sm_apply_view:
  assumes "en_open (sm_engine sm)"
  shows "en_open (sm_engine (sm_apply dec entry sm)) \<and> sm_view (sm_apply dec entry sm) = spec_apply dec entry (sm_view sm)"
proof -
  have w: "en_open (snd (apply_write cmd (sm_engine sm)))"
    "case spec_write cmd (engine_view (sm_engine sm)) of
        None \<Rightarrow> fst (apply_write cmd (sm_engine sm)) \<noteq> ResultOk \<and> snd (apply_write cmd (sm_engine sm)) = sm_engine sm
      | Some f \<Rightarrow> fst (apply_write cmd (sm_engine sm)) = ResultOk
          \<and> engine_view (snd (apply_write cmd (sm_engine sm))) = f" for cmd
    using apply_write_view[OF assms, of cmd] by simp_all
  show ?thesis
  proof (cases "dec (le_data entry)")
    case None
    then show ?thesis using assms by (simp add: sm_apply_def sm_view_def spec_apply_def Let_def)
  next
    case (Some cmd)
    then show ?thesis
      using assms w[of cmd]
      by (auto simp: sm_apply_def sm_view_def spec_apply_def Let_def case_prod_unfold split: option.splits)
  qed
qed

lemma sm_applies_view:
  "en_open (sm_engine sm) \<Longrightarrow>
   en_open (sm_engine (fold (sm_apply dec) es sm)) \<and> sm_view (fold (sm_apply dec) es sm) = fold (spec_apply dec) es (sm_view sm)"
  by (induction es arbitrary: sm) (use sm_apply_view in auto)

lemma lastSeq_mono:
  assumes "sm_lastSeq sm c = Some s" and "c \<noteq> ''''"
  shows "\<exists>s'. s \<le> s' \<and> sm_lastSeq (fold (sm_apply dec) es sm) c = Some s'"
  using assms
proof (induction es arbitrary: sm s)
  case (Cons e es)
  have "\<exists>s'. s \<le> s' \<and> sm_lastSeq (sm_apply dec e sm) c = Some s'"
    using Cons.prems
    by (auto simp: sm_apply_def is_dup_def Let_def case_prod_unfold split: option.splits)
  then show ?case using Cons.IH[of "sm_apply dec e sm"] Cons.prems(2) by (auto intro: le_trans)
qed auto

section \<open>Sample states for the concrete instances\<close>

definition sample_dec :: "bytes \<Rightarrow> Command option" where
  "sample_dec bs = (if bs = [] then None
     else Some \<lparr>c_Op = ''put'', c_Key = ''k'', c_Value = bs, c_ClientID = ''c'', c_SeqNum = unat (hd bs)\<rparr>)"

definition sample_log_entry :: "nat \<Rightarrow> nat \<Rightarrow> byte \<Rightarrow> LogEntry" where
  "sample_log_entry i t b = \<lparr>le_index = i, le_term = t, le_data = [b], le_type = ENTRY_NORMAL\<rparr>"

definition sample_sm :: StateMachine where
  "sample_sm = (NewStateMachine 0 sample_engine)
     \<lparr>sm_lastSeq := (\<lambda>c. if c = ''c'' then Some 4 else None),
      sm_pending := [(1, \<lparr>pw_logIndex = 1, pw_term = 1, pw_done = 9\<rparr>)]\<rparr>"

section \<open>Properties\<close>



text \<open>
  A retried command takes effect at most once. Once a client's sequence number is recorded,
  then whatever entries are applied in between, an entry of that client with the same or a lower
  number changes neither the contents nor the table.
\<close>

lemma retried_command_ignored:
  assumes "sm_lastSeq sm (c_ClientID cmd) = Some s" and "c_ClientID cmd \<noteq> ''''" and "c_SeqNum cmd \<le> s"
    and "dec (le_data e) = Some cmd"
  shows "sm_engine (fold (sm_apply dec) (es @ [e]) sm) = sm_engine (fold (sm_apply dec) es sm)
    \<and> sm_lastSeq (fold (sm_apply dec) (es @ [e]) sm) = sm_lastSeq (fold (sm_apply dec) es sm)"
proof -
  obtain s' where "s \<le> s'" "sm_lastSeq (fold (sm_apply dec) es sm) (c_ClientID cmd) = Some s'"
    using lastSeq_mono[OF assms(1,2)] by blast
  then have "is_dup cmd (sm_lastSeq (fold (sm_apply dec) es sm))" using assms(2,3) by (simp add: is_dup_def)
  then show ?thesis using assms(4) by (simp add: sm_apply_def Let_def)
qed

lemma retried_command_ignored_witness:
  "sm_engine (fold (sm_apply sample_dec) ([sample_log_entry 1 1 5] @ [sample_log_entry 2 1 4]) sample_sm)
     = sm_engine (fold (sm_apply sample_dec) [sample_log_entry 1 1 5] sample_sm)"
  using retried_command_ignored[of sample_sm "\<lparr>c_Op = ''put'', c_Key = ''k'', c_Value = [4], c_ClientID = ''c'', c_SeqNum = 4\<rparr>"
      4 sample_dec "sample_log_entry 2 1 4" "[sample_log_entry 1 1 5]"]
  by (simp add: sample_sm_def sample_dec_def sample_log_entry_def)

text \<open>
  C36: a client can be told that its write succeeded when another one was committed. A waiter
  registered for an index in one term is woken by whatever entry is applied at that index: when
  a later leader put a different entry there, the waiter of the lost entry receives the result
  of the other one, since the term it recorded is never compared.
\<close>

theorem waiter_of_lost_entry_acknowledged:
  assumes "en_open (sm_engine sm)" and "sm_lastApplied sm < le_index e"
    and "map_of (sm_pending sm) (le_index e) = Some pw" and "pw_term pw \<noteq> le_term e"
    and "dec (le_data e) = Some cmd" and "c_Op cmd = ''put''"
  shows "(pw_done pw, ResultOk) \<in> set (sm_sent (sm_apply dec e sm))"
proof -
  have "fst (apply_write cmd (sm_engine sm)) = ResultOk"
    using apply_write_view(2)[OF assms(1), of cmd] assms(6) by (simp add: spec_write_def)
  then show ?thesis
    using assms(2,3,5) by (auto simp: sm_apply_def notifyPending_def Let_def case_prod_unfold)
qed

theorem waiter_of_lost_entry_acknowledged_witness:
  "(9, ResultOk) \<in> set (sm_sent (sm_apply sample_dec (sample_log_entry 1 2 5) sample_sm))"
  using waiter_of_lost_entry_acknowledged[of sample_sm "sample_log_entry 1 2 5"
      "\<lparr>pw_logIndex = 1, pw_term = 1, pw_done = 9\<rparr>" sample_dec
      "\<lparr>c_Op = ''put'', c_Key = ''k'', c_Value = [5], c_ClientID = ''c'', c_SeqNum = 5\<rparr>"]
  by (simp add: sample_sm_def NewStateMachine_def sample_engine_ok sample_dec_def sample_log_entry_def)

text \<open>
  A subscriber whose buffer has room for them receives every published event whose key has
  its prefix, and no other, in the order of publication, and stays subscribed.
\<close>

lemma watch_delivers_in_order:
  assumes "s \<in> set (cb_subs b)"
    and "length (ws_ch s) + length (filter (\<lambda>ev. watches ev s) evs) \<le> watchSubscriberBuffer"
  shows "s\<lparr>ws_ch := ws_ch s @ filter (\<lambda>ev. watches ev s) evs\<rparr> \<in> set (cb_subs (fold publish evs b))"
  using assms
proof (induction evs arbitrary: s b)
  case (Cons ev evs)
  let ?s = "if watches ev s then s\<lparr>ws_ch := ws_ch s @ [ev]\<rparr> else s"
  have w: "watches x ?s = watches x s" for x by (simp add: watches_def)
  have "?s \<in> set (cb_subs (publish ev b))"
    using Cons.prems by (auto simp: publish_def Let_def split: if_splits)
  moreover have "length (ws_ch ?s) + length (filter (\<lambda>x. watches x ?s) evs) \<le> watchSubscriberBuffer"
    using Cons.prems(2) unfolding w by (simp split: if_splits)
  ultimately have "?s\<lparr>ws_ch := ws_ch ?s @ filter (\<lambda>x. watches x ?s) evs\<rparr> \<in> set (cb_subs (fold publish evs (publish ev b)))"
    by (rule Cons.IH)
  then show ?case unfolding w by (simp split: if_splits)
qed simp

lemma watch_delivers_in_order_witness:
  "\<lparr>ws_id = 0, ws_keyPrefix = ''k'', ws_ch = [change_event (sample_log_entry 1 1 5) (the (sample_dec [5]))]\<rparr>
     \<in> set (cb_subs (fold publish [change_event (sample_log_entry 1 1 5) (the (sample_dec [5]))]
         (snd (subscribe ''k'' newChangeBroadcaster))))"
  using watch_delivers_in_order[of "\<lparr>ws_id = 0, ws_keyPrefix = ''k'', ws_ch = []\<rparr>"
      "snd (subscribe ''k'' newChangeBroadcaster)" "[change_event (sample_log_entry 1 1 5) (the (sample_dec [5]))]"]
  by (simp add: subscribe_def newChangeBroadcaster_def watchSubscriberBuffer_def watches_def change_event_def
      sample_dec_def)

end
