(* ===== verification/KV_Command.thy ===== *)
theory KV_Command
  imports KV_JsonProps KV_StateMachine
begin

text \<open>
  The JSON coding of the commands in the log (\<open>Command\<close> of \<open>server/statemachine.go\<close> and its field
  tags), which the operations of \<open>KV_StateMachine\<close> take as \<open>enc\<close> and \<open>dec\<close>: \<open>json.Marshal\<close> as
  \<open>ProposeWrite\<close> calls it and \<open>json.Unmarshal\<close> as \<open>apply\<close> does.
\<close>

section \<open>Encoding\<close>

definition omit_if :: "bool \<Rightarrow> 'a \<Rightarrow> 'a list" where
  "omit_if b x = (if b then [] else [x])"

definition Command_Marshal :: "Command \<Rightarrow> bytes" where
  "Command_Marshal cmd =
     string_bytes (json_object
       ([(''op'', json_string (c_Op cmd)), (''key'', json_string (c_Key cmd))]
        @ omit_if (c_Value cmd = []) (''value'', json_string (b64_encode (c_Value cmd)))
        @ omit_if (c_ClientID cmd = '''') (''client_id'', json_string (c_ClientID cmd))
        @ omit_if (c_SeqNum cmd = 0) (''seq_num'', dec_string (c_SeqNum cmd))))"

abbreviation json_enc :: "Command \<Rightarrow> bytes option" where
  "json_enc cmd \<equiv> Some (Command_Marshal cmd)"

section \<open>Decoding\<close>

definition string_field :: "json \<Rightarrow> string \<Rightarrow> string option" where
  "string_field v old = (case v of JNull \<Rightarrow> Some old | JStr s \<Rightarrow> Some s | _ \<Rightarrow> None)"

definition uint_field :: "json \<Rightarrow> nat \<Rightarrow> nat option" where
  "uint_field v old = (case v of JNull \<Rightarrow> Some old | JNum x \<Rightarrow> ParseUint x | _ \<Rightarrow> None)"

text \<open>
  An array stored into a byte slice: \<open>null\<close> leaves the byte that is there, and a byte the slice
  did not have is zero.
\<close>

fun byte_elems :: "json list \<Rightarrow> bytes \<Rightarrow> bytes option" where
  "byte_elems [] old = Some []"
| "byte_elems (v # vs) old =
     (let b = (case old of [] \<Rightarrow> 0 | c # _ \<Rightarrow> c)
      in case uint_field v (unat b) of
           None \<Rightarrow> None
         | Some n \<Rightarrow> if n < 256 then map_option ((#) (word_of_nat n)) (byte_elems vs (tl old)) else None)"

definition bytes_field :: "json \<Rightarrow> bytes \<Rightarrow> bytes option" where
  "bytes_field v old =
     (case v of JNull \<Rightarrow> Some [] | JStr s \<Rightarrow> b64_decode s | JArr vs \<Rightarrow> byte_elems vs old | _ \<Rightarrow> None)"

definition command_member :: "string \<times> json \<Rightarrow> Command \<Rightarrow> Command option" where
  "command_member m cmd =
     (let name = fold_name (fst m); v = snd m
      in if name = ''OP'' then map_option (\<lambda>s. cmd\<lparr>c_Op := s\<rparr>) (string_field v (c_Op cmd))
         else if name = ''KEY'' then map_option (\<lambda>s. cmd\<lparr>c_Key := s\<rparr>) (string_field v (c_Key cmd))
         else if name = ''VALUE'' then map_option (\<lambda>bs. cmd\<lparr>c_Value := bs\<rparr>) (bytes_field v (c_Value cmd))
         else if name = ''CLIENT_ID'' then map_option (\<lambda>s. cmd\<lparr>c_ClientID := s\<rparr>) (string_field v (c_ClientID cmd))
         else if name = ''SEQ_NUM'' then map_option (\<lambda>n. cmd\<lparr>c_SeqNum := n\<rparr>) (uint_field v (c_SeqNum cmd))
         else Some cmd)"

fun command_members :: "(string \<times> json) list \<Rightarrow> Command \<Rightarrow> Command option" where
  "command_members [] cmd = Some cmd"
| "command_members (m # ms) cmd =
     (case command_member m cmd of None \<Rightarrow> None | Some cmd1 \<Rightarrow> command_members ms cmd1)"

definition zero_command :: Command where
  "zero_command = \<lparr>c_Op = '''', c_Key = '''', c_Value = [], c_ClientID = '''', c_SeqNum = 0\<rparr>"

definition Command_Unmarshal :: "bytes \<Rightarrow> Command option" where
  "Command_Unmarshal data =
     (case parse_json data of
        Some (JObj ms) \<Rightarrow> command_members ms zero_command
      | Some JNull \<Rightarrow> Some zero_command
      | _ \<Rightarrow> None)"

section \<open>Round trip\<close>

lemma b64_encode_ascii: "list_all (\<lambda>c. code c < 0x80) (b64_encode bs)"
proof -
  have "n < 64 \<Longrightarrow> code (b64_char n) < 0x80" for n by (auto simp: b64_char_def)
  then show ?thesis by (induction bs rule: b64_encode.induct) (simp_all add: sextets)
qed

declare fold_name.simps [simp del]

lemma field_names:
  "fold_name ''op'' = ''OP''" "fold_name ''key'' = ''KEY''" "fold_name ''value'' = ''VALUE''"
  "fold_name ''client_id'' = ''CLIENT_ID''" "fold_name ''seq_num'' = ''SEQ_NUM''"
  by code_simp+

lemma names_utf8:
  "valid_utf8 ''op''" "valid_utf8 ''key''" "valid_utf8 ''value''" "valid_utf8 ''client_id''" "valid_utf8 ''seq_num''"
  by (rule valid_utf8_ascii, simp)+

definition command_ok :: "Command \<Rightarrow> bool" where
  "command_ok cmd \<longleftrightarrow> valid_utf8 (c_Op cmd) \<and> valid_utf8 (c_Key cmd) \<and> valid_utf8 (c_ClientID cmd) \<and> c_SeqNum cmd < 2 ^ 64"

lemma parse_Command_Marshal:
  assumes "command_ok cmd"
  shows "parse_json (Command_Marshal cmd) = Some (JObj
     ([(''op'', JStr (c_Op cmd)), (''key'', JStr (c_Key cmd))]
      @ omit_if (c_Value cmd = []) (''value'', JStr (b64_encode (c_Value cmd)))
      @ omit_if (c_ClientID cmd = '''') (''client_id'', JStr (c_ClientID cmd))
      @ omit_if (c_SeqNum cmd = 0) (''seq_num'', JNum (dec_string (c_SeqNum cmd)))))"
  unfolding Command_Marshal_def
  by (rule parse_json_object, simp, intro list_all2_appendI)
    (use assms in \<open>simp_all add: command_ok_def omit_if_def names_utf8 coded_string coded_number valid_utf8_ascii b64_encode_ascii\<close>)

lemma command_members_append:
  "command_members (ms @ ns) cmd = (case command_members ms cmd of None \<Rightarrow> None | Some cmd1 \<Rightarrow> command_members ns cmd1)"
  by (induction ms arbitrary: cmd) (simp_all split: option.split)

lemma command_members_fields:
  "command_members [(''op'', JStr op), (''key'', JStr key)] zero_command = Some (zero_command\<lparr>c_Op := op, c_Key := key\<rparr>)"
  "command_members (omit_if (v = []) (''value'', JStr (b64_encode v))) (cmd\<lparr>c_Value := []\<rparr>) = Some (cmd\<lparr>c_Value := v\<rparr>)"
  "command_members (omit_if (s = '''') (''client_id'', JStr s)) (cmd\<lparr>c_ClientID := ''''\<rparr>) = Some (cmd\<lparr>c_ClientID := s\<rparr>)"
  "n < 2 ^ 64 \<Longrightarrow> command_members (omit_if (n = 0) (''seq_num'', JNum (dec_string n))) (cmd\<lparr>c_SeqNum := 0\<rparr>) = Some (cmd\<lparr>c_SeqNum := n\<rparr>)"
proof -
  show "command_members [(''op'', JStr op), (''key'', JStr key)] zero_command = Some (zero_command\<lparr>c_Op := op, c_Key := key\<rparr>)"
    by (simp add: command_member_def field_names string_field_def Let_def)
  show "command_members (omit_if (v = []) (''value'', JStr (b64_encode v))) (cmd\<lparr>c_Value := []\<rparr>) = Some (cmd\<lparr>c_Value := v\<rparr>)"
    by (cases "v = []") (simp_all add: omit_if_def command_member_def field_names bytes_field_def b64_roundtrip Let_def)
  show "command_members (omit_if (s = '''') (''client_id'', JStr s)) (cmd\<lparr>c_ClientID := ''''\<rparr>) = Some (cmd\<lparr>c_ClientID := s\<rparr>)"
    by (cases "s = ''''") (simp_all add: omit_if_def command_member_def field_names string_field_def Let_def)
  show "command_members (omit_if (n = 0) (''seq_num'', JNum (dec_string n))) (cmd\<lparr>c_SeqNum := 0\<rparr>) = Some (cmd\<lparr>c_SeqNum := n\<rparr>)"
    if "n < 2 ^ 64"
    using ParseUint_dec[OF that] by (cases "n = 0") (simp_all add: omit_if_def command_member_def field_names uint_field_def Let_def)
qed

lemma Command_coding:
  assumes "command_ok cmd" shows "Command_Unmarshal (Command_Marshal cmd) = Some cmd"
proof -
  let ?z = "zero_command\<lparr>c_Op := c_Op cmd, c_Key := c_Key cmd\<rparr>"
  let ?v = "?z\<lparr>c_Value := c_Value cmd\<rparr>"
  let ?c = "?v\<lparr>c_ClientID := c_ClientID cmd\<rparr>"
  have e: "?z\<lparr>c_Value := []\<rparr> = ?z" "?v\<lparr>c_ClientID := ''''\<rparr> = ?v" "?c\<lparr>c_SeqNum := 0\<rparr> = ?c" "?c\<lparr>c_SeqNum := c_SeqNum cmd\<rparr> = cmd"
    by (simp_all add: zero_command_def)
  note f = command_members_fields(1) command_members_fields(2)[of "c_Value cmd" ?z, unfolded e]
    command_members_fields(3)[of "c_ClientID cmd" ?v, unfolded e] command_members_fields(4)[of "c_SeqNum cmd" ?c, unfolded e]
  show ?thesis
    using assms unfolding Command_Unmarshal_def parse_Command_Marshal[OF assms]
    by (simp only: command_members_append f option.case json.case command_ok_def)
qed

section \<open>What decoding returns\<close>

lemma ParseUint_bound: "ParseUint x = Some n \<Longrightarrow> n < 2 ^ 64"
  by (auto simp: ParseUint_def split: if_splits)

lemma command_member_ok:
  "command_member m cmd = Some cmd' \<Longrightarrow> utf8_json (snd m) \<Longrightarrow> command_ok cmd \<Longrightarrow> command_ok cmd'"
  by (auto simp: command_member_def command_ok_def string_field_def uint_field_def Let_def dest: ParseUint_bound
      split: if_splits json.splits)

lemma command_members_ok:
  "command_members ms cmd = Some cmd' \<Longrightarrow> \<forall>m \<in> set ms. utf8_json (snd m) \<Longrightarrow> command_ok cmd \<Longrightarrow> command_ok cmd'"
proof (induction ms arbitrary: cmd)
  case (Cons m ms)
  then obtain c1 where "command_member m cmd = Some c1" "command_members ms c1 = Some cmd'" by (auto split: option.splits)
  then show ?case using Cons command_member_ok by auto
qed simp

lemma zero_command_ok: "command_ok zero_command"
  by (simp add: command_ok_def zero_command_def valid_utf8.simps)

section \<open>Properties\<close>

text \<open>
  C18: commands are well typed on both sides of the log. Whatever bytes an entry holds, if they
  decode at all then the operation, key and client of the command are valid UTF-8 and its sequence
  number fits 64 bits; and every such command, encoded for the log, decodes to itself.
\<close>

theorem commands_well_typed:
  "(Command_Unmarshal data = Some cmd \<longrightarrow> command_ok cmd)
   \<and> (command_ok cmd \<longrightarrow> Command_Unmarshal (Command_Marshal cmd) = Some cmd)"
proof -
  have "command_ok cmd" if c: "Command_Unmarshal data = Some cmd"
  proof -
    obtain j where j: "parse_json data = Some j" using c by (auto simp: Command_Unmarshal_def split: option.splits)
    note u = parse_json_utf8[OF j]
    show ?thesis
      using c u zero_command_ok
      by (cases j) (auto simp: Command_Unmarshal_def j dest!: command_members_ok)
  qed
  then show ?thesis using Command_coding by blast
qed

definition sample_cmd :: Command where
  "sample_cmd = \<lparr>c_Op = ''put'', c_Key = ''k'', c_Value = [1, 2], c_ClientID = ''c'', c_SeqNum = 7\<rparr>"

lemma sample_cmd_ok: "command_ok sample_cmd"
  by (simp add: command_ok_def sample_cmd_def valid_utf8_ascii)

theorem commands_well_typed_witness:
  "command_ok sample_cmd \<and> Command_Unmarshal (Command_Marshal sample_cmd) = Some sample_cmd"
  using commands_well_typed[of "Command_Marshal sample_cmd" sample_cmd] sample_cmd_ok by simp



end
