(* ===== verification/KV_Transport.thy ===== *)
theory KV_Transport
  imports KV_RaftNode
begin

text \<open>
  How a Raft node reaches its peers: the in-memory network of \<open>raft/memtransport.go\<close>, which calls
  the peer's handler, and the gRPC transport of \<open>server/transport.go\<close>. Connections and the calls
  on them are gRPC's: \<open>dial\<close> yields a connection to an address or fails, \<open>call\<close> is a remote call
  on a connection. The three RPCs of a transport differ only in request and response.
\<close>

section \<open>The in-memory network\<close>

record 's Network =
  net_nodes :: "(string \<times> 's Node) list"
  net_isolated :: "string list"

definition NewNetwork :: "'s Network" where
  "NewNetwork = \<lparr>net_nodes = [], net_isolated = []\<rparr>"

definition Network_Add :: "string \<Rightarrow> 's Node \<Rightarrow> 's Network \<Rightarrow> 's Network" where
  "Network_Add i n net = net\<lparr>net_nodes := AList.update i n (net_nodes net)\<rparr>"

definition Network_Disconnect :: "string \<Rightarrow> 's Network \<Rightarrow> 's Network" where
  "Network_Disconnect i net = net\<lparr>net_isolated := List.insert i (net_isolated net)\<rparr>"

definition Network_Reconnect :: "string \<Rightarrow> 's Network \<Rightarrow> 's Network" where
  "Network_Reconnect i net = net\<lparr>net_isolated := removeAll i (net_isolated net)\<rparr>"

text \<open>What the three calls start with: the peer's node, unless one of the two is cut off.\<close>

definition mem_peer :: "string \<Rightarrow> string \<Rightarrow> 's Network \<Rightarrow> 's Node option" where
  "mem_peer from peerID net =
     (if from \<in> set (net_isolated net) \<or> peerID \<in> set (net_isolated net) then None
      else map_of (net_nodes net) peerID)"

definition mem_RequestVote ::
  "'s PersistentState \<Rightarrow> string \<Rightarrow> string \<Rightarrow> RequestVoteRequest \<Rightarrow> 's Network \<Rightarrow> RequestVoteResponse option \<times> 's Network" where
  "mem_RequestVote ps from peerID req net =
     (case mem_peer from peerID net of
        None \<Rightarrow> (None, net)
      | Some peer \<Rightarrow> (case HandleRequestVote ps req peer of (resp, peer1) \<Rightarrow> (Some resp, Network_Add peerID peer1 net)))"

definition mem_AppendEntries ::
  "'s PersistentState \<Rightarrow> string \<Rightarrow> string \<Rightarrow> AppendEntriesRequest \<Rightarrow> 's Network \<Rightarrow> AppendEntriesResponse option \<times> 's Network" where
  "mem_AppendEntries ps from peerID req net =
     (case mem_peer from peerID net of
        None \<Rightarrow> (None, net)
      | Some peer \<Rightarrow> (case HandleAppendEntries ps req peer of (resp, peer1) \<Rightarrow> (Some resp, Network_Add peerID peer1 net)))"

definition mem_InstallSnapshot ::
  "'s PersistentState \<Rightarrow> string \<Rightarrow> string \<Rightarrow> InstallSnapshotRequest \<Rightarrow> 's Network \<Rightarrow> InstallSnapshotResponse option \<times> 's Network" where
  "mem_InstallSnapshot ps from peerID req net =
     (case mem_peer from peerID net of
        None \<Rightarrow> (None, net)
      | Some peer \<Rightarrow> (case HandleInstallSnapshot ps req peer of (resp, peer1) \<Rightarrow> (Some resp, Network_Add peerID peer1 net)))"

lemma mem_peer_disconnect:
  "mem_peer i p (Network_Disconnect i net) = None" "mem_peer f i (Network_Disconnect i net) = None"
  by (simp_all add: mem_peer_def Network_Disconnect_def)

lemma mem_peer_reconnect:
  "i \<notin> set (net_isolated net) \<Longrightarrow> mem_peer f p (Network_Reconnect i (Network_Disconnect i net)) = mem_peer f p net"
  by (simp add: mem_peer_def Network_Disconnect_def Network_Reconnect_def)

section \<open>The gRPC transport\<close>

datatype transport_error = UnknownPeer string | DialFailed string string | RpcFailed

record 'conn GRPCTransport =
  t_peers :: "(string \<times> string) list"
  t_conns :: "(string \<times> 'conn) list"
  t_clients :: "(string \<times> 'conn) list"
  t_closed :: "'conn list"

definition NewGRPCTransport :: "(string \<times> string) list \<Rightarrow> 'conn GRPCTransport" where
  "NewGRPCTransport peers = \<lparr>t_peers = peers, t_conns = [], t_clients = [], t_closed = []\<rparr>"

definition getClient ::
  "(string \<Rightarrow> 'conn option) \<Rightarrow> string \<Rightarrow> 'conn GRPCTransport \<Rightarrow> (transport_error + 'conn) \<times> 'conn GRPCTransport" where
  "getClient dial peerID t =
     (case map_of (t_clients t) peerID of
        Some client \<Rightarrow> (Inr client, t)
      | None \<Rightarrow>
          (case map_of (t_peers t) peerID of
             None \<Rightarrow> (Inl (UnknownPeer peerID), t)
           | Some addr \<Rightarrow>
               (case dial addr of
                  None \<Rightarrow> (Inl (DialFailed peerID addr), t)
                | Some conn \<Rightarrow>
                    (Inr conn, t\<lparr>t_conns := AList.update peerID conn (t_conns t),
                                 t_clients := AList.update peerID conn (t_clients t)\<rparr>))))"

text \<open>\<open>RequestVote\<close>, \<open>AppendEntries\<close> and \<open>InstallSnapshot\<close>, which have the same body.\<close>

definition transport_rpc ::
  "(string \<Rightarrow> 'conn option) \<Rightarrow> ('conn \<Rightarrow> 'req \<Rightarrow> 'resp option) \<Rightarrow> string \<Rightarrow> 'req \<Rightarrow> 'conn GRPCTransport \<Rightarrow>
   (transport_error + 'resp) \<times> 'conn GRPCTransport" where
  "transport_rpc dial call peerID req t =
     (case getClient dial peerID t of
        (Inl err, t1) \<Rightarrow> (Inl err, t1)
      | (Inr client, t1) \<Rightarrow> (case call client req of None \<Rightarrow> (Inl RpcFailed, t1) | Some resp \<Rightarrow> (Inr resp, t1)))"

definition transport_Close :: "'conn GRPCTransport \<Rightarrow> 'conn GRPCTransport" where
  "transport_Close t = t\<lparr>t_closed := t_closed t @ map snd (t_conns t)\<rparr>"

section \<open>The connection pool\<close>

text \<open>
  The pool in order: every cached client is the connection recorded for its peer, and only peers
  of the configuration have one.
\<close>

definition pool_ok :: "'conn GRPCTransport \<Rightarrow> bool" where
  "pool_ok t \<longleftrightarrow> t_clients t = t_conns t \<and> distinct (map fst (t_conns t)) \<and> fst ` set (t_conns t) \<subseteq> fst ` set (t_peers t)"

lemma pool_ok_new: "pool_ok (NewGRPCTransport peers)"
  by (simp add: pool_ok_def NewGRPCTransport_def)

lemma pool_ok_getClient: "pool_ok t \<Longrightarrow> pool_ok (snd (getClient dial peerID t))"
  by (auto simp: pool_ok_def getClient_def dom_update distinct_update image_iff split: option.splits
      dest!: map_of_SomeD) (force dest: map_of_SomeD simp: update_conv' dom_update)+

lemma getClient_cached:
  "getClient dial peerID t = (Inr c, t') \<Longrightarrow> getClient dial' peerID t' = (Inr c, t')"
  by (auto simp: getClient_def update_conv' split: option.splits)

lemma getClient_peers: "t_peers (snd (getClient dial peerID t)) = t_peers t" "t_closed (snd (getClient dial peerID t)) = t_closed t"
  by (simp_all add: getClient_def split: option.splits)

lemma getClient_keeps:
  "pool_ok t \<Longrightarrow> map_of (t_conns t) \<subseteq>\<^sub>m map_of (t_conns (snd (getClient dial peerID t)))"
  by (auto simp: pool_ok_def getClient_def update_conv' map_le_def split: option.splits)

lemma snd_transport_rpc: "snd (transport_rpc dial call peerID req t) = snd (getClient dial peerID t)"
  by (simp add: transport_rpc_def split: prod.splits sum.splits option.splits)

text \<open>The transport after a series of RPCs, each with the outcome of its dial and of its call.\<close>

definition transport_run ::
  "((string \<Rightarrow> 'conn option) \<times> ('conn \<Rightarrow> 'req \<Rightarrow> 'resp option) \<times> string \<times> 'req) list \<Rightarrow> 'conn GRPCTransport \<Rightarrow> 'conn GRPCTransport" where
  "transport_run rpcs t = fold (\<lambda>(dial, call, peerID, req) t. snd (transport_rpc dial call peerID req t)) rpcs t"

lemma transport_run_pool:
  assumes "pool_ok t"
  shows "pool_ok (transport_run rpcs t) \<and> t_peers (transport_run rpcs t) = t_peers t
    \<and> t_closed (transport_run rpcs t) = t_closed t \<and> map_of (t_conns t) \<subseteq>\<^sub>m map_of (t_conns (transport_run rpcs t))"
  using assms
proof (induction rpcs arbitrary: t)
  case (Cons r rpcs)
  obtain dial call p req where r: "r = (dial, call, p, req)" by (cases r)
  let ?t = "snd (getClient dial p t)"
  have "transport_run (r # rpcs) t = transport_run rpcs ?t" by (simp add: transport_run_def r snd_transport_rpc)
  then show ?case
    using Cons.IH[OF pool_ok_getClient[OF Cons.prems]] getClient_keeps[OF Cons.prems, of dial p]
    by (metis getClient_peers map_le_trans)
qed (simp add: transport_run_def)

lemma pool_ok_size: "pool_ok t \<Longrightarrow> length (t_conns t) \<le> card (dom (map_of (t_peers t)))"
proof -
  assume p: "pool_ok t"
  then have "length (t_conns t) = card (fst ` set (t_conns t))"
    by (metis distinct_card length_map list.set_map pool_ok_def)
  also have "\<dots> \<le> card (fst ` set (t_peers t))" using p by (intro card_mono) (auto simp: pool_ok_def)
  finally show ?thesis by (simp add: dom_map_of_conv_image_fst)
qed

text \<open>
  The connection pool is bounded and leaks nothing. However many RPCs are made, and whichever dials
  and calls fail, the transport holds at most one connection per configured peer; a connection once made
  for a peer stays the peer's connection; and \<open>Close\<close> closes the connections the transport holds, each
  once.
\<close>

lemma transport_pool_bounded:
  fixes peers :: "(string \<times> string) list"
  shows "length (t_conns (transport_run rest (transport_run rpcs (NewGRPCTransport peers)))) \<le> card (dom (map_of peers))
    \<and> distinct (map fst (t_conns (transport_run rest (transport_run rpcs (NewGRPCTransport peers)))))
    \<and> map_of (t_conns (transport_run rpcs (NewGRPCTransport peers)))
        \<subseteq>\<^sub>m map_of (t_conns (transport_run rest (transport_run rpcs (NewGRPCTransport peers))))
    \<and> t_closed (transport_Close (transport_run rest (transport_run rpcs (NewGRPCTransport peers))))
        = map snd (t_conns (transport_run rest (transport_run rpcs (NewGRPCTransport peers))))"
proof -
  let ?t1 = "transport_run rpcs (NewGRPCTransport peers)"
  have t1: "pool_ok ?t1" "t_peers ?t1 = peers" "t_closed ?t1 = []"
    using transport_run_pool[OF pool_ok_new, of rpcs peers] by (simp_all add: NewGRPCTransport_def)
  have t2: "pool_ok (transport_run rest ?t1)" "t_peers (transport_run rest ?t1) = peers"
    "t_closed (transport_run rest ?t1) = []" "map_of (t_conns ?t1) \<subseteq>\<^sub>m map_of (t_conns (transport_run rest ?t1))"
    using transport_run_pool[OF t1(1), of rest] t1 by simp_all
  then show ?thesis using pool_ok_size[OF t2(1)] by (simp add: transport_Close_def pool_ok_def)
qed

end
