(* ===== verification/KV_Server.thy ===== *)
theory KV_Server
  imports KV_WalState KV_Command KV_Transport
begin

text \<open>
  The server of \<open>server/kvserver.go\<close>: a Raft node on disk, a state machine over an engine, and the
  handlers of the client and peer RPCs, with the metrics of \<open>server/metrics.go\<close>. A client write is
  split where it waits: \<open>Put\<close> and \<open>Delete\<close> either reply or leave a channel to wait on, and
  \<open>write_end\<close> is the rest of the call. \<open>srv_consumed\<close> counts the messages of \<open>ApplyCh\<close> the apply
  loop has taken; one turn of the loop takes the next one. Listening, serving and the Prometheus
  registry belong to the libraries the code calls.
\<close>

section \<open>State\<close>

record Config =
  cfg_NodeID :: string
  cfg_ListenAddr :: string
  cfg_Peers :: "(string \<times> string) list"
  cfg_DataDir :: string
  cfg_MetricsAddr :: string

record ('s, 'conn) KVServer =
  srv_cfg :: Config
  srv_node :: "'s Node"
  srv_sm :: StateMachine
  srv_transport :: "'conn GRPCTransport"
  srv_consumed :: nat
  srv_serving :: bool
  srv_inflight :: "nat list" \<comment> \<open>channels of writes that have not replied\<close>
  srv_watchers :: "nat list" \<comment> \<open>subscriptions of open streams\<close>
  srv_stopCh :: bool

datatype server_error =
    ErrOpenStorage engine_error
  | ErrOpenWal wal_error
  | ErrListen
  | ErrRaftStart
  | ErrMarshal
  | ErrResult Result
  | ErrStopped
  | ErrWatchBehind
  | ErrStreamSend
  | ErrStreamDone

record GetResponse =
  gr_Key :: string
  gr_Value :: bytes
  gr_Found :: bool
  gr_LeaderHint :: string

text \<open>\<open>PutResponse\<close> and \<open>DeleteResponse\<close>.\<close>

record WriteResponse =
  wr_Success :: bool
  wr_LeaderHint :: string

section \<open>Life of a server\<close>

definition leaderHintAddr :: "('s, 'conn) KVServer \<Rightarrow> string" where
  "leaderHintAddr s =
     (let i = LeaderID (srv_node s)
      in if i = '''' then ''''
         else if i = cfg_NodeID (srv_cfg s) then cfg_ListenAddr (srv_cfg s)
         else case map_of (cfg_Peers (srv_cfg s)) i of None \<Rightarrow> '''' | Some addr \<Rightarrow> addr)"

text \<open>\<open>storageDir\<close> and \<open>walDir\<close> are the two directories under \<open>DataDir\<close>.\<close>

definition NewKVServer :: "unmarshal \<Rightarrow> Config \<Rightarrow> dir \<Rightarrow> dir \<Rightarrow> server_error + (walState, 'conn) KVServer" where
  "NewKVServer unm cfg storageDir walDir =
     (case Engine_Open storageDir of
        Inl err \<Rightarrow> Inl (ErrOpenStorage err)
      | Inr eng \<Rightarrow>
          (case newWALState unm walDir of
             Inl err \<Rightarrow> Inl (ErrOpenWal err)
           | Inr ws \<Rightarrow>
               Inr \<lparr>srv_cfg = cfg, srv_node = NewNode (cfg_NodeID cfg) (cfg_Peers cfg) ws,
                    srv_sm = NewStateMachine 0 eng, srv_transport = NewGRPCTransport (cfg_Peers cfg),
                    srv_consumed = 0, srv_serving = False, srv_inflight = [], srv_watchers = [],
                    srv_stopCh = False\<rparr>))"

definition KVServer_Start ::
  "'s PersistentState \<Rightarrow> bool \<Rightarrow> ('s, 'conn) KVServer \<Rightarrow> server_error option \<times> ('s, 'conn) KVServer" where
  "KVServer_Start ps listens s =
     (if \<not> listens then (Some ErrListen, s)
      else
        (case Start ps (srv_node s) of
           None \<Rightarrow> (Some ErrRaftStart, s)
         | Some n \<Rightarrow> (None, s\<lparr>srv_node := n, srv_serving := True\<rparr>)))"

text \<open>One turn of the apply loop of the server's state machine.\<close>

definition apply_turn :: "disk \<Rightarrow> 's PersistentState \<Rightarrow> ('s, 'conn) KVServer \<Rightarrow> ('s, 'conn) KVServer" where
  "apply_turn dk ps s =
     (if srv_consumed s < length (ApplyCh (srv_node s)) then
        (case dispatch Command_Unmarshal dk ps (ApplyCh (srv_node s) ! srv_consumed s) (srv_sm s, srv_node s) of
           (sm1, n1) \<Rightarrow> s\<lparr>srv_sm := sm1, srv_node := n1, srv_consumed := srv_consumed s + 1\<rparr>)
      else s)"

text \<open>
  \<open>Stop\<close>. \<open>GracefulStop\<close> of gRPC waits for the calls in progress, so \<open>Stop\<close> gets past it only when
  no write waits and no stream is open; everything else comes after that. A second \<open>Stop\<close> panics.
\<close>

datatype 'a stop_result = StopPanics | StopWaits 'a | StopReturns 'a

definition KVServer_Stop :: "disk \<Rightarrow> 's PersistentState \<Rightarrow> ('s, 'conn) KVServer \<Rightarrow> ('s, 'conn) KVServer stop_result" where
  "KVServer_Stop dk ps s =
     (if srv_stopCh s then StopPanics
      else
        (let s1 = s\<lparr>srv_stopCh := True, srv_serving := False\<rparr>
         in if srv_inflight s1 \<noteq> [] \<or> srv_watchers s1 \<noteq> [] then StopWaits s1
            else
              (case sm_Stop Command_Unmarshal dk ps (drop (srv_consumed s1) (ApplyCh (srv_node s1))) (srv_sm s1, srv_node s1) of
                 None \<Rightarrow> StopPanics
               | Some (sm1, n1) \<Rightarrow>
                   StopReturns
                     (s1\<lparr>srv_sm := sm1\<lparr>sm_engine := Engine_Close dk (sm_engine sm1)\<rparr>, srv_node := node_Stop n1,
                         srv_consumed := length (ApplyCh (srv_node s1)),
                         srv_transport := transport_Close (srv_transport s1)\<rparr>))))"

section \<open>RPC handlers\<close>

definition srv_RequestVote ::
  "'s PersistentState \<Rightarrow> RequestVoteRequest \<Rightarrow> ('s, 'conn) KVServer \<Rightarrow> RequestVoteResponse \<times> ('s, 'conn) KVServer" where
  "srv_RequestVote ps req s =
     (case HandleRequestVote ps req (srv_node s) of (resp, n) \<Rightarrow> (resp, s\<lparr>srv_node := n\<rparr>))"

definition srv_AppendEntries ::
  "'s PersistentState \<Rightarrow> AppendEntriesRequest \<Rightarrow> ('s, 'conn) KVServer \<Rightarrow> AppendEntriesResponse \<times> ('s, 'conn) KVServer" where
  "srv_AppendEntries ps req s =
     (case HandleAppendEntries ps req (srv_node s) of (resp, n) \<Rightarrow> (resp, s\<lparr>srv_node := n\<rparr>))"

definition srv_InstallSnapshot ::
  "'s PersistentState \<Rightarrow> InstallSnapshotRequest \<Rightarrow> ('s, 'conn) KVServer \<Rightarrow> InstallSnapshotResponse \<times> ('s, 'conn) KVServer" where
  "srv_InstallSnapshot ps req s =
     (case HandleInstallSnapshot ps req (srv_node s) of (resp, n) \<Rightarrow> (resp, s\<lparr>srv_node := n\<rparr>))"

definition srv_Get :: "string \<Rightarrow> ('s, 'conn) KVServer \<Rightarrow> server_error + GetResponse" where
  "srv_Get key s =
     (case ReadValue key (srv_sm s) (srv_node s) of
        Inl ErrNotLeader \<Rightarrow> Inr \<lparr>gr_Key = '''', gr_Value = [], gr_Found = False, gr_LeaderHint = leaderHintAddr s\<rparr>
      | Inl ProposeMarshal \<Rightarrow> Inl ErrMarshal
      | Inr val \<Rightarrow>
          Inr \<lparr>gr_Key = key, gr_Value = (case val of None \<Rightarrow> [] | Some v \<Rightarrow> v), gr_Found = (val \<noteq> None),
               gr_LeaderHint = ''''\<rparr>)"

datatype write_call = Replied "server_error + WriteResponse" | Waiting nat

definition write_begin ::
  "'s PersistentState \<Rightarrow> Command \<Rightarrow> ('s, 'conn) KVServer \<Rightarrow> write_call \<times> ('s, 'conn) KVServer" where
  "write_begin ps cmd s =
     (case ProposeWrite json_enc ps cmd (srv_sm s) (srv_node s) of
        (Inl ErrNotLeader, sm1, n1) \<Rightarrow>
          (let s1 = s\<lparr>srv_sm := sm1, srv_node := n1\<rparr>
           in (Replied (Inr \<lparr>wr_Success = False, wr_LeaderHint = leaderHintAddr s1\<rparr>), s1))
      | (Inl ProposeMarshal, sm1, n1) \<Rightarrow> (Replied (Inl ErrMarshal), s\<lparr>srv_sm := sm1, srv_node := n1\<rparr>)
      | (Inr ch, sm1, n1) \<Rightarrow>
          (Waiting ch, s\<lparr>srv_sm := sm1, srv_node := n1, srv_inflight := ch # srv_inflight s\<rparr>))"

definition srv_Put ::
  "'s PersistentState \<Rightarrow> string \<Rightarrow> bytes \<Rightarrow> ('s, 'conn) KVServer \<Rightarrow> write_call \<times> ('s, 'conn) KVServer" where
  "srv_Put ps key value s =
     write_begin ps \<lparr>c_Op = ''put'', c_Key = key, c_Value = value, c_ClientID = '''', c_SeqNum = 0\<rparr> s"

definition srv_Delete ::
  "'s PersistentState \<Rightarrow> string \<Rightarrow> ('s, 'conn) KVServer \<Rightarrow> write_call \<times> ('s, 'conn) KVServer" where
  "srv_Delete ps key s =
     write_begin ps \<lparr>c_Op = ''delete'', c_Key = key, c_Value = [], c_ClientID = '''', c_SeqNum = 0\<rparr> s"

definition write_reply :: "write_outcome \<Rightarrow> server_error + WriteResponse" where
  "write_reply out =
     (case out of
        WriteOk \<Rightarrow> Inr \<lparr>wr_Success = True, wr_LeaderHint = ''''\<rparr>
      | WriteFailed r \<Rightarrow> Inl (ErrResult r)
      | WriteStopped \<Rightarrow> Inl ErrStopped)"

text \<open>The ways a waiting write can end now; none while it still waits.\<close>

definition write_end ::
  "nat \<Rightarrow> ('s, 'conn) KVServer \<Rightarrow> ((server_error + WriteResponse) \<times> ('s, 'conn) KVServer) list" where
  "write_end ch s =
     map (\<lambda>out. (write_reply out, s\<lparr>srv_inflight := remove1 ch (srv_inflight s)\<rparr>)) (ProposeWrite_wait ch (srv_sm s))"

section \<open>Watch\<close>

text \<open>Taking an event from a subscriber's channel; a closed channel still hands out what it holds.\<close>

fun pop_sub :: "nat \<Rightarrow> watchSubscriber list \<Rightarrow> (ChangeEvent \<times> watchSubscriber list) option" where
  "pop_sub i [] = None"
| "pop_sub i (s # ss) =
     (if ws_id s = i then
        (case ws_ch s of [] \<Rightarrow> None | ev # evs \<Rightarrow> Some (ev, s\<lparr>ws_ch := evs\<rparr> # ss))
      else map_option (\<lambda>(ev, ss1). (ev, s # ss1)) (pop_sub i ss))"

definition pop_event :: "nat \<Rightarrow> changeBroadcaster \<Rightarrow> (ChangeEvent \<times> changeBroadcaster) option" where
  "pop_event i b =
     (case pop_sub i (cb_subs b) of
        Some (ev, ss) \<Rightarrow> Some (ev, b\<lparr>cb_subs := ss\<rparr>)
      | None \<Rightarrow> map_option (\<lambda>(ev, ss). (ev, b\<lparr>cb_closed := ss\<rparr>)) (pop_sub i (cb_closed b)))"

definition Watch_begin :: "string \<Rightarrow> ('s, 'conn) KVServer \<Rightarrow> nat \<times> ('s, 'conn) KVServer" where
  "Watch_begin keyPrefix s =
     (case sm_Subscribe keyPrefix (srv_sm s) of
        (i, sm1) \<Rightarrow> (i, s\<lparr>srv_sm := sm1, srv_watchers := i # srv_watchers s\<rparr>))"

definition Watch_end :: "nat \<Rightarrow> ('s, 'conn) KVServer \<Rightarrow> ('s, 'conn) KVServer" where
  "Watch_end i s =
     s\<lparr>srv_sm := (srv_sm s)\<lparr>sm_broadcaster := unsubscribe i (sm_broadcaster (srv_sm s))\<rparr>,
       srv_watchers := remove1 i (srv_watchers s)\<rparr>"

datatype watch_turn = WatchSent ChangeEvent | WatchReturns server_error | WatchIdle

text \<open>One turn of the loop when it receives from the channel; \<open>sends\<close> is whether the stream takes the event.\<close>

definition Watch_receive :: "bool \<Rightarrow> nat \<Rightarrow> ('s, 'conn) KVServer \<Rightarrow> watch_turn \<times> ('s, 'conn) KVServer" where
  "Watch_receive sends i s =
     (let b = sm_broadcaster (srv_sm s)
      in case pop_event i b of
           Some (ev, b1) \<Rightarrow>
             (let s1 = s\<lparr>srv_sm := (srv_sm s)\<lparr>sm_broadcaster := b1\<rparr>\<rparr>
              in if sends then (WatchSent ev, s1) else (WatchReturns ErrStreamSend, Watch_end i s1))
         | None \<Rightarrow>
             if i \<in> ws_id ` set (cb_closed b) then (WatchReturns ErrWatchBehind, Watch_end i s) else (WatchIdle, s))"

definition Watch_cancel :: "nat \<Rightarrow> ('s, 'conn) KVServer \<Rightarrow> watch_turn \<times> ('s, 'conn) KVServer" where
  "Watch_cancel i s = (WatchReturns ErrStreamDone, Watch_end i s)"

section \<open>Metrics\<close>

text \<open>The counters and gauges the server sets, by label; a histogram is the list of what was observed.\<close>

record metrics =
  kvOpsTotal :: "string \<times> string \<Rightarrow> nat"
  commitLatencySeconds :: "nat list"
  leaderElectionsTotal :: nat
  walFsyncSeconds :: "nat list"
  compactionDurationSeconds :: "nat list"
  replicationLagEntries :: "(string \<times> nat) list"

text \<open>The hooks \<open>wireMetrics\<close> sets on the node, the engine and, when there is one, the log.\<close>

record hooks =
  OnBecomeLeader :: "metrics \<Rightarrow> metrics"
  OnCompaction :: "nat \<Rightarrow> metrics \<Rightarrow> metrics"
  OnFsync :: "(nat \<Rightarrow> metrics \<Rightarrow> metrics) option"

definition wireMetrics :: "bool \<Rightarrow> hooks" where
  "wireMetrics hasWal =
     \<lparr>OnBecomeLeader = (\<lambda>m. m\<lparr>leaderElectionsTotal := leaderElectionsTotal m + 1\<rparr>),
      OnCompaction = (\<lambda>d m. m\<lparr>compactionDurationSeconds := compactionDurationSeconds m @ [d]\<rparr>),
      OnFsync = (if hasWal then Some (\<lambda>d m. m\<lparr>walFsyncSeconds := walFsyncSeconds m @ [d]\<rparr>) else None)\<rparr>"

definition recordOp :: "string \<Rightarrow> bool \<Rightarrow> metrics \<Rightarrow> metrics" where
  "recordOp op failed m =
     (let result = (if failed then ''error'' else ''ok'')
      in m\<lparr>kvOpsTotal := (kvOpsTotal m)((op, result) := kvOpsTotal m (op, result) + 1)\<rparr>)"

text \<open>A tick of the lag updater; a node that does not lead leaves the gauges as they are.\<close>

definition lag_tick :: "'s Node \<Rightarrow> metrics \<Rightarrow> metrics" where
  "lag_tick n m =
     (if \<not> IsLeader n then m
      else
        (let last = LastLogIndex n
         in m\<lparr>replicationLagEntries :=
                fold (\<lambda>(peer, match) g. AList.update peer (if last > match then last - match else 0) g)
                  (MatchIndexes n) (replicationLagEntries m)\<rparr>))"

text \<open>The updater's loop: a tick with the node as it is then, or the stop signal, which ends it.\<close>

fun startReplicationLagUpdater :: "'s Node option list \<Rightarrow> metrics \<Rightarrow> metrics" where
  "startReplicationLagUpdater [] m = m"
| "startReplicationLagUpdater (None # evs) m = m"
| "startReplicationLagUpdater (Some n # evs) m = startReplicationLagUpdater evs (lag_tick n m)"

section \<open>A server without peers\<close>

text \<open>
  A server that leads a cluster of its own: everything in its log is committed and applied, no
  snapshots are taken, and the results sent belong to channels it has made.
\<close>

definition serving_alone :: "('s, 'conn) KVServer \<Rightarrow> bool" where
  "serving_alone s \<longleftrightarrow> role (srv_node s) = RoleLeader \<and> Peers (srv_node s) = [] \<and> log (srv_node s) \<noteq> []
     \<and> commitIndex (srv_node s) = lastLogIndex (srv_node s) \<and> sm_lastApplied (srv_sm s) \<le> lastLogIndex (srv_node s)
     \<and> srv_consumed s = length (ApplyCh (srv_node s)) \<and> sm_snapshotInterval (srv_sm s) = 0
     \<and> en_open (sm_engine (srv_sm s)) \<and> \<not> sm_stopped (srv_sm s)
     \<and> (\<forall>(ch, r) \<in> set (sm_sent (srv_sm s)). ch < sm_channels (srv_sm s))"

lemma Propose_alone:
  assumes "role n = RoleLeader" "Peers n = []" "log n \<noteq> []" "commitIndex n = lastLogIndex n"
    and e_def: "e = \<lparr>le_index = lastLogIndex n + 1, le_term = currentTerm n, le_data = data, le_type = ENTRY_NORMAL\<rparr>"
  shows "Propose ps data n = ((le_index e, currentTerm n, True),
    n\<lparr>log := log n @ [e], storage := snd (ps_AppendEntries ps [e] (storage n)), commitIndex := le_index e,
      ApplyCh := ApplyCh n @ [CommandMsg e]\<rparr>)"
proof -
  define n2 where "n2 = n\<lparr>log := log n @ [e], storage := snd (ps_AppendEntries ps [e] (storage n))\<rparr>"
  have len: "lastLogIndex n = lastIncludedIndex n + (length (log n) - 1)" "length (log n) > 0"
    using assms(3) by (simp_all add: lastLogIndex_def)
  then have l2: "lastLogIndex n2 = Suc (lastLogIndex n)" by (simp add: n2_def lastLogIndex_def)
  have p: "logPos (Suc (lastLogIndex n)) n2 = Some (length (log n))" using len by (simp add: logPos_def n2_def Let_def)
  have "quorum n2 \<le> replicated_count (Suc (lastLogIndex n)) n2" using assms(2) by (simp add: n2_def quorum_def replicated_count_def)
  then have "maybeAdvanceCommit n2 = advanceCommitTo (Suc (lastLogIndex n)) n2"
    using p assms(4) by (simp add: maybeAdvanceCommit_def l2 Let_def) (simp add: n2_def e_def)
  also have "\<dots> = n2\<lparr>commitIndex := le_index e, ApplyCh := ApplyCh n @ [CommandMsg e]\<rparr>"
    using p assms(4) by (simp add: advanceCommitTo_def List.map_filter_def n2_def e_def)
  finally show ?thesis
    using assms(1,2) by (simp add: Propose_def store_def n2_def e_def Let_def)
qed

lemma apply_put_alone:
  assumes "en_open (sm_engine sm)" "sm_lastApplied sm < le_index e" "command_ok cmd" "le_data e = Command_Marshal cmd"
    "c_Op cmd = ''put''" "c_ClientID cmd = ''''"
  shows "sm_engine (sm_apply Command_Unmarshal e sm) = snd (Engine_Put (c_Key cmd) (c_Value cmd) (sm_engine sm))
    \<and> sm_lastApplied (sm_apply Command_Unmarshal e sm) = le_index e
    \<and> sm_sent (sm_apply Command_Unmarshal e sm)
        = sm_sent sm @ (case map_of (sm_pending sm) (le_index e) of None \<Rightarrow> [] | Some pw \<Rightarrow> [(pw_done pw, ResultOk)])
    \<and> sm_channels (sm_apply Command_Unmarshal e sm) = sm_channels sm
    \<and> sm_snapshotInterval (sm_apply Command_Unmarshal e sm) = sm_snapshotInterval sm
    \<and> sm_stopped (sm_apply Command_Unmarshal e sm) = sm_stopped sm"
proof -
  have "fst (Engine_Put (c_Key cmd) (c_Value cmd) (sm_engine sm)) = None"
    using assms(1) by (simp add: Engine_Put_def en_open_def Let_def)
  then show ?thesis
    using assms Command_coding[OF assms(3)]
    by (auto simp: sm_apply_def is_dup_def apply_write_def notifyPending_def Let_def case_prod_unfold split: option.split)
qed

lemma map_of_unsent: "\<forall>(ch, r) \<in> set xs. ch < k \<Longrightarrow> map_of xs k = None" for k :: nat
  by (fastforce simp: map_of_eq_None_iff)

lemma map_of_sent: "\<forall>(ch, r) \<in> set xs. ch < k \<Longrightarrow> map_of (xs @ [(k, r)]) k = Some r" for k :: nat
  by (simp add: map_add_def map_of_unsent)

lemma put_alone:
  assumes s: "serving_alone s" and key: "valid_utf8 key"
  obtains s1 s3 where "srv_Put ps key value s = (Waiting (sm_channels (srv_sm s)), s1)"
    "write_end (sm_channels (srv_sm s)) s1 = []"
    "write_end (sm_channels (srv_sm s)) (apply_turn dk ps s1) = [(Inr \<lparr>wr_Success = True, wr_LeaderHint = ''''\<rparr>, s3)]"
    "serving_alone s3" "srv_inflight s3 = srv_inflight s" "role (srv_node s3) = RoleLeader"
    "sm_engine (srv_sm s3) = snd (Engine_Put key value (sm_engine (srv_sm s)))"
proof -
  let ?n = "srv_node s" let ?sm = "srv_sm s" let ?ch = "sm_channels (srv_sm s)"
  note sa = s[unfolded serving_alone_def]
  define cmd where "cmd = \<lparr>c_Op = ''put'', c_Key = key, c_Value = value, c_ClientID = '''', c_SeqNum = 0\<rparr>"
  define e where "e = \<lparr>le_index = lastLogIndex ?n + 1, le_term = currentTerm ?n, le_data = Command_Marshal cmd, le_type = ENTRY_NORMAL\<rparr>"
  define n1 where "n1 = ?n\<lparr>log := log ?n @ [e], storage := snd (ps_AppendEntries ps [e] (storage ?n)),
    commitIndex := le_index e, ApplyCh := ApplyCh ?n @ [CommandMsg e]\<rparr>"
  define pw where "pw = \<lparr>pw_logIndex = le_index e, pw_term = currentTerm ?n, pw_done = ?ch\<rparr>"
  define sm1 where "sm1 = ?sm\<lparr>sm_pending := AList.update (le_index e) pw (sm_pending ?sm), sm_channels := ?ch + 1\<rparr>"
  define s1 where "s1 = s\<lparr>srv_sm := sm1, srv_node := n1, srv_inflight := ?ch # srv_inflight s\<rparr>"
  define sm2 where "sm2 = sm_apply Command_Unmarshal e sm1"
  define s3 where "s3 = s\<lparr>srv_sm := sm2, srv_node := n1, srv_consumed := srv_consumed s + 1\<rparr>"
  have pr: "Propose ps (Command_Marshal cmd) ?n = ((le_index e, currentTerm ?n, True), n1)"
    using Propose_alone[of ?n e "Command_Marshal cmd" ps] sa by (simp add: e_def n1_def)
  have put: "srv_Put ps key value s = (Waiting ?ch, s1)"
    using pr by (simp add: srv_Put_def write_begin_def ProposeWrite_def cmd_def[symmetric] s1_def sm1_def pw_def Let_def)
  have "command_ok cmd" using key by (simp add: command_ok_def cmd_def valid_utf8.simps[of "''''"] valid_utf8_ascii)
  then have a: "sm_engine sm2 = snd (Engine_Put key value (sm_engine ?sm))" "sm_lastApplied sm2 = le_index e"
    "sm_sent sm2 = sm_sent ?sm @ [(?ch, ResultOk)]" "sm_channels sm2 = ?ch + 1" "sm_snapshotInterval sm2 = 0" "\<not> sm_stopped sm2"
    using apply_put_alone[of sm1 e cmd] sa by (simp_all add: sm2_def sm1_def pw_def e_def cmd_def update_conv')
  have at: "apply_turn dk ps s1 = s3\<lparr>srv_inflight := ?ch # srv_inflight s\<rparr>"
    using sa a(5) by (simp add: apply_turn_def s1_def s3_def n1_def nth_append sm2_def[symmetric] Let_def)
  have e3: "s3\<lparr>srv_inflight := srv_inflight s\<rparr> = s3" by (simp add: s3_def)
  have "write_end ?ch (apply_turn dk ps s1) = [(Inr \<lparr>wr_Success = True, wr_LeaderHint = ''''\<rparr>, s3)]"
    using a(3,6) sa map_of_sent[of "sm_sent ?sm" ?ch ResultOk] e3
    by (simp add: write_end_def at ProposeWrite_wait_def write_reply_def) (simp add: s3_def)
  moreover have "write_end ?ch s1 = []"
    using sa map_of_unsent[of "sm_sent ?sm" ?ch] by (simp add: write_end_def s1_def sm1_def ProposeWrite_wait_def)
  moreover have "en_open (sm_engine sm2)" using a(1) en.run_op_invar[of "sm_engine ?sm" "KvPut key value"] sa by simp
  then have "serving_alone s3"
    using sa a by (auto simp: serving_alone_def s3_def n1_def lastLogIndex_def e_def)
  ultimately show ?thesis using that put a(1) sa by (simp add: s3_def n1_def)
qed

lemma fresh_engine: "\<exists>e. Engine_Open [] = Inr e \<and> en_open e"
  by (simp add: Engine_Open_def loadSSTables_def Glob_def open_all_def en_open_def en_wf_def NewMemtable_def mt_wf_def Let_def)

text \<open>A server that is created in empty directories, started, and whose election timer fires leads alone.\<close>

lemma fresh_serving_alone:
  assumes "cfg_Peers cfg = []"
  obtains s0 s1 :: "(walState, 'conn) KVServer"
  where "NewKVServer unm cfg [] [] = Inr s0"
    "KVServer_Start (walState_ops (\<lambda>_. None) mar unm) True s0 = (None, s1)"
    "serving_alone (s1\<lparr>srv_node := run_election_tick (walState_ops (\<lambda>_. None) mar unm) (srv_node s1)\<rparr>)"
proof -
  let ?ps = "walState_ops (\<lambda>_. None) mar unm"
  obtain e where e: "Engine_Open [] = Inr e" "en_open e" using fresh_engine by blast
  define s0 :: "(walState, 'conn) KVServer" where "s0 = \<lparr>srv_cfg = cfg, srv_node = NewNode (cfg_NodeID cfg) [] (fresh_walState unm),
      srv_sm = NewStateMachine 0 e, srv_transport = NewGRPCTransport [], srv_consumed = 0, srv_serving = False,
      srv_inflight = [], srv_watchers = [], srv_stopCh = False\<rparr>"
  have n0: "NewKVServer unm cfg [] [] = Inr s0"
    using e(1) fresh_walState(1)[of unm] assms by (simp add: NewKVServer_def s0_def)
  define n1 where "n1 = (NewNode (cfg_NodeID cfg) [] (fresh_walState unm))\<lparr>electionTimer := True\<rparr>"
  have st: "KVServer_Start ?ps True s0 = (None, s0\<lparr>srv_node := n1, srv_serving := True\<rparr>)"
    using whf.fresh_meta[of mar unm] whf.fresh_load[of mar unm] whf.fresh_entries[of mar unm]
    by (simp add: KVServer_Start_def s0_def n1_def Start_def NewNode_def resetElectionTimer_def)
  have "serving_alone (s0\<lparr>srv_serving := True, srv_node := run_election_tick ?ps n1\<rparr>)"
    using e(2) by (simp add: serving_alone_def s0_def n1_def NewNode_def run_election_tick_def startElection_def store_def
        resetElectionTimer_def quorum_def becomeLeader_def resetHeartbeatTimer_def sendHeartbeats_def NewStateMachine_def
        lastLogIndex_def Let_def)
  then show ?thesis using that[OF n0 st] by simp
qed

section \<open>Shutdown\<close>

text \<open>
  What a server does on its own while \<open>Stop\<close> waits: the apply loop, writes that can reply, and
  streams that send an event.
\<close>

inductive internal_step ::
  "disk \<Rightarrow> 's PersistentState \<Rightarrow> ('s, 'conn) KVServer \<Rightarrow> ('s, 'conn) KVServer \<Rightarrow> bool" for dk ps s where
  step_apply: "internal_step dk ps s (apply_turn dk ps s)"
| step_reply: "(r, s') \<in> set (write_end ch s) \<Longrightarrow> internal_step dk ps s s'"
| step_stream: "i \<in> set (srv_watchers s) \<Longrightarrow> Watch_receive True i s = (turn, s') \<Longrightarrow> internal_step dk ps s s'"

definition hangs_on :: "nat \<Rightarrow> ('s, 'conn) KVServer \<Rightarrow> bool" where
  "hangs_on ch s \<longleftrightarrow> ch \<in> set (srv_inflight s) \<and> map_of (sm_sent (srv_sm s)) ch = None \<and> \<not> sm_stopped (srv_sm s)
     \<and> srv_consumed s = length (ApplyCh (srv_node s))"

lemma hangs_on_step:
  assumes "internal_step dk ps s s'" "hangs_on ch s" shows "hangs_on ch s' \<and> srv_stopCh s' = srv_stopCh s"
  using assms(1)
proof cases
  case step_apply
  then show ?thesis using assms(2) by (simp add: hangs_on_def apply_turn_def)
next
  case (step_reply r ch')
  then have "ch' \<noteq> ch" using assms(2) by (auto simp: write_end_def ProposeWrite_wait_def hangs_on_def)
  then show ?thesis using step_reply assms(2) by (auto simp: write_end_def hangs_on_def)
next
  case (step_stream i turn)
  then show ?thesis
    using assms(2) by (auto simp: Watch_receive_def Watch_end_def hangs_on_def Let_def split: option.splits if_splits)
qed

lemma hangs_on_steps:
  "(internal_step dk ps)\<^sup>*\<^sup>* s s' \<Longrightarrow> hangs_on ch s \<Longrightarrow> hangs_on ch s' \<and> srv_stopCh s' = srv_stopCh s"
  by (induction rule: rtranclp_induct) (use hangs_on_step in fastforce)+

section \<open>Replicas\<close>

text \<open>Without a snapshot interval the apply loop is a fold of \<open>apply\<close> over the commands.\<close>

lemma sm_apply_interval: "sm_snapshotInterval (sm_apply dec e sm) = sm_snapshotInterval sm"
  by (auto simp: sm_apply_def notifyPending_def Let_def case_prod_unfold split: option.split)

lemma applyLoop_commands:
  "sm_snapshotInterval sm = 0 \<Longrightarrow> applyLoop dec dk ps (map CommandMsg es) (sm, n) = (fold (sm_apply dec) es sm, n)"
proof (induction es arbitrary: sm)
  case (Cons e es)
  then show ?case using sm_apply_interval[of dec e sm] by (simp add: applyLoop_def Let_def)
qed (simp add: applyLoop_def)

lemma spec_applies_last:
  "map le_index es = [Suc k..<Suc (k + length es)] \<Longrightarrow> snd (snd st) = k \<Longrightarrow> snd (snd (fold (spec_apply dec) es st)) = k + length es"
proof (induction es arbitrary: k st)
  case (Cons e es)
  have e: "le_index e = Suc k" "map le_index es = [Suc (Suc k)..<Suc (Suc k + length es)]"
    using Cons.prems(1) by (auto simp: upt_rec[of "Suc k"] split: if_splits)
  have "snd (snd (spec_apply dec e st)) = Suc k"
    using e(1) Cons.prems(2) by (auto simp: spec_apply_def split: prod.splits option.splits)
  from Cons.IH[OF e(2) this] show ?case by simp
qed simp

lemma inv_first_messages:
  assumes "raft_inv ids c g" "i \<in> set ids" "k \<le> length (ApplyCh (nd c i))"
  shows "k \<le> commitIndex (nd c i)"
    and "take k (ApplyCh (nd c i)) = map CommandMsg (map ((!) (log (nd c i))) [1..<Suc k])"
proof -
  have d: "ApplyCh (nd c i) = map (\<lambda>k. CommandMsg (log (nd c i) ! k)) [1..<Suc (commitIndex (nd c i))]"
    by (rule inv_delivered(1)[OF assms(1,2)])
  then show k: "k \<le> commitIndex (nd c i)" using assms(3) by (simp del: upt_Suc)
  have "take k [1..<Suc (commitIndex (nd c i))] = [1..<Suc k]" using k by (simp del: upt_Suc)
  then show "take k (ApplyCh (nd c i)) = map CommandMsg (map ((!) (log (nd c i))) [1..<Suc k])"
    unfolding d by (simp add: take_map comp_def del: upt_Suc)
qed

lemma disk_messages:
  assumes run: "lossless_run (reopen_walState unm) (walState_ops (\<lambda>_. None) mar unm) (fresh_walState unm) ids c" "valid_ids ids"
      "\<forall>j \<in> set ids. valid_utf8 j"
    and later: "(lossless_step (reopen_walState unm) (walState_ops (\<lambda>_. None) mar unm) ids)\<^sup>*\<^sup>* c c'"
    and ij: "i \<in> set ids" "j \<in> set ids" and k: "k \<le> length (ApplyCh (nd c i))" "k \<le> length (ApplyCh (nd c' j))"
  shows "\<exists>es. take k (ApplyCh (nd c i)) = map CommandMsg es \<and> take k (ApplyCh (nd c' j)) = map CommandMsg es
    \<and> map le_index es = [Suc 0..<Suc (0 + length es)] \<and> length es = k"
proof -
  obtain g where g: "wh.cluster_inv ids c" "raft_inv ids c g" using whf.lossless_inv[OF run] by blast
  obtain g' where g': "extends g g'" "raft_inv ids c' g'" using wh.raft_later[OF later g run(2,3)] by blast
  note fi = inv_first_messages[OF g(2) ij(1) k(1)] note fj = inv_first_messages[OF g'(2) ij(2) k(2)]
  let ?es = "map ((!) (log (nd c i))) [1..<Suc k]"
  have "map ((!) (log (nd c' j))) [1..<Suc k] = ?es"
    using inv_commit_agree[OF g(2) g'(2,1) ij] fi(1) fj(1) by (auto simp del: upt_Suc)
  then have "take k (ApplyCh (nd c' j)) = map CommandMsg ?es" using fj(2) by simp
  moreover have "map le_index ?es = [Suc 0..<Suc (0 + length ?es)]"
    using inv_delivered(2)[OF g(2) ij(1)] fi(1) by (auto intro!: map_idI simp: comp_def simp del: upt_Suc)
  ultimately show ?thesis using fi(2) by (intro exI[of _ ?es]) (simp del: upt_Suc)
qed

lemma new_machine_view:
  assumes "en_open e"
  shows "sm_view (fst (applyLoop dec dk ps (map CommandMsg es) (NewStateMachine 0 e, n)))
    = fold (spec_apply dec) es (sm_view (NewStateMachine 0 e))"
proof -
  have "sm_snapshotInterval (NewStateMachine 0 e) = 0" by (simp add: NewStateMachine_def)
  then show ?thesis
    using sm_applies_view[of "NewStateMachine 0 e" dec es] assms by (simp add: applyLoop_commands) (simp add: NewStateMachine_def)
qed

section \<open>Properties\<close>


context fresh_storage
begin

lemma one_node_commit:
  "\<exists>c e. cluster_run faults ps s0 [''a''] c \<and> ApplyCh (nd c ''a'') = [CommandMsg e] \<and> le_data e = data"
proof -
  define c0 where "c0 = cluster_init ps s0 [''a'']"
  have n0: "nd c0 ''a'' = (NewNode ''a'' [] s0)\<lparr>electionTimer := True\<rparr>"
    by (simp add: c0_def cluster_init_def Start_def NewNode_def fresh_meta fresh_entries fresh_load resetElectionTimer_def peers_of_def)
  define c1 where "c1 = put_node ''a'' (run_election_tick ps (nd c0 ''a'')) c0"
  have n1: "role (nd c1 ''a'') = RoleLeader" "Peers (nd c1 ''a'') = []" "log (nd c1 ''a'') \<noteq> []"
    "commitIndex (nd c1 ''a'') = lastLogIndex (nd c1 ''a'')" "ApplyCh (nd c1 ''a'') = []"
    by (simp_all add: c1_def n0 put_node_def NewNode_def run_election_tick_def startElection_def store_def resetElectionTimer_def
        quorum_def becomeLeader_def resetHeartbeatTimer_def sendHeartbeats_def lastLogIndex_def Let_def)
  define c2 where "c2 = put_node ''a'' (snd (Propose ps data (nd c1 ''a''))) c1"
  have "cluster_run faults ps s0 [''a''] c1" unfolding c1_def c0_def by (rule run_step[OF run_init election_tick]) simp
  then have "cluster_run faults ps s0 [''a''] c2" unfolding c2_def by (rule run_step[OF _ propose]) simp
  moreover have "ApplyCh (nd c2 ''a'') = [CommandMsg \<lparr>le_index = lastLogIndex (nd c1 ''a'') + 1,
      le_term = currentTerm (nd c1 ''a''), le_data = data, le_type = ENTRY_NORMAL\<rparr>]"
    using Propose_alone[OF n1(1-4) refl, of ps data] n1(5) by (simp add: c2_def put_node_def)
  ultimately show ?thesis by fastforce
qed

end


text \<open>
  C8: a write is read back. On a server that leads alone, \<open>Put\<close> of any value under a UTF-8 key
  waits, its entry goes through the JSON coding, the log and the apply loop, the call then replies
  with success, \<open>Get\<close> of the key returns the value, and the server is ready for the next write.
  A server started in empty directories is in such a state once its election timer fires.
\<close>

theorem put_then_get:
  assumes "serving_alone s" and "valid_utf8 key"
  shows "\<exists>ch s1 s2. srv_Put ps key value s = (Waiting ch, s1) \<and> write_end ch s1 = []
    \<and> write_end ch (apply_turn dk ps s1) = [(Inr \<lparr>wr_Success = True, wr_LeaderHint = ''''\<rparr>, s2)]
    \<and> srv_Get key s2 = Inr \<lparr>gr_Key = key, gr_Value = value, gr_Found = True, gr_LeaderHint = ''''\<rparr>
    \<and> serving_alone s2"
proof -
  obtain s1 s2 where p: "srv_Put ps key value s = (Waiting (sm_channels (srv_sm s)), s1)" "write_end (sm_channels (srv_sm s)) s1 = []"
    "write_end (sm_channels (srv_sm s)) (apply_turn dk ps s1) = [(Inr \<lparr>wr_Success = True, wr_LeaderHint = ''''\<rparr>, s2)]"
    "serving_alone s2" "role (srv_node s2) = RoleLeader" "sm_engine (srv_sm s2) = snd (Engine_Put key value (sm_engine (srv_sm s)))"
    using put_alone[OF assms] by metis
  have "Engine_Get key (sm_engine (srv_sm s2)) = Some value"
    using engine_read_your_write assms(1) p(6) by (simp add: serving_alone_def)
  then have "srv_Get key s2 = Inr \<lparr>gr_Key = key, gr_Value = value, gr_Found = True, gr_LeaderHint = ''''\<rparr>"
    using p(5) by (simp add: srv_Get_def ReadValue_def IsLeader_def)
  then show ?thesis using p by blast
qed

definition sample_cfg :: Config where
  "sample_cfg = \<lparr>cfg_NodeID = ''n1'', cfg_ListenAddr = ''localhost:7001'', cfg_Peers = [], cfg_DataDir = ''data'', cfg_MetricsAddr = ''''\<rparr>"

theorem put_then_get_witness:
  "\<exists>s0 s1 ch s2 s3. NewKVServer sample_unm sample_cfg [] [] = Inr (s0 :: (walState, unit) KVServer)
    \<and> KVServer_Start (walState_ops (\<lambda>_. None) sample_mar sample_unm) True s0 = (None, s1)
    \<and> srv_Put (walState_ops (\<lambda>_. None) sample_mar sample_unm) ''k'' [7]
        (s1\<lparr>srv_node := run_election_tick (walState_ops (\<lambda>_. None) sample_mar sample_unm) (srv_node s1)\<rparr>) = (Waiting ch, s2)
    \<and> write_end ch (apply_turn DiskOk (walState_ops (\<lambda>_. None) sample_mar sample_unm) s2)
        = [(Inr \<lparr>wr_Success = True, wr_LeaderHint = ''''\<rparr>, s3)]
    \<and> srv_Get ''k'' s3 = Inr \<lparr>gr_Key = ''k'', gr_Value = [7], gr_Found = True, gr_LeaderHint = ''''\<rparr>"
proof -
  let ?ps = "walState_ops (\<lambda>_. None) sample_mar sample_unm"
  obtain s0 s1 :: "(walState, unit) KVServer" where s: "NewKVServer sample_unm sample_cfg [] [] = Inr s0"
    "KVServer_Start ?ps True s0 = (None, s1)" "serving_alone (s1\<lparr>srv_node := run_election_tick ?ps (srv_node s1)\<rparr>)"
    using fresh_serving_alone[of sample_cfg sample_unm sample_mar] by (auto simp: sample_cfg_def)
  have "valid_utf8 ''k''" by (simp add: valid_utf8_ascii)
  from put_then_get[OF s(3) this, of ?ps "[7]" DiskOk] show ?thesis using s(1,2) by blast
qed

text \<open>
  C34: a write that never commits keeps the server from stopping. When a call waits on a channel
  no result has been sent on and no further message reaches the apply loop (a leader cut off from
  its peers), then whatever the server does on its own, \<open>Stop\<close> waits in \<open>GracefulStop\<close> and the call
  has no way to reply; stopping the state machine, which \<open>Stop\<close> does only afterwards, would end it.
\<close>

theorem stop_waits_for_stuck_write:
  assumes "hangs_on ch s" and "\<not> srv_stopCh s" and "(internal_step dk ps)\<^sup>*\<^sup>* s s'"
  shows "(\<exists>s1. KVServer_Stop dk ps s' = StopWaits s1 \<and> hangs_on ch s1) \<and> write_end ch s' = []
    \<and> write_end ch (s'\<lparr>srv_sm := (srv_sm s')\<lparr>sm_stopped := True\<rparr>\<rparr>) \<noteq> []"
proof -
  have h: "hangs_on ch s'" "\<not> srv_stopCh s'" using hangs_on_steps[OF assms(3,1)] assms(2) by auto
  then show ?thesis
    by (auto simp: KVServer_Stop_def hangs_on_def write_end_def ProposeWrite_wait_def Let_def)
qed

text \<open>The leader of three nodes, before it has heard from the others.\<close>

definition sample_srv :: "(memState, unit) KVServer" where
  "sample_srv = \<lparr>srv_cfg = sample_cfg,
     srv_node = (NewNode ''n1'' [(''n2'', ''h2''), (''n3'', ''h3'')] newMemState)\<lparr>role := RoleLeader, currentTerm := 1\<rparr>,
     srv_sm = NewStateMachine 0 sample_engine, srv_transport = NewGRPCTransport [], srv_consumed = 0, srv_serving = True,
     srv_inflight = [], srv_watchers = [], srv_stopCh = False\<rparr>"

theorem stop_waits_for_stuck_write_witness:
  "fst (srv_Put memState_ops ''k'' [7] sample_srv) = Waiting 0
    \<and> (\<exists>s. KVServer_Stop DiskOk memState_ops (snd (srv_Put memState_ops ''k'' [7] sample_srv)) = StopWaits s)"
proof -
  let ?d = "Command_Marshal \<lparr>c_Op = ''put'', c_Key = ''k'', c_Value = [7], c_ClientID = '''', c_SeqNum = 0\<rparr>"
  obtain n where n: "Propose memState_ops ?d (srv_node sample_srv) = ((1, 1, True), n)" "ApplyCh n = []"
    by (simp add: Propose_def sample_srv_def NewNode_def lastLogIndex_def maybeAdvanceCommit_def logPos_def
        replicated_count_def quorum_def store_def Let_def)
  have f: "sm_channels (srv_sm sample_srv) = 0" "sm_sent (srv_sm sample_srv) = []" "\<not> sm_stopped (srv_sm sample_srv)"
    "srv_consumed sample_srv = 0" "\<not> srv_stopCh sample_srv" by (simp_all add: sample_srv_def NewStateMachine_def)
  have w: "fst (srv_Put memState_ops ''k'' [7] sample_srv) = Waiting 0"
    using f by (simp add: srv_Put_def write_begin_def ProposeWrite_def n)
  have "hangs_on 0 (snd (srv_Put memState_ops ''k'' [7] sample_srv))"
    using f n(2) by (simp add: srv_Put_def write_begin_def ProposeWrite_def hangs_on_def n(1))
  moreover have "\<not> srv_stopCh (snd (srv_Put memState_ops ''k'' [7] sample_srv))"
    using f by (simp add: srv_Put_def write_begin_def ProposeWrite_def n)
  ultimately show ?thesis
    using stop_waits_for_stuck_write[of 0 "snd (srv_Put memState_ops ''k'' [7] sample_srv)" DiskOk memState_ops] w by blast
qed

end
