(* ===== verification/KV_Client.thy ===== *)
theory KV_Client
  imports KV_Server
begin

text \<open>
  The command-line client of \<open>client/main.go\<close> and the peer lists of both programs. A map is read
  in the order \<open>range\<close> happens to visit it, which is an argument (\<open>it\<close>). A remote call is gRPC's:
  \<open>rpc\<close> gives the outcome of the call at an attempt on an address. A result is what the program
  prints and how it exits; the pauses between attempts have no effect on it.
\<close>

section \<open>Peer lists\<close>

text \<open>\<open>strings.Split\<close> with a one-byte separator, and \<open>strings.SplitN\<close> into at most two pieces.\<close>

fun split_on :: "char \<Rightarrow> string \<Rightarrow> string list" where
  "split_on sep [] = [[]]"
| "split_on sep (c # s) =
     (if c = sep then [] # split_on sep s
      else case split_on sep s of [] \<Rightarrow> [[c]] | p # ps \<Rightarrow> (c # p) # ps)"

definition split2 :: "char \<Rightarrow> string \<Rightarrow> string list" where
  "split2 sep s =
     (if sep \<in> set s then [takeWhile (\<lambda>c. c \<noteq> sep) s, tl (dropWhile (\<lambda>c. c \<noteq> sep) s)] else [s])"

text \<open>The white space of \<open>unicode.IsSpace\<close>, as the UTF-8 bytes of its runes.\<close>

definition space_runes :: "string list" where
  "space_runes =
     [[CHR 0x09], [CHR 0x0A], [CHR 0x0B], [CHR 0x0C], [CHR 0x0D], [CHR 0x20],
      [CHR 0xC2, CHR 0x85], [CHR 0xC2, CHR 0xA0], [CHR 0xE1, CHR 0x9A, CHR 0x80]]
     @ map (\<lambda>n. [CHR 0xE2, CHR 0x80, char_of (0x80 + n)]) [0..<11]
     @ [[CHR 0xE2, CHR 0x80, CHR 0xA8], [CHR 0xE2, CHR 0x80, CHR 0xA9], [CHR 0xE2, CHR 0x80, CHR 0xAF],
        [CHR 0xE2, CHR 0x81, CHR 0x9F], [CHR 0xE3, CHR 0x80, CHR 0x80]]"

text \<open>Removing runes of a list from the front; at the back, the same with everything reversed.\<close>

function trim_front :: "string list \<Rightarrow> string \<Rightarrow> string" where
  "trim_front rs s =
     (case find (\<lambda>r. r \<noteq> [] \<and> take (length r) s = r) rs of
        None \<Rightarrow> s
      | Some r \<Rightarrow> trim_front rs (drop (length r) s))"
  by pat_completeness auto
termination
  by (relation "measure (\<lambda>(rs, s). length s)") (auto simp: find_Some_iff, metis diff_less length_greater_0_conv take_eq_Nil)

declare trim_front.simps [simp del]

definition TrimSpace :: "string \<Rightarrow> string" where
  "TrimSpace s = rev (trim_front (map rev space_runes) (rev (trim_front space_runes s)))"

definition peer_pair :: "string \<Rightarrow> (string \<times> string) option" where
  "peer_pair part =
     (case split2 (CHR ''='') (TrimSpace part) of [k, v] \<Rightarrow> Some (TrimSpace k, TrimSpace v) | _ \<Rightarrow> None)"

definition add_peer :: "string \<Rightarrow> (string \<times> string) list \<Rightarrow> (string \<times> string) list" where
  "add_peer part m = (case peer_pair part of None \<Rightarrow> m | Some (k, v) \<Rightarrow> AList.update k v m)"

definition client_parsePeers :: "string \<Rightarrow> (string \<times> string) list" where
  "client_parsePeers s = fold add_peer (split_on (CHR '','') s) []"

definition parsePeers :: "string \<Rightarrow> (string \<times> string) list" where
  "parsePeers s = (if s = '''' then [] else fold add_peer (split_on (CHR '','') s) [])"

definition addrList :: "(string \<times> string) list \<Rightarrow> string list" where
  "addrList it = map snd it"

definition redirectFirst :: "string list \<Rightarrow> string \<Rightarrow> string list" where
  "redirectFirst addrs hint =
     (let i = length (takeWhile (\<lambda>a. a \<noteq> hint) addrs)
      in if i < length addrs then addrs ! i # take i addrs @ drop (i + 1) addrs
         else hint # addrs)"

section \<open>Requests with retries\<close>

definition maxRetries :: nat where
  "maxRetries = 10"

datatype 'r attempt = DialError | RpcError | Response 'r

datatype client_result =
    PrintNotFound
  | PrintValue bytes
  | PrintOK
  | FailedAfterRetries
  | ClientPanic
  | UsageError
  | NoValidPeers
  | UnknownCommand string

function get_loop :: "(nat \<Rightarrow> string \<Rightarrow> GetResponse attempt) \<Rightarrow> nat \<Rightarrow> string list \<Rightarrow> client_result" where
  "get_loop rpc attempt addrs =
     (if attempt < maxRetries then
        (case rpc attempt (addrs ! (attempt mod length addrs)) of
           DialError \<Rightarrow> get_loop rpc (attempt + 1) addrs
         | RpcError \<Rightarrow> get_loop rpc (attempt + 1) addrs
         | Response resp \<Rightarrow>
             if gr_LeaderHint resp \<noteq> '''' then get_loop rpc (attempt + 1) (redirectFirst addrs (gr_LeaderHint resp))
             else if \<not> gr_Found resp then PrintNotFound
             else PrintValue (gr_Value resp))
      else FailedAfterRetries)"
  by pat_completeness auto
termination
  by (relation "measure (\<lambda>(rpc, attempt, addrs). maxRetries - attempt)") auto

declare get_loop.simps [simp del]

text \<open>An empty list makes \<open>attempt % len(addrs)\<close> panic.\<close>

definition doGet :: "(nat \<Rightarrow> string \<Rightarrow> GetResponse attempt) \<Rightarrow> (string \<times> string) list \<Rightarrow> client_result" where
  "doGet rpc it = (let addrs = addrList it in if addrs = [] then ClientPanic else get_loop rpc 0 addrs)"

function write_loop :: "(nat \<Rightarrow> string \<Rightarrow> WriteResponse attempt) \<Rightarrow> nat \<Rightarrow> string list \<Rightarrow> client_result" where
  "write_loop rpc attempt addrs =
     (if attempt < maxRetries then
        (case rpc attempt (addrs ! (attempt mod length addrs)) of
           DialError \<Rightarrow> write_loop rpc (attempt + 1) addrs
         | RpcError \<Rightarrow> write_loop rpc (attempt + 1) addrs
         | Response resp \<Rightarrow>
             if wr_LeaderHint resp \<noteq> '''' then write_loop rpc (attempt + 1) (redirectFirst addrs (wr_LeaderHint resp))
             else if wr_Success resp then PrintOK
             else write_loop rpc (attempt + 1) addrs)
      else FailedAfterRetries)"
  by pat_completeness auto
termination
  by (relation "measure (\<lambda>(rpc, attempt, addrs). maxRetries - attempt)") auto

declare write_loop.simps [simp del]

definition doPut :: "(nat \<Rightarrow> string \<Rightarrow> WriteResponse attempt) \<Rightarrow> (string \<times> string) list \<Rightarrow> client_result" where
  "doPut rpc it = (let addrs = addrList it in if addrs = [] then ClientPanic else write_loop rpc 0 addrs)"

definition doDelete :: "(nat \<Rightarrow> string \<Rightarrow> WriteResponse attempt) \<Rightarrow> (string \<times> string) list \<Rightarrow> client_result" where
  "doDelete rpc it = (let addrs = addrList it in if addrs = [] then ClientPanic else write_loop rpc 0 addrs)"

text \<open>\<open>main\<close> after the flags are parsed; \<open>order\<close> is the order in which the map of peers is read.\<close>

definition client_main ::
  "(string \<Rightarrow> nat \<Rightarrow> string \<Rightarrow> GetResponse attempt) \<Rightarrow> (string \<Rightarrow> bytes \<Rightarrow> nat \<Rightarrow> string \<Rightarrow> WriteResponse attempt) \<Rightarrow>
   (string \<Rightarrow> nat \<Rightarrow> string \<Rightarrow> WriteResponse attempt) \<Rightarrow> ((string \<times> string) list \<Rightarrow> (string \<times> string) list) \<Rightarrow>
   string \<Rightarrow> string list \<Rightarrow> client_result" where
  "client_main rpcGet rpcPut rpcDelete order peersFlag args =
     (if length args < 2 \<or> peersFlag = '''' then UsageError
      else
        (let peers = client_parsePeers peersFlag; cmd = args ! 0
         in if peers = [] then NoValidPeers
            else if cmd = ''get'' then doGet (rpcGet (args ! 1)) (order peers)
            else if cmd = ''put'' then
              (if length args < 3 then UsageError
               else doPut (rpcPut (args ! 1) (string_bytes (args ! 2))) (order peers))
            else if cmd = ''delete'' then doDelete (rpcDelete (args ! 1)) (order peers)
            else UnknownCommand cmd))"

section \<open>The server program\<close>

text \<open>\<open>main\<close> of the server up to the point where it waits for a signal.\<close>

datatype 'a server_main = ServerUsage | ServerFatal server_error | ServerReady 'a

definition server_main ::
  "marshal \<Rightarrow> unmarshal \<Rightarrow> bool \<Rightarrow> dir \<Rightarrow> dir \<Rightarrow> string \<Rightarrow> string \<Rightarrow> string \<Rightarrow> string \<Rightarrow> string \<Rightarrow>
   (walState, 'conn) KVServer server_main" where
  "server_main mar unm listens storageDir walDir i listen peersStr dataDir metricsListen =
     (if i = '''' \<or> listen = '''' \<or> dataDir = '''' then ServerUsage
      else
        (let cfg = \<lparr>cfg_NodeID = i, cfg_ListenAddr = listen, cfg_Peers = parsePeers peersStr, cfg_DataDir = dataDir,
                    cfg_MetricsAddr = metricsListen\<rparr>
         in case NewKVServer unm cfg storageDir walDir of
              Inl err \<Rightarrow> ServerFatal err
            | Inr srv \<Rightarrow>
                (case KVServer_Start (walState_ops (\<lambda>_. None) mar unm) listens srv of
                   (Some err, _) \<Rightarrow> ServerFatal err
                 | (None, srv1) \<Rightarrow> ServerReady srv1)))"

section \<open>Facts about the client\<close>

lemma parsePeers_same: "parsePeers s = client_parsePeers s"
proof -
  have "trim_front rs [] = []" for rs
    by (subst trim_front.simps) (auto simp: find_Some_iff split: option.split)
  then have "peer_pair [] = None" by (simp add: peer_pair_def TrimSpace_def split2_def)
  then show ?thesis by (simp add: parsePeers_def client_parsePeers_def add_peer_def)
qed

lemma redirectFirst_remove1: "redirectFirst addrs hint = hint # remove1 hint addrs"
proof (induction addrs)
  case (Cons a addrs)
  then show ?case by (cases "a = hint") (auto simp: redirectFirst_def Let_def split: if_splits)
qed (simp add: redirectFirst_def)

lemma length_redirectFirst: "hint \<in> set addrs \<Longrightarrow> length (redirectFirst addrs hint) = length addrs"
  by (cases addrs) (auto simp: redirectFirst_remove1 length_remove1 dest: length_pos_if_in_set)

lemma set_redirectFirst: "hint \<in> set addrs \<Longrightarrow> set (redirectFirst addrs hint) = set addrs"
  by (induction addrs) (auto simp: redirectFirst_remove1)

section \<open>Client and servers together\<close>

text \<open>The servers that can be reached, by address; a read is answered at once.\<close>

definition get_rpc :: "(string \<Rightarrow> ('s, 'conn) KVServer option) \<Rightarrow> string \<Rightarrow> nat \<Rightarrow> string \<Rightarrow> GetResponse attempt" where
  "get_rpc servers key attempt addr =
     (case servers addr of
        None \<Rightarrow> DialError
      | Some s \<Rightarrow> (case srv_Get key s of Inl _ \<Rightarrow> RpcError | Inr resp \<Rightarrow> Response resp))"

text \<open>
  A settled cluster, seen from the addresses of the client: the leader is up, and every other
  server is down or sends clients to the leader.
\<close>

definition settled :: "(string \<Rightarrow> ('s, 'conn) KVServer option) \<Rightarrow> string \<Rightarrow> string list \<Rightarrow> bool" where
  "settled servers leader addrs \<longleftrightarrow> leader \<noteq> '''' \<and> (case servers leader of None \<Rightarrow> False | Some s \<Rightarrow> IsLeader (srv_node s))
     \<and> (\<forall>a \<in> set addrs. a \<noteq> leader \<longrightarrow>
          (case servers a of None \<Rightarrow> True | Some s \<Rightarrow> \<not> IsLeader (srv_node s) \<and> leaderHintAddr s = leader))"

definition read_at :: "string \<Rightarrow> ('s, 'conn) KVServer \<Rightarrow> client_result" where
  "read_at key s = (case Engine_Get key (sm_engine (srv_sm s)) of None \<Rightarrow> PrintNotFound | Some v \<Rightarrow> PrintValue v)"

lemma get_loop_leader:
  assumes "settled servers leader addrs" "servers leader = Some s" "addrs ! (k mod length addrs) = leader" "k < maxRetries"
  shows "get_loop (get_rpc servers key) k addrs = read_at key s"
  using assms by (subst get_loop.simps)
    (simp add: settled_def get_rpc_def srv_Get_def ReadValue_def read_at_def split: option.split)

lemma get_loop_other:
  assumes st: "settled servers leader addrs" and a: "addrs ! (k mod length addrs) \<noteq> leader" and k: "k < maxRetries" "addrs \<noteq> []"
  shows "get_loop (get_rpc servers key) k addrs = get_loop (get_rpc servers key) (k + 1) addrs
    \<or> get_loop (get_rpc servers key) k addrs = get_loop (get_rpc servers key) (k + 1) (redirectFirst addrs leader)"
proof -
  have "addrs ! (k mod length addrs) \<in> set addrs" using k(2) by simp
  then have "case servers (addrs ! (k mod length addrs)) of None \<Rightarrow> True
      | Some s \<Rightarrow> \<not> IsLeader (srv_node s) \<and> leaderHintAddr s = leader" using st a by (auto simp: settled_def)
  then show ?thesis
    using k(1) st by (subst (1 3) get_loop.simps)
      (auto simp: get_rpc_def srv_Get_def ReadValue_def settled_def split: option.splits)
qed

text \<open>After a redirect the leader is in front, and the list no longer changes.\<close>

lemma get_loop_front:
  assumes "settled servers leader addrs" "servers leader = Some s" "addrs ! 0 = leader" "addrs \<noteq> []"
    "length addrs < maxRetries" "0 < k" "k \<le> length addrs"
  shows "get_loop (get_rpc servers key) k addrs = read_at key s"
  using assms(6,7)
proof (induction "length addrs - k" arbitrary: k)
  case 0
  then have "addrs ! (k mod length addrs) = leader" "k < maxRetries" using assms(3,5) by simp_all
  then show ?case using get_loop_leader[OF assms(1,2)] by simp
next
  case (Suc d)
  show ?case
  proof (cases "addrs ! (k mod length addrs) = leader")
    case True
    then show ?thesis using get_loop_leader[OF assms(1,2)] Suc.prems assms(5) by simp
  next
    case False
    have "redirectFirst addrs leader = addrs" using assms(3,4) by (cases addrs) (simp_all add: redirectFirst_remove1)
    then have "get_loop (get_rpc servers key) k addrs = get_loop (get_rpc servers key) (k + 1) addrs"
      using get_loop_other[OF assms(1) False _ assms(4), of key] Suc.prems assms(5) by auto
    then show ?thesis using Suc.hyps(1)[of "k + 1"] Suc.hyps(2) by simp
  qed
qed

lemma get_loop_start:
  assumes "settled servers leader addrs" "servers leader = Some s" "addrs ! i = leader" "i < length addrs"
    "length addrs < maxRetries" "k \<le> i"
  shows "get_loop (get_rpc servers key) k addrs = read_at key s"
  using assms(6)
proof (induction "i - k" arbitrary: k)
  case 0
  then show ?case using get_loop_leader[OF assms(1,2)] assms(3-5) by simp
next
  case (Suc d)
  then have k: "k < length addrs" "k < maxRetries" "addrs \<noteq> []" using assms(4,5) by auto
  show ?case
  proof (cases "addrs ! (k mod length addrs) = leader")
    case True
    then show ?thesis using get_loop_leader[OF assms(1,2)] k(2) by simp
  next
    case False
    let ?r = "redirectFirst addrs leader"
    have l: "leader \<in> set addrs" using assms(3,4) nth_mem by force
    then have r: "length ?r = length addrs" "?r ! 0 = leader" "?r \<noteq> []" "set ?r = set addrs"
      by (simp_all add: length_redirectFirst set_redirectFirst) (simp_all add: redirectFirst_remove1)
    have "settled servers leader ?r" using assms(1) r(4) by (simp add: settled_def)
    then have "get_loop (get_rpc servers key) (k + 1) ?r = read_at key s"
      by (rule get_loop_front) (use assms(2,5) r k(1) in simp_all)
    then show ?thesis
      using get_loop_other[OF assms(1) False k(2,3), of key] Suc.hyps(1)[of "k + 1"] Suc.hyps(2) by auto
  qed
qed

lemma length_addrList: "length (addrList it) = length it"
  by (simp add: addrList_def)

text \<open>
  C10: a read reaches the leader. When the leader's address is one of the client's addresses, fewer
  addresses are configured than attempts are made, and every other server is down or gives the leader's
  address as its hint, \<open>doGet\<close> prints what the leader's engine holds for the key, in whatever order
  the addresses are read.
\<close>

theorem get_reaches_leader:
  assumes "settled servers leader (addrList it)" "servers leader = Some s" "leader \<in> set (addrList it)" "length it < maxRetries"
  shows "doGet (get_rpc servers key) it
    = (case Engine_Get key (sm_engine (srv_sm s)) of None \<Rightarrow> PrintNotFound | Some v \<Rightarrow> PrintValue v)"
proof -
  obtain i where "addrList it ! i = leader" "i < length (addrList it)" using assms(3) by (auto simp: in_set_conv_nth)
  then have "get_loop (get_rpc servers key) 0 (addrList it) = read_at key s"
    using get_loop_start[OF assms(1,2)] assms(4) by (simp add: length_addrList)
  moreover have "addrList it \<noteq> []" using assms(3) by auto
  ultimately show ?thesis by (simp add: doGet_def read_at_def)
qed

text \<open>Three addresses: a server that is down, a follower that knows the leader, and the leader, which holds a value.\<close>

definition sample_leader :: "(memState, unit) KVServer" where
  "sample_leader = sample_srv\<lparr>srv_sm := (srv_sm sample_srv)\<lparr>sm_engine := snd (Engine_Put ''k'' [7] (sm_engine (srv_sm sample_srv)))\<rparr>\<rparr>"

definition sample_follower :: "string \<Rightarrow> (memState, unit) KVServer" where
  "sample_follower leader = sample_srv\<lparr>srv_cfg := sample_cfg\<lparr>cfg_NodeID := ''n2'', cfg_Peers := [(''n1'', ''l'')]\<rparr>,
     srv_node := (srv_node sample_srv)\<lparr>role := RoleFollower, leaderID := leader\<rparr>\<rparr>"

definition sample_servers :: "string \<Rightarrow> string \<Rightarrow> (memState, unit) KVServer option" where
  "sample_servers hint addr = (if addr = ''l'' then Some sample_leader else if addr = ''f'' then Some (sample_follower hint) else None)"

lemma sample_leader_holds: "Engine_Get ''k'' (sm_engine (srv_sm sample_leader)) = Some [7]"
  by (simp add: sample_leader_def sample_srv_def NewStateMachine_def engine_read_your_write sample_engine_ok)

lemma sample_settled: "settled (sample_servers ''n1'') ''l'' [''d'', ''f'', ''l'']"
  by (simp add: settled_def sample_servers_def sample_leader_def sample_follower_def sample_srv_def IsLeader_def
        leaderHintAddr_def LeaderID_def)

theorem get_reaches_leader_witness:
  "settled (sample_servers ''n1'') ''l'' (addrList [(''n3'', ''d''), (''n2'', ''f''), (''n1'', ''l'')])
    \<and> doGet (get_rpc (sample_servers ''n1'') ''k'') [(''n3'', ''d''), (''n2'', ''f''), (''n1'', ''l'')] = PrintValue [7]"
proof -
  let ?it = "[(''n3'', ''d''), (''n2'', ''f''), (''n1'', ''l'')]"
  have s: "settled (sample_servers ''n1'') ''l'' (addrList ?it)" using sample_settled by (simp add: addrList_def)
  have l: "sample_servers ''n1'' ''l'' = Some sample_leader" by (simp add: sample_servers_def)
  have "''l'' \<in> set (addrList ?it)" "length ?it < maxRetries" by (simp_all add: addrList_def maxRetries_def)
  from get_reaches_leader[OF s l this, of "''k''"] show ?thesis using s by (simp add: sample_leader_holds)
qed

text \<open>
  A server that does not lead and knows no leader answers a read with an empty hint and no value,
  which the client takes for an answer: whatever the other servers hold, \<open>doGet\<close> prints that the key is
  not found and makes no further attempt.
\<close>

lemma get_not_found_without_leader:
  assumes "addrList it = a # rest" "servers a = Some f" "\<not> IsLeader (srv_node f)" "LeaderID (srv_node f) = ''''"
  shows "doGet (get_rpc servers key) it = PrintNotFound"
  using assms by (simp add: doGet_def get_loop.simps get_rpc_def srv_Get_def ReadValue_def leaderHintAddr_def maxRetries_def)

lemma get_not_found_without_leader_witness:
  "IsLeader (srv_node sample_leader) \<and> Engine_Get ''k'' (sm_engine (srv_sm sample_leader)) = Some [7]
    \<and> sample_servers '''' ''l'' = Some sample_leader
    \<and> doGet (get_rpc (sample_servers '''') ''k'') [(''n2'', ''f''), (''n1'', ''l'')] = PrintNotFound"
proof -
  have "doGet (get_rpc (sample_servers '''') ''k'') [(''n2'', ''f''), (''n1'', ''l'')] = PrintNotFound"
    by (rule get_not_found_without_leader[of _ "''f''" "[''l'']" _ "sample_follower ''''"])
      (simp_all add: addrList_def sample_servers_def sample_follower_def sample_srv_def IsLeader_def LeaderID_def)
  then show ?thesis
    by (simp add: sample_leader_holds sample_servers_def) (simp add: sample_leader_def sample_srv_def IsLeader_def)
qed

end
