(* ===== verification/KV_Threads.thy ===== *)
theory KV_Threads
  imports KV_Server KV_RaftProps
begin

text \<open>
  The goroutines of one server process and what they wait for. \<open>n.mu\<close> of \<open>raft/node.go\<close> is held by
  every handler, also while it sends on \<open>ApplyCh\<close>, whose buffer holds 4096 messages; \<open>sm.mu\<close> of
  \<open>server/statemachine.go\<close> is held by \<open>ProposeWrite\<close> while it calls \<open>Propose\<close>, and by the apply loop
  while it applies a message. A critical section updates the node in one step and then sends what it
  has to send, one message a step; no other goroutine sees the node in between. The list \<open>ApplyCh\<close>
  of the node holds all messages in the order they are sent, and \<open>th_sent\<close> says how many of them
  have been put into the channel. Stopping is not a step: \<open>Stop\<close> of the server comes to closing
  \<open>n.stopCh\<close>, which would end a send, only after the calls in progress have returned.
\<close>

section \<open>Goroutines and locks\<close>

definition applyChCap :: nat where
  "applyChCap = 4096"

text \<open>Who holds \<open>n.mu\<close>; who holds \<open>sm.mu\<close> between two steps; where the apply loop is.\<close>

datatype node_lock = NodeFree | NodeHandler | NodeWriter

datatype sm_lock = SmFree | SmWaits Command | SmSends

datatype loop_state = LoopReady | LoopApply ApplyMsg | LoopSnapshot LogEntry

record ('s, 'conn) threads =
  th_srv :: "('s, 'conn) KVServer"
  th_sent :: nat
  th_nmu :: node_lock
  th_smmu :: sm_lock
  th_loop :: loop_state

text \<open>What the apply loop has received: what it has applied, and the message in its hands.\<close>

definition taken :: "('s, 'conn) threads \<Rightarrow> nat" where
  "taken t = srv_consumed (th_srv t) + (case th_loop t of LoopApply msg \<Rightarrow> 1 | _ \<Rightarrow> 0)"

abbreviation produced :: "('s, 'conn) threads \<Rightarrow> ApplyMsg list" where
  "produced t \<equiv> ApplyCh (srv_node (th_srv t))"

text \<open>The sections of \<open>raft/node.go\<close> that run with \<open>n.mu\<close> held, other than \<open>Propose\<close> and \<open>CompactLog\<close>.\<close>

inductive node_section :: "'s PersistentState \<Rightarrow> 's Node \<Rightarrow> 's Node \<Rightarrow> bool" for ps n where
  sec_read: "node_section ps n n"
| sec_vote: "node_section ps n (snd (HandleRequestVote ps vreq n))"
| sec_append: "node_section ps n (snd (HandleAppendEntries ps areq n))"
| sec_install: "node_section ps n (snd (HandleInstallSnapshot ps sreq n))"
| sec_election: "node_section ps n (run_election_tick ps n)"
| sec_heartbeat: "node_section ps n (run_heartbeat_tick n)"
| sec_vote_reply: "node_section ps n (vote_reply ps term vresp n)"
| sec_append_reply: "node_section ps n (replicate_finish ps peer areq aresp n)"
| sec_snapshot_reply: "node_section ps n (snd (snapshot_reply ps peer tr done sresp n))"

definition snapshot_due :: "LogEntry \<Rightarrow> StateMachine \<Rightarrow> bool" where
  "snapshot_due entry sm \<longleftrightarrow> sm_snapshotInterval sm > 0 \<and> le_index entry mod sm_snapshotInterval sm = 0"

text \<open>The part of \<open>dispatch\<close> that holds \<open>sm.mu\<close>.\<close>

definition locked_apply :: "disk \<Rightarrow> ApplyMsg \<Rightarrow> ('s, 'conn) threads \<Rightarrow> ('s, 'conn) threads" where
  "locked_apply dk msg t =
     (let s = th_srv t;
          sm1 = (case msg of CommandMsg entry \<Rightarrow> sm_apply Command_Unmarshal entry (srv_sm s)
                 | SnapshotMsg data idx term \<Rightarrow> applySnapshot dk data idx (srv_sm s));
          next = (case msg of CommandMsg entry \<Rightarrow> if snapshot_due entry sm1 then LoopSnapshot entry else LoopReady
                  | SnapshotMsg data idx term \<Rightarrow> LoopReady)
      in t\<lparr>th_srv := s\<lparr>srv_sm := sm1, srv_consumed := srv_consumed s + 1\<rparr>, th_loop := next\<rparr>)"

definition locked_snapshot :: "'s PersistentState \<Rightarrow> LogEntry \<Rightarrow> ('s, 'conn) threads \<Rightarrow> ('s, 'conn) threads" where
  "locked_snapshot ps entry t =
     (let s = th_srv t
      in t\<lparr>th_srv := s\<lparr>srv_node := maybeSnapshot ps (le_index entry) (le_term entry) (srv_sm s) (srv_node s)\<rparr>,
           th_loop := LoopReady\<rparr>)"

text \<open>
  The steps a process takes to finish what it has begun: a send, which needs room in the channel,
  the release of the locks, and the two halves of a turn of the apply loop.
\<close>

inductive drain_step :: "disk \<Rightarrow> ('s, 'conn) threads \<Rightarrow> ('s, 'conn) threads \<Rightarrow> bool" for dk t where
  send_msg: "th_nmu t \<noteq> NodeFree \<Longrightarrow> th_sent t < length (produced t) \<Longrightarrow> th_sent t - taken t < applyChCap \<Longrightarrow>
    drain_step dk t (t\<lparr>th_sent := Suc (th_sent t)\<rparr>)"
| leave: "th_nmu t = NodeHandler \<Longrightarrow> th_sent t = length (produced t) \<Longrightarrow> drain_step dk t (t\<lparr>th_nmu := NodeFree\<rparr>)"
| write_unlock: "th_smmu t = SmSends \<Longrightarrow> th_sent t = length (produced t) \<Longrightarrow>
    drain_step dk t (t\<lparr>th_nmu := NodeFree, th_smmu := SmFree\<rparr>)"
| receive: "th_loop t = LoopReady \<Longrightarrow> taken t < th_sent t \<Longrightarrow>
    drain_step dk t (t\<lparr>th_loop := LoopApply (produced t ! taken t)\<rparr>)"
| apply_msg: "th_loop t = LoopApply msg \<Longrightarrow> th_smmu t = SmFree \<Longrightarrow> drain_step dk t (locked_apply dk msg t)"

inductive thread_step :: "disk \<Rightarrow> 's PersistentState \<Rightarrow> ('s, 'conn) threads \<Rightarrow> ('s, 'conn) threads \<Rightarrow> bool"
  for dk ps t where
  drain: "drain_step dk t t' \<Longrightarrow> thread_step dk ps t t'"
| enter: "th_nmu t = NodeFree \<Longrightarrow> node_section ps (srv_node (th_srv t)) n \<Longrightarrow>
    thread_step dk ps t (t\<lparr>th_srv := (th_srv t)\<lparr>srv_node := n\<rparr>, th_nmu := NodeHandler\<rparr>)"
| write_lock: "th_smmu t = SmFree \<Longrightarrow> thread_step dk ps t (t\<lparr>th_smmu := SmWaits cmd\<rparr>)"
| write_propose: "th_smmu t = SmWaits cmd \<Longrightarrow> th_nmu t = NodeFree \<Longrightarrow>
    thread_step dk ps t (t\<lparr>th_srv := snd (write_begin ps cmd (th_srv t)), th_nmu := NodeWriter, th_smmu := SmSends\<rparr>)"
| take_snapshot: "th_loop t = LoopSnapshot entry \<Longrightarrow> th_nmu t = NodeFree \<Longrightarrow> thread_step dk ps t (locked_snapshot ps entry t)"

inductive_simps drain_step_simps: "drain_step dk t t'"
inductive_simps thread_step_simps: "thread_step dk ps t t'"

text \<open>Nothing is locked, and everything sent has been applied.\<close>

definition idle :: "('s, 'conn) threads \<Rightarrow> bool" where
  "idle t \<longleftrightarrow> th_nmu t = NodeFree \<and> th_smmu t = SmFree \<and> th_loop t = LoopReady
     \<and> th_sent t = length (produced t) \<and> srv_consumed (th_srv t) = length (produced t)"

section \<open>The channel\<close>

text \<open>Critical sections only add messages at the end.\<close>

definition adds :: "'s Node \<Rightarrow> 's Node \<Rightarrow> bool" where
  "adds n n' \<longleftrightarrow> (\<exists>ms. ApplyCh n' = ApplyCh n @ ms)"

lemma adds_same: "ApplyCh n' = ApplyCh n \<Longrightarrow> adds n n'" by (simp add: adds_def)

lemma adds_advanceCommitTo: "ApplyCh n' = ApplyCh n \<Longrightarrow> adds n (advanceCommitTo i n')"
  by (simp add: adds_def advanceCommitTo_def Let_def)

lemma adds_maybeAdvanceCommit:
  assumes "ApplyCh n' = ApplyCh n" shows "adds n (maybeAdvanceCommit n')"
proof -
  have "adds n (advance_loop i n')" for i
    by (induction i) (auto simp: Let_def assms adds_same adds_advanceCommitTo split: option.split)
  then show ?thesis by (simp add: maybeAdvanceCommit_def)
qed

lemma applyCh_kept [simp]:
  "ApplyCh (becomeFollower ps term n) = ApplyCh n" "ApplyCh (startElection ps n) = ApplyCh n"
  by (simp_all add: becomeFollower_def startElection_def becomeLeader_def sendHeartbeats_def resetHeartbeatTimer_def
      resetElectionTimer_def store_def Let_def)

lemma install_adds: "ApplyCh n = ApplyCh m \<Longrightarrow> adds m (snd (install_snapshot ps rs n))"
  by (simp add: install_snapshot_def adds_def store_def Let_def)

lemma accept_adds: "ApplyCh n = ApplyCh m \<Longrightarrow> adds m (accept_entries ps req n)"
  by (auto simp: accept_entries_def Let_def store_def intro: adds_same adds_advanceCommitTo)

lemma section_adds: "node_section ps n n' \<Longrightarrow> adds n n'"
proof (induction rule: node_section.induct)
  case (sec_install sreq)
  then show ?case
    by (auto simp: HandleInstallSnapshot_def Let_def case_prod_unfold install_adds intro: adds_same split: option.split)
next
  case (sec_append areq)
  then show ?case by (auto simp: HandleAppendEntries_def Let_def intro: adds_same accept_adds split: option.split)
next
  case (sec_vote vreq)
  then show ?case by (auto simp: HandleRequestVote_def Let_def store_def resetElectionTimer_def intro!: adds_same)
next
  case (sec_append_reply peer areq aresp)
  then show ?case
    by (auto simp: replicate_finish_def Let_def intro!: adds_same adds_maybeAdvanceCommit)
qed (auto intro!: adds_same simp: run_election_tick_def run_heartbeat_tick_def vote_reply_def snapshot_reply_def Let_def
    becomeLeader_def sendHeartbeats_def resetHeartbeatTimer_def)

lemma Propose_adds: "adds n (snd (Propose ps data n))"
  by (auto simp: Propose_def Let_def store_def intro!: adds_same adds_maybeAdvanceCommit)

lemma write_begin_parts:
  "adds (srv_node s) (srv_node (snd (write_begin ps cmd s)))"
  "srv_consumed (snd (write_begin ps cmd s)) = srv_consumed s"
  using Propose_adds[of "srv_node s" ps "Command_Marshal cmd"]
  by (auto simp: write_begin_def ProposeWrite_def Let_def case_prod_unfold)

lemma maybeSnapshot_applyCh [simp]: "ApplyCh (maybeSnapshot ps idx term sm n) = ApplyCh n"
  by (simp add: maybeSnapshot_def CompactLog_def store_def Let_def split: sum.split)

section \<open>What the state machine has seen\<close>

text \<open>The state machine without the writes that wait for it.\<close>

definition sm_core :: "StateMachine \<Rightarrow> Engine \<times> (string \<Rightarrow> nat option) \<times> nat \<times> changeBroadcaster \<times> nat" where
  "sm_core sm = (sm_engine sm, sm_lastSeq sm, sm_lastApplied sm, sm_broadcaster sm, sm_snapshotInterval sm)"

lemma notifyPending_core: "sm_core (notifyPending i r sm) = sm_core sm"
  by (simp add: sm_core_def notifyPending_def split: option.split)

lemma dispatch_core:
  assumes "sm_core sm = sm_core sm'" "sm_snapshotInterval sm' = 0"
  shows "sm_core (fst (dispatch dec dk ps m (sm, n))) = sm_core (fst (dispatch dec dk ps' m (sm', n')))"
proof (cases m)
  case (CommandMsg entry)
  have "sm_core (sm_apply dec entry sm) = sm_core (sm_apply dec entry sm')"
    using assms(1) unfolding sm_apply_def Let_def
    by (auto simp: notifyPending_core case_prod_unfold split: option.split) (simp_all add: sm_core_def)
  then show ?thesis by (simp add: CommandMsg Let_def)
next
  case (SnapshotMsg data idx tm)
  then show ?thesis using assms by (auto simp: applySnapshot_def sm_core_def Let_def split: sum.split)
qed

lemma dispatch_interval: "sm_snapshotInterval (fst (dispatch dec dk ps m (sm, n))) = sm_snapshotInterval sm"
  by (cases m) (auto simp: sm_apply_interval applySnapshot_def Let_def split: sum.split)

lemma write_begin_core: "sm_core (srv_sm (snd (write_begin ps cmd s))) = sm_core (srv_sm s)"
  by (auto simp: write_begin_def ProposeWrite_def sm_core_def Let_def case_prod_unfold)

lemma locked_apply_dispatch:
  assumes "sm_snapshotInterval (srv_sm (th_srv t)) = 0"
  shows "locked_apply dk msg t = t\<lparr>th_srv := (th_srv t)\<lparr>srv_sm := fst (dispatch Command_Unmarshal dk ps msg (srv_sm (th_srv t), n)),
    srv_consumed := srv_consumed (th_srv t) + 1\<rparr>, th_loop := LoopReady\<rparr>"
  using assms by (cases msg) (simp_all add: locked_apply_def snapshot_due_def sm_apply_interval Let_def)

text \<open>The state machine after the messages \<open>ms\<close>, from the one of \<open>t\<close>.\<close>

abbreviation after_messages :: "disk \<Rightarrow> 's PersistentState \<Rightarrow> ApplyMsg list \<Rightarrow> ('s, 'conn) threads \<Rightarrow> StateMachine" where
  "after_messages dk ps ms t \<equiv> fst (applyLoop Command_Unmarshal dk ps ms (srv_sm (th_srv t), srv_node (th_srv t)))"

definition th_inv :: "disk \<Rightarrow> 's PersistentState \<Rightarrow> ('s, 'conn) threads \<Rightarrow> ('s, 'conn) threads \<Rightarrow> bool" where
  "th_inv dk ps t0 t \<longleftrightarrow> (th_nmu t = NodeWriter \<longleftrightarrow> th_smmu t = SmSends) \<and> (th_nmu t = NodeFree \<longrightarrow> th_sent t = length (produced t))
     \<and> taken t \<le> th_sent t \<and> th_sent t \<le> length (produced t) \<and> th_sent t - taken t \<le> applyChCap
     \<and> (\<forall>msg. th_loop t = LoopApply msg \<longrightarrow> msg = produced t ! srv_consumed (th_srv t))
     \<and> sm_snapshotInterval (srv_sm (th_srv t)) = 0 \<and> (\<forall>e. th_loop t \<noteq> LoopSnapshot e)
     \<and> length (produced t0) \<le> srv_consumed (th_srv t)
     \<and> sm_core (srv_sm (th_srv t))
         = sm_core (after_messages dk ps (drop (length (produced t0)) (take (srv_consumed (th_srv t)) (produced t))) t0)"

lemma th_inv_grow:
  assumes "th_inv dk ps t0 t" and a: "adds (srv_node (th_srv t)) (srv_node s)" and c: "srv_consumed s = srv_consumed (th_srv t)"
    and sm: "sm_core (srv_sm s) = sm_core (srv_sm (th_srv t))" and l: "l \<noteq> NodeFree" "l = NodeWriter \<longleftrightarrow> w = SmSends"
  shows "th_inv dk ps t0 (t\<lparr>th_srv := s, th_nmu := l, th_smmu := w\<rparr>)"
proof -
  obtain ms where ms: "ApplyCh (srv_node s) = produced t @ ms" using a by (auto simp: adds_def)
  have cl: "srv_consumed (th_srv t) \<le> taken t" by (simp add: taken_def)
  have tk: "taken (t\<lparr>th_srv := s, th_nmu := l, th_smmu := w\<rparr>) = taken t" by (simp add: taken_def c)
  have "srv_consumed (th_srv t) < length (produced t)" if "th_loop t = LoopApply msg" for msg
    using assms(1) that by (auto simp: th_inv_def taken_def)
  then show ?thesis
    using assms(1) cl l sm unfolding th_inv_def tk by (auto simp: ms c nth_append) (auto simp: sm_core_def)
qed

lemma th_inv_apply:
  assumes i: "th_inv dk ps t0 t" and m: "th_loop t = LoopApply msg"
  shows "th_inv dk ps t0 (locked_apply dk msg t)"
proof -
  let ?c = "srv_consumed (th_srv t)" let ?n0 = "length (produced t0)"
  define d where "d = fst (dispatch Command_Unmarshal dk ps msg (srv_sm (th_srv t), srv_node (th_srv t)))"
  have z: "sm_snapshotInterval (srv_sm (th_srv t)) = 0" using i by (simp add: th_inv_def)
  note l = locked_apply_dispatch[OF z, of dk msg ps "srv_node (th_srv t)", folded d_def]
  have c: "?c < length (produced t)" "?n0 \<le> ?c" "msg = produced t ! ?c" using i m by (auto simp: th_inv_def taken_def)
  define before where "before = applyLoop Command_Unmarshal dk ps (drop ?n0 (take ?c (produced t))) (srv_sm (th_srv t0), srv_node (th_srv t0))"
  have core: "sm_core (srv_sm (th_srv t)) = sm_core (fst before)" using i by (simp add: th_inv_def before_def)
  then have "sm_snapshotInterval (fst before) = 0" using z by (simp add: sm_core_def)
  from dispatch_core[OF core this, of Command_Unmarshal dk ps msg "srv_node (th_srv t)" ps "snd before"]
  have "sm_core d = sm_core (fst (dispatch Command_Unmarshal dk ps msg before))" by (simp add: d_def)
  also have "\<dots> = sm_core (after_messages dk ps (drop ?n0 (take (Suc ?c) (produced t))) t0)"
    using c by (simp add: take_Suc_conv_app_nth applyLoop_def before_def)
  finally have "sm_core d = \<dots>" .
  moreover have "sm_snapshotInterval d = 0" by (simp add: d_def dispatch_interval z)
  ultimately show ?thesis using i m unfolding l th_inv_def by (auto simp: taken_def)
qed

lemma th_inv_drain:
  assumes i: "th_inv dk ps t0 t" and "drain_step dk t t'"
  shows "th_inv dk ps t0 t'"
  using assms(2)
proof cases
  case send_msg
  then show ?thesis using i by (auto simp: th_inv_def taken_def split: loop_state.splits)
next
  case leave
  then show ?thesis using i by (auto simp: th_inv_def taken_def split: loop_state.splits)
next
  case write_unlock
  then show ?thesis using i by (auto simp: th_inv_def taken_def split: loop_state.splits)
next
  case receive
  then show ?thesis using i by (auto simp: th_inv_def taken_def split: loop_state.splits)
next
  case (apply_msg msg)
  then show ?thesis using th_inv_apply[OF i] by simp
qed

lemma th_inv_step:
  assumes i: "th_inv dk ps t0 t" and "thread_step dk ps t t'"
  shows "th_inv dk ps t0 t'"
  using assms(2)
proof cases
  case drain
  then show ?thesis using th_inv_drain[OF i] by simp
next
  case (enter n)
  then have w: "NodeHandler = NodeWriter \<longleftrightarrow> th_smmu t = SmSends" using i by (auto simp: th_inv_def)
  have e: "t' = t\<lparr>th_srv := (th_srv t)\<lparr>srv_node := n\<rparr>, th_nmu := NodeHandler, th_smmu := th_smmu t\<rparr>" using enter(1) by simp
  show ?thesis unfolding e
    by (rule th_inv_grow[OF i]) (use section_adds[OF enter(3)] w in simp_all)
next
  case (write_lock cmd)
  then show ?thesis using i by (auto simp: th_inv_def taken_def split: loop_state.splits)
next
  case (write_propose cmd)
  show ?thesis unfolding write_propose(1)
    by (rule th_inv_grow[OF i]) (simp_all add: write_begin_parts write_begin_core)
next
  case (take_snapshot entry)
  then show ?thesis using i by (auto simp: th_inv_def)
qed

lemma th_inv_init:
  assumes "idle t" "sm_snapshotInterval (srv_sm (th_srv t)) = 0"
  shows "th_inv dk ps t t"
  using assms by (simp add: th_inv_def idle_def taken_def applyLoop_def)

lemma th_inv_run:
  assumes "idle t0" "sm_snapshotInterval (srv_sm (th_srv t0)) = 0" "(thread_step dk ps)\<^sup>*\<^sup>* t0 t"
  shows "th_inv dk ps t0 t"
  using assms(3) by (induction rule: rtranclp_induct) (use th_inv_init[OF assms(1,2)] th_inv_step in blast)+

section \<open>Deadlock\<close>

text \<open>
  Exactly when no goroutine can go on: the channel is full, the holder of \<open>n.mu\<close> has more to send,
  and the apply loop waits for a lock that a write holds.
\<close>

lemma stuck_iff:
  assumes "th_sent t \<le> length (produced t)" "th_nmu t = NodeWriter \<longleftrightarrow> th_smmu t = SmSends" "th_sent t - taken t \<le> applyChCap"
  shows "(\<forall>t'. \<not> thread_step dk ps t t') \<longleftrightarrow> th_nmu t \<noteq> NodeFree \<and> th_sent t < length (produced t)
    \<and> th_sent t - taken t = applyChCap \<and> th_smmu t \<noteq> SmFree \<and> th_loop t \<noteq> LoopReady"
    (is "?stuck \<longleftrightarrow> ?dead")
proof
  assume st: ?stuck
  have n: "th_nmu t \<noteq> NodeFree" using st enter[OF _ sec_read] by blast
  have m: "th_smmu t \<noteq> SmFree" using st write_lock by blast
  have d: "\<not> drain_step dk t t'" for t' using st drain by blast
  have s: "th_sent t < length (produced t)"
  proof (rule ccontr)
    assume "\<not> th_sent t < length (produced t)"
    then have "th_sent t = length (produced t)" using assms(1) by simp
    then show False using n assms(2) d leave[of t dk] write_unlock[of t dk] by (cases "th_nmu t") blast+
  qed
  have f: "th_sent t - taken t = applyChCap" using d send_msg[OF n s] assms(3) by force
  then have "taken t < th_sent t" by (simp add: applyChCap_def)
  then have "th_loop t \<noteq> LoopReady" using d receive[of t dk] by blast
  then show ?dead using n m s f by blast
qed (auto simp: thread_step_simps drain_step_simps)

lemma sends:
  "th_nmu t \<noteq> NodeFree \<Longrightarrow> th_sent t + k \<le> length (produced t) \<Longrightarrow> th_sent t + k \<le> taken t + applyChCap \<Longrightarrow>
   (thread_step dk ps)\<^sup>*\<^sup>* t (t\<lparr>th_sent := th_sent t + k\<rparr>)"
proof (induction k)
  case (Suc k)
  let ?u = "t\<lparr>th_sent := th_sent t + k\<rparr>"
  have "drain_step dk ?u (?u\<lparr>th_sent := Suc (th_sent ?u)\<rparr>)"
  proof (rule send_msg)
    have "taken ?u = taken t" "0 < applyChCap" by (simp_all add: taken_def applyChCap_def)
    then show "th_sent ?u - taken ?u < applyChCap" using Suc.prems(3) by simp
  qed (use Suc.prems in simp_all)
  then have "thread_step dk ps ?u (t\<lparr>th_sent := th_sent t + Suc k\<rparr>)" by (auto intro: drain)
  moreover have "(thread_step dk ps)\<^sup>*\<^sup>* t ?u" using Suc by simp
  ultimately show ?case by (rule rtranclp.rtrancl_into_rtrancl[rotated])
qed simp

section \<open>Draining the channel\<close>

definition drain_measure :: "('s, 'conn) threads \<Rightarrow> nat" where
  "drain_measure t = (length (produced t) - th_sent t) + (length (produced t) - taken t)
     + (length (produced t) - srv_consumed (th_srv t)) + (if th_nmu t = NodeFree then 0 else 1)"

lemma drain_progress:
  assumes i: "th_inv dk ps t0 t" and "th_smmu t = SmFree" and "drain_step dk t t'"
  shows "th_smmu t' = SmFree \<and> srv_node (th_srv t') = srv_node (th_srv t) \<and> drain_measure t = Suc (drain_measure t')"
  using assms(3)
proof cases
  case send_msg
  then show ?thesis using assms(2) by (simp add: drain_measure_def taken_def)
next
  case leave
  then show ?thesis using assms(2) by (simp add: drain_measure_def taken_def)
next
  case write_unlock
  then show ?thesis using assms(2) by simp
next
  case receive
  moreover have "srv_consumed (th_srv t) < length (produced t)" using receive i by (simp add: th_inv_def taken_def)
  ultimately show ?thesis using assms(2) by (simp add: drain_measure_def taken_def)
next
  case (apply_msg msg)
  have z: "sm_snapshotInterval (srv_sm (th_srv t)) = 0" using i by (simp add: th_inv_def)
  have "srv_consumed (th_srv t) < length (produced t)" using i apply_msg(2) by (auto simp: th_inv_def taken_def)
  then show ?thesis using assms(2) apply_msg
    unfolding locked_apply_dispatch[OF z, of dk msg ps "srv_node (th_srv t)"] by (simp add: drain_measure_def taken_def)
qed

lemma drain_power:
  assumes "(drain_step dk ^^ k) t t'" "th_inv dk ps t0 t" "th_smmu t = SmFree"
  shows "th_inv dk ps t0 t' \<and> th_smmu t' = SmFree \<and> srv_node (th_srv t') = srv_node (th_srv t)
    \<and> drain_measure t = k + drain_measure t'"
  using assms(1)
proof (induction k arbitrary: t')
  case (Suc k)
  then obtain u where u: "(drain_step dk ^^ k) t u" "drain_step dk u t'" by auto
  then show ?case using Suc.IH[OF u(1)] th_inv_drain[of dk ps t0 u t'] drain_progress[of dk ps t0 u t'] by simp
qed (use assms in simp)

lemma drained_iff:
  assumes i: "th_inv dk ps t0 t" and f: "th_smmu t = SmFree"
  shows "(\<forall>t'. \<not> drain_step dk t t') \<longleftrightarrow> drain_measure t = 0"
proof
  assume d: "\<forall>t'. \<not> drain_step dk t t'"
  have l: "th_loop t = LoopReady" using i d apply_msg[of t _ dk] f by (cases "th_loop t") (auto simp: th_inv_def)
  have s: "taken t = th_sent t" using i d receive[OF l, of dk] unfolding th_inv_def by (meson le_neq_implies_less)
  have "th_nmu t = NodeFree"
  proof (rule ccontr)
    assume n: "th_nmu t \<noteq> NodeFree"
    have "\<not> th_sent t < length (produced t)" using d send_msg[OF n, of dk] s by (auto simp: applyChCap_def)
    then have "th_sent t = length (produced t)" using i by (simp add: th_inv_def)
    then show False using i d leave[of t dk] n f by (cases "th_nmu t") (auto simp: th_inv_def)
  qed
  then show "drain_measure t = 0" using i l s by (auto simp: drain_measure_def th_inv_def taken_def)
next
  assume "drain_measure t = 0"
  then show "\<forall>t'. \<not> drain_step dk t t'" using drain_progress[OF i f] by fastforce
qed

lemma drain_finishes:
  "th_inv dk ps t0 t \<Longrightarrow> th_smmu t = SmFree \<Longrightarrow> \<exists>t'. (drain_step dk ^^ drain_measure t) t t'"
proof (induction "drain_measure t" arbitrary: t)
  case (Suc m)
  then obtain u where u: "drain_step dk t u" using drained_iff[of dk ps t0 t] by auto
  note p = drain_progress[OF Suc.prems u]
  then have "\<exists>t'. (drain_step dk ^^ drain_measure u) u t'"
    using Suc.hyps(1)[of u] Suc.hyps(2) th_inv_drain[OF Suc.prems(1) u] by simp
  then show ?case using p u by (metis relpowp_Suc_I2)
qed auto

lemma drained:
  assumes "th_inv dk ps t0 t" "drain_measure t = 0"
  shows "th_nmu t = NodeFree \<and> th_loop t = LoopReady \<and> srv_consumed (th_srv t) = length (produced t)
    \<and> sm_core (srv_sm (th_srv t)) = sm_core (after_messages dk ps (drop (length (produced t0)) (produced t)) t0)"
  using assms by (cases "th_loop t") (auto simp: th_inv_def drain_measure_def taken_def split: if_splits)

section \<open>A node that catches up\<close>

text \<open>
  A follower that has started again with \<open>k\<close> entries in its log knows of none that is committed; the
  first heartbeat of the leader commits them all.
\<close>

definition sample_restarted_node :: "nat \<Rightarrow> memState Node" where
  "sample_restarted_node k =
     (NewNode ''b'' [(''a'', ''a''), (''c'', ''c'')] newMemState)
     \<lparr>currentTerm := 1, log := sentinel 0 0 # map (\<lambda>i. sample_entry i 1) [1..<Suc k]\<rparr>"

definition sample_threads :: "nat \<Rightarrow> (memState, unit) threads" where
  "sample_threads k =
     \<lparr>th_srv = \<lparr>srv_cfg = \<lparr>cfg_NodeID = ''b'', cfg_ListenAddr = ''b'', cfg_Peers = [(''a'', ''a''), (''c'', ''c'')], cfg_DataDir = '''',
         cfg_MetricsAddr = ''''\<rparr>, srv_node = sample_restarted_node k, srv_sm = NewStateMachine 0 sample_engine,
         srv_transport = NewGRPCTransport [(''a'', ''a''), (''c'', ''c'')], srv_consumed = 0, srv_serving = True, srv_inflight = [],
         srv_watchers = [], srv_stopCh = False\<rparr>,
      th_sent = 0, th_nmu = NodeFree, th_smmu = SmFree, th_loop = LoopReady\<rparr>"

definition sample_heartbeat :: "nat \<Rightarrow> AppendEntriesRequest" where
  "sample_heartbeat k = (sample_append 1 0 0 [])\<lparr>ae_LeaderCommit := k\<rparr>"

lemma sample_threads_idle: "idle (sample_threads k)" "sm_snapshotInterval (srv_sm (th_srv (sample_threads k))) = 0"
  by (simp_all add: idle_def sample_threads_def sample_restarted_node_def NewNode_def NewStateMachine_def)

lemma sample_catch_up:
  "length (ApplyCh (snd (HandleAppendEntries memState_ops (sample_heartbeat k) (srv_node (th_srv (sample_threads k)))))) = k"
proof -
  define n where "n = (sample_restarted_node k)\<lparr>role := RoleFollower, electionTimer := True, leaderID := ''a''\<rparr>"
  have n: "log n \<noteq> []" "lastIncludedIndex n = 0" "commitIndex n = 0" "ApplyCh n = []" "lastLogIndex n = k"
    by (simp_all add: n_def sample_restarted_node_def NewNode_def lastLogIndex_def)
  have f: "follow_leader memState_ops 1 ''a'' (sample_restarted_node k) = n"
    by (simp add: follow_leader_def resetElectionTimer_def n_def sample_restarted_node_def NewNode_def)
  have "\<not> 1 < currentTerm (sample_restarted_node k)" by (simp add: sample_restarted_node_def)
  moreover have h: "ae_Term (sample_heartbeat k) = 1" "ae_LeaderId (sample_heartbeat k) = ''a''" "ae_PrevLogIndex (sample_heartbeat k) = 0"
    "ae_Entries (sample_heartbeat k) = []" "ae_LeaderCommit (sample_heartbeat k) = k"
    by (simp_all add: sample_heartbeat_def sample_append_def)
  moreover have "accept_entries memState_ops (sample_heartbeat k) n = (if k > 0 then advanceCommitTo k n else n)"
    using h n by (simp add: accept_entries_def)
  ultimately have "snd (HandleAppendEntries memState_ops (sample_heartbeat k) (sample_restarted_node k)) = (if k > 0 then advanceCommitTo k n else n)"
    using f by (simp add: HandleAppendEntries_def check_prev_def Let_def)
  moreover have "length (ApplyCh (advanceCommitTo k n)) = k"
    using delivered_entries[of n k] n by (simp del: upt_Suc)
  ultimately show ?thesis using n(4) by (simp add: sample_threads_def)
qed

lemma sample_threads_fields: "produced (sample_threads k) = []" "srv_sm (th_srv (sample_threads k)) = NewStateMachine 0 sample_engine"
  by (simp_all add: sample_threads_def sample_restarted_node_def NewNode_def)

lemma sample_entered:
  obtains u where "(thread_step DiskOk memState_ops)\<^sup>*\<^sup>* (sample_threads k) u" "th_nmu u = NodeHandler" "th_smmu u = SmFree"
    "length (produced u) = k" "th_sent u = 0" "taken u = 0" "srv_consumed (th_srv u) = 0"
proof -
  let ?t = "sample_threads k"
  let ?u = "?t\<lparr>th_srv := (th_srv ?t)\<lparr>srv_node := snd (HandleAppendEntries memState_ops (sample_heartbeat k) (srv_node (th_srv ?t)))\<rparr>,
    th_nmu := NodeHandler\<rparr>"
  have i: "th_nmu ?t = NodeFree" "th_smmu ?t = SmFree" "th_loop ?t = LoopReady" "th_sent ?t = 0" "srv_consumed (th_srv ?t) = 0"
    using sample_threads_idle(1)[of k] by (simp_all add: idle_def sample_threads_fields)
  show ?thesis
    by (rule that[of ?u, OF r_into_rtranclp, OF enter[OF i(1) sec_append]])
      (use i sample_catch_up[of k] in \<open>simp_all add: taken_def\<close>)
qed

section \<open>Properties\<close>



text \<open>
  C28: a full channel can stop the server for good. When a critical section has at least 4098 messages
  to send, as the first heartbeat to a node that has started again with that many entries does, and a
  client writes at that time, whether this node leads or not, the server can reach a state in which
  the handler waits for room in the channel with \<open>n.mu\<close> held, the write waits for \<open>n.mu\<close> with
  \<open>sm.mu\<close> held, and the apply loop waits for \<open>sm.mu\<close>: none of them takes a step, and no handler,
  timer, read or write after them gets a lock.
\<close>

theorem full_channel_deadlock:
  assumes "idle t" and "node_section ps (srv_node (th_srv t)) n" and "length (produced t) + 4098 \<le> length (ApplyCh n)"
  shows "\<exists>t'. (thread_step dk ps)\<^sup>*\<^sup>* t t' \<and> th_nmu t' = NodeHandler \<and> th_smmu t' = SmWaits cmd \<and> (\<forall>t''. \<not> thread_step dk ps t' t'')"
proof -
  let ?l = "length (produced t)"
  define u where "u = t\<lparr>th_srv := (th_srv t)\<lparr>srv_node := n\<rparr>, th_nmu := NodeHandler\<rparr>"
  define v where "v = u\<lparr>th_sent := Suc (th_sent u), th_loop := LoopApply (produced u ! ?l), th_smmu := SmWaits cmd\<rparr>"
  have i: "th_nmu t = NodeFree" "th_smmu t = SmFree" "th_loop t = LoopReady" "th_sent t = ?l" "srv_consumed (th_srv t) = ?l"
    using assms(1) by (simp_all add: idle_def)
  have u: "thread_step dk ps t u" unfolding u_def using enter[OF i(1) assms(2)] .
  have "taken (u\<lparr>th_sent := Suc (th_sent u)\<rparr>) = ?l" using i by (simp add: u_def taken_def)
  then have "drain_step dk (u\<lparr>th_sent := Suc (th_sent u)\<rparr>) (u\<lparr>th_sent := Suc (th_sent u), th_loop := LoopApply (produced u ! ?l)\<rparr>)"
    using receive[of "u\<lparr>th_sent := Suc (th_sent u)\<rparr>" dk] i by (simp add: u_def)
  moreover have "drain_step dk u (u\<lparr>th_sent := Suc (th_sent u)\<rparr>)"
    by (rule send_msg) (use i assms(3) in \<open>simp_all add: u_def taken_def applyChCap_def\<close>)
  moreover have "thread_step dk ps (u\<lparr>th_sent := Suc (th_sent u), th_loop := LoopApply (produced u ! ?l)\<rparr>) v"
    using write_lock[of "u\<lparr>th_sent := Suc (th_sent u), th_loop := LoopApply (produced u ! ?l)\<rparr>" dk ps cmd] i
    by (simp add: v_def u_def)
  ultimately have uv: "(thread_step dk ps)\<^sup>*\<^sup>* u v"
    by (meson drain converse_rtranclp_into_rtranclp r_into_rtranclp)
  have v: "th_nmu v = NodeHandler" "th_smmu v = SmWaits cmd" "th_sent v = Suc ?l" "taken v = Suc ?l" "produced v = ApplyCh n"
    "th_loop v \<noteq> LoopReady"
    using i by (simp_all add: v_def u_def taken_def)
  let ?w = "v\<lparr>th_sent := th_sent v + applyChCap\<rparr>"
  have "(thread_step dk ps)\<^sup>*\<^sup>* v ?w" using sends[of v applyChCap dk ps] v assms(3) by (simp add: applyChCap_def)
  then have "(thread_step dk ps)\<^sup>*\<^sup>* t ?w" using u uv by (meson converse_rtranclp_into_rtranclp rtranclp_trans)
  moreover have "taken ?w = taken v" by (simp add: taken_def)
  then have "\<forall>t''. \<not> thread_step dk ps ?w t''" using stuck_iff[of ?w dk ps] v assms(3) by (simp add: applyChCap_def)
  ultimately show ?thesis using v by (intro exI[of _ ?w]) simp
qed

theorem full_channel_deadlock_witness:
  "\<exists>t'. (thread_step DiskOk memState_ops)\<^sup>*\<^sup>* (sample_threads 4098) t' \<and> (\<forall>t''. \<not> thread_step DiskOk memState_ops t' t'')"
proof -
  have "length (produced (sample_threads 4098)) = 0" by (simp add: sample_threads_fields)
  then show ?thesis
    using full_channel_deadlock[OF sample_threads_idle(1) sec_append[of memState_ops _ "sample_heartbeat 4098"], of 4098 DiskOk
        "\<lparr>c_Op = ''put'', c_Key = ''k'', c_Value = [], c_ClientID = '''', c_SeqNum = 0\<rparr>"] sample_catch_up[of 4098] by auto
qed

text \<open>
  C11: without a write in the way the channel drains. From any state an idle server without snapshots
  reaches, in which no write holds \<open>sm.mu\<close>, and however much the holder of \<open>n.mu\<close> still has to send:
  every order in which the sends, the release of the lock and the turns of the apply loop are
  scheduled takes at most three steps per message and one more, it can only end when the lock is free
  and every message has been applied in order, and it does not change the node.
\<close>

theorem apply_channel_drains:
  assumes "idle t0" "sm_snapshotInterval (srv_sm (th_srv t0)) = 0" "(thread_step dk ps)\<^sup>*\<^sup>* t0 t" and "th_smmu t = SmFree"
  shows "(\<exists>k t'. (drain_step dk ^^ k) t t' \<and> (\<forall>t''. \<not> drain_step dk t' t''))
    \<and> (\<forall>k t'. (drain_step dk ^^ k) t t' \<longrightarrow>
         k \<le> 3 * (length (produced t) - srv_consumed (th_srv t)) + 1 \<and> srv_node (th_srv t') = srv_node (th_srv t)
         \<and> ((\<forall>t''. \<not> drain_step dk t' t'') \<longrightarrow> th_nmu t' = NodeFree \<and> srv_consumed (th_srv t') = length (produced t)
              \<and> sm_core (srv_sm (th_srv t')) = sm_core (fst (applyLoop Command_Unmarshal dk ps (drop (length (produced t0)) (produced t))
                  (srv_sm (th_srv t0), srv_node (th_srv t0))))))"
proof (intro conjI allI impI)
  note i = th_inv_run[OF assms(1-3)]
  obtain t' where "(drain_step dk ^^ drain_measure t) t t'" using drain_finishes[OF i assms(4)] by blast
  then show "\<exists>k t'. (drain_step dk ^^ k) t t' \<and> (\<forall>t''. \<not> drain_step dk t' t'')"
    using drain_power[OF _ i assms(4)] drained_iff by (metis add_cancel_right_right)
  fix k t' assume k: "(drain_step dk ^^ k) t t'"
  note p = drain_power[OF k i assms(4)]
  have "taken t \<ge> srv_consumed (th_srv t)" "th_sent t \<ge> taken t" using i by (simp_all add: taken_def th_inv_def)
  then have "length (produced t) - th_sent t \<le> length (produced t) - srv_consumed (th_srv t)"
    "length (produced t) - taken t \<le> length (produced t) - srv_consumed (th_srv t)" by linarith+
  then have "drain_measure t \<le> 3 * (length (produced t) - srv_consumed (th_srv t)) + 1" by (simp add: drain_measure_def)
  then show "k \<le> 3 * (length (produced t) - srv_consumed (th_srv t)) + 1" using p by linarith
  show n: "srv_node (th_srv t') = srv_node (th_srv t)" using p by blast
  assume "\<forall>t''. \<not> drain_step dk t' t''"
  then have "drain_measure t' = 0" using drained_iff p by blast
  from drained[OF _ this, of dk ps t0]
  show "th_nmu t' = NodeFree" "srv_consumed (th_srv t') = length (produced t)"
    "sm_core (srv_sm (th_srv t')) = sm_core (after_messages dk ps (drop (length (produced t0)) (produced t)) t0)"
    using p by simp_all
qed

theorem apply_channel_drains_witness:
  "\<exists>t t'. (thread_step DiskOk memState_ops)\<^sup>*\<^sup>* (sample_threads 5000) t \<and> srv_consumed (th_srv t) = 0
    \<and> (drain_step DiskOk)\<^sup>*\<^sup>* t t' \<and> srv_consumed (th_srv t') = 5000"
proof -
  obtain u where u: "(thread_step DiskOk memState_ops)\<^sup>*\<^sup>* (sample_threads 5000) u" "th_nmu u = NodeHandler" "th_smmu u = SmFree"
    "length (produced u) = 5000" "th_sent u = 0" "taken u = 0" "srv_consumed (th_srv u) = 0"
    by (rule sample_entered)
  obtain k t' where "(drain_step DiskOk ^^ k) u t'" "srv_consumed (th_srv t') = 5000"
    using apply_channel_drains[OF sample_threads_idle u(1,3)] u(4) by metis
  then show ?thesis using u(1,7) relpowp_imp_rtranclp by metis
qed

end
