(* ===== verification/KV_EngineCrash.thy ===== *)
theory KV_EngineCrash
  imports KV_EngineProps
begin

text \<open>
  What a crash leaves of an engine: the buffers are gone, the files stay, and \<open>Engine_Open\<close> reads
  them. A crash between two operations keeps a prefix of the writes; a crash while \<open>doCompaction\<close>
  removes the tables it has merged is looked at on its own, because the removal goes from the newest
  table to the oldest.
\<close>

section \<open>The tables without the buffers\<close>

definition drop_buffers :: "Engine \<Rightarrow> Engine" where
  "drop_buffers e = e\<lparr>en_active := NewMemtable, en_immutable := None\<rparr>"

definition drop_active :: "Engine \<Rightarrow> Engine" where
  "drop_active e = e\<lparr>en_active := NewMemtable\<rparr>"

abbreviation stored_view :: "Engine \<Rightarrow> string \<Rightarrow> bytes option" where
  "stored_view e \<equiv> engine_view (drop_buffers e)"

lemma drop_wf: "en_wf e \<Longrightarrow> en_wf (drop_buffers e)" "en_wf e \<Longrightarrow> en_wf (drop_active e)"
  by (simp_all add: en_wf_def drop_buffers_def drop_active_def NewMemtable_def mt_wf_def keys_sorted_def)

lemma drop_layers [simp]: "table_layers (drop_buffers e) = table_layers e" "table_layers (drop_active e) = table_layers e"
  by (simp_all add: table_layers_def drop_buffers_def drop_active_def)

lemma drop_seq [simp]: "en_sstableSeq (drop_buffers e) = en_sstableSeq e" "en_sstableSeq (drop_active e) = en_sstableSeq e"
  by (simp_all add: drop_buffers_def drop_active_def)

lemma stored_view_layers: "stored_view e k = live_value (newest_lookup (table_layers e) k)"
  by (simp add: engine_view_def mem_layers_def newest_lookup_append) (simp add: drop_buffers_def NewMemtable_def)

lemma reopen_stored:
  assumes "en_wf e" "en_clean e"
  shows "\<exists>e'. Engine_Open (en_dir e) = Inr e' \<and> en_open e' \<and> engine_view e' = stored_view e
    \<and> en_clean e' \<and> en_active e' = NewMemtable \<and> en_immutable e' = None"
proof -
  obtain e' where e: "Engine_Open (en_dir e) = Inr e'" "en_open e'" "table_layers e' = table_layers e"
    "en_active e' = NewMemtable" "en_immutable e' = None" "en_clean e'"
    using reopen[OF assms] by blast
  then have "drop_buffers e' = e'" by (simp add: drop_buffers_def)
  then have "engine_view e' k = stored_view e k" for k using stored_view_layers[of e' k] e(3) by (simp add: stored_view_layers)
  then show ?thesis using e by blast
qed

section \<open>Crash between operations\<close>

text \<open>
  Histories of writes and worker turns in which a table write that fails leaves no file: \<open>disk_clean\<close>.
\<close>

definition disk_clean :: "disk \<Rightarrow> bool" where
  "disk_clean dk \<longleftrightarrow> dk = DiskOk \<or> dk = DiskFail None"

inductive clean_history :: "Engine \<Rightarrow> kv_op list \<Rightarrow> Engine \<Rightarrow> bool" for e0 where
  clean_begin: "clean_history e0 [] e0"
| clean_write: "clean_history e0 ops e \<Longrightarrow> clean_history e0 (ops @ [op]) (engine_run_op op e)"
| clean_flush: "clean_history e0 ops e \<Longrightarrow> table_fits (mt_entries (en_active e)) \<Longrightarrow>
    Suc (en_sstableSeq e) < 10 ^ 16 \<Longrightarrow> disk_clean dk \<Longrightarrow> clean_history e0 ops (flushWorker_turn dk e)"
| clean_compaction: "clean_history e0 ops e \<Longrightarrow> table_fits (MergeEntries (table_layers e)) \<Longrightarrow>
    Suc (en_sstableSeq e) < 10 ^ 16 \<Longrightarrow> disk_clean dk \<Longrightarrow> clean_history e0 ops (compactionWorker_turn dk tick e)"

lemma clean_is_history: "clean_history e0 ops e \<Longrightarrow> engine_history e0 ops e"
  by (induction rule: clean_history.induct) (auto intro: engine_history.intros)

text \<open>The tables hold the first \<open>m\<close> writes, the tables and the buffer under flush the first \<open>m'\<close>.\<close>

definition prefixes :: "Engine \<Rightarrow> kv_op list \<Rightarrow> Engine \<Rightarrow> bool" where
  "prefixes e0 ops e \<longleftrightarrow> (\<exists>m m'. m \<le> m' \<and> m' \<le> length ops \<and> stored_view e = fold apply_op (take m ops) (engine_view e0)
     \<and> engine_view (drop_active e) = fold apply_op (take m' ops) (engine_view e0))"

lemma prefixes_cong:
  assumes "prefixes e0 ops e" "stored_view e' = stored_view e" "engine_view (drop_active e') = engine_view (drop_active e)"
  shows "prefixes e0 ops e'"
  using assms by (simp add: prefixes_def)

lemma view_layers_cong:
  "table_layers e' = table_layers e \<Longrightarrow> mem_layers e' = mem_layers e \<Longrightarrow> engine_view e' = engine_view e"
  by (simp add: engine_view_def fun_eq_iff)

lemma prefixes_write:
  assumes "prefixes e0 ops e" shows "prefixes e0 (ops @ [op]) (engine_run_op op e)"
proof -
  have "en_dir (engine_run_op op e) = en_dir e" "en_sstables (engine_run_op op e) = en_sstables e"
    "en_immutable (engine_run_op op e) = en_immutable e"
    by (cases op; simp add: Put_open Delete_open)+
  then have "stored_view (engine_run_op op e) = stored_view e" "engine_view (drop_active (engine_run_op op e)) = engine_view (drop_active e)"
    by (auto intro!: view_layers_cong simp: table_layers_def mem_layers_def drop_buffers_def drop_active_def)
  moreover have "prefixes e0 (ops @ [op]) e"
  proof -
    obtain m m' where m: "m \<le> m'" "m' \<le> length ops" "stored_view e = fold apply_op (take m ops) (engine_view e0)"
      "engine_view (drop_active e) = fold apply_op (take m' ops) (engine_view e0)" using assms by (auto simp: prefixes_def)
    then have "take m (ops @ [op]) = take m ops" "take m' (ops @ [op]) = take m' ops" by simp_all
    then show ?thesis unfolding prefixes_def using m by (intro exI[of _ m] exI[of _ m']) simp
  qed
  ultimately show ?thesis using prefixes_cong by blast
qed

lemma flush_outcomes:
  assumes wf: "en_wf e" and imm: "en_immutable e = None" and seq: "Suc (en_sstableSeq e) < 10 ^ 16"
    and fits: "table_fits (mt_entries (en_active e))" and dk: "disk_clean dk" and clean: "en_clean e"
  defines "e2 \<equiv> doFlush dk (e\<lparr>en_immutable := Some (en_active e), en_active := NewMemtable\<rparr>)"
  shows "en_clean e2" "engine_view (drop_active e2) = engine_view e" "stored_view e2 = stored_view e \<or> stored_view e2 = engine_view e"
proof -
  define r where "r = e\<lparr>en_immutable := Some (en_active e), en_active := NewMemtable\<rparr>"
  have e2: "e2 = doFlush dk r" by (simp add: e2_def r_def)
  note rv = rotate_view[OF wf imm, folded r_def]
  have a: "en_active e2 = NewMemtable"
    unfolding e2 doFlush_def by (auto simp: r_def Let_def split: option.split sum.split)
  then have da: "drop_active e2 = e2" by (simp add: drop_active_def)
  have rs: "stored_view r = stored_view e" "en_clean r = en_clean e" "en_dir r = en_dir e" "en_sstableSeq r = en_sstableSeq e"
    by (simp_all add: r_def drop_buffers_def en_clean_def)
  show v: "engine_view (drop_active e2) = engine_view e"
    unfolding da unfolding e2 using doFlush_keeps[OF rv(1), of dk] fits seq rv(2) by (simp add: r_def)
  have "en_clean e2 \<and> (stored_view e2 = stored_view e \<or> stored_view e2 = engine_view e)"
  proof (cases "Memtable_Size (en_active e) = 0")
    case True
    then have "e2 = r" by (simp add: e2 doFlush_def r_def)
    then show ?thesis using rs clean by simp
  next
    case size: False
    have len: "length (data_block (mt_entries (en_active e))) < 2 ^ 63" using fits by (simp add: table_fits_def)
    have im: "en_immutable r = Some (en_active e)" by (simp add: r_def)
    show ?thesis
    proof (cases "dk = DiskOk")
      case True
      have "en_immutable e2 = None" unfolding e2 True doFlush_ok[OF im size len] by simp
      then have "drop_buffers e2 = e2" using a by (simp add: drop_buffers_def)
      then show ?thesis
        using v da doFlush_clean[OF im size len] rs(2) clean unfolding e2 True by simp
    next
      case False
      then have "e2 = r\<lparr>en_sstableSeq := Suc (en_sstableSeq r)\<rparr>"
        using size dk im by (simp add: e2 doFlush_def disk_clean_def disk_write_def Let_def)
      then have "stored_view e2 = stored_view r" "en_clean e2 = en_clean r"
        by (auto intro!: view_layers_cong simp: table_layers_def mem_layers_def drop_buffers_def en_clean_def)
      then show ?thesis using rs clean by simp
    qed
  qed
  then show "en_clean e2" "stored_view e2 = stored_view e \<or> stored_view e2 = engine_view e" by blast+
qed

lemma drop_flags [simp]:
  "drop_buffers (e\<lparr>en_flushCh := b\<rparr>) = (drop_buffers e)\<lparr>en_flushCh := b\<rparr>" "drop_active (e\<lparr>en_flushCh := b\<rparr>) = (drop_active e)\<lparr>en_flushCh := b\<rparr>"
  "drop_buffers (e\<lparr>en_compactCh := b\<rparr>) = (drop_buffers e)\<lparr>en_compactCh := b\<rparr>" "drop_active (e\<lparr>en_compactCh := b\<rparr>) = (drop_active e)\<lparr>en_compactCh := b\<rparr>"
  "en_clean (e\<lparr>en_flushCh := b\<rparr>) = en_clean e" "en_clean (e\<lparr>en_compactCh := b\<rparr>) = en_clean e"
  by (simp_all add: drop_buffers_def drop_active_def en_clean_def)

lemma flush_prefixes:
  assumes p: "prefixes e0 ops e" and v: "engine_view e = fold apply_op ops (engine_view e0)" and wf: "en_wf e"
    and seq: "Suc (en_sstableSeq e) < 10 ^ 16" and fits: "table_fits (mt_entries (en_active e))" and dk: "disk_clean dk"
    and clean: "en_clean e"
  shows "prefixes e0 ops (flushWorker_turn dk e) \<and> en_clean (flushWorker_turn dk e)"
proof (cases "en_flushCh e \<and> en_immutable e = None")
  case False
  then have "flushWorker_turn dk e = e \<or> flushWorker_turn dk e = e\<lparr>en_flushCh := False\<rparr>"
    by (auto simp: flushWorker_turn_def rotateAndFlush_def)
  then show ?thesis using p clean prefixes_cong[OF p, of "e\<lparr>en_flushCh := False\<rparr>"] by auto
next
  case True
  let ?e = "e\<lparr>en_flushCh := False\<rparr>"
  define e2 where "e2 = doFlush dk (?e\<lparr>en_immutable := Some (en_active ?e), en_active := NewMemtable\<rparr>)"
  note o = flush_outcomes[of ?e dk, folded e2_def]
  have "prefixes e0 ops e2"
  proof -
    obtain m where m: "m \<le> length ops" "stored_view e2 = fold apply_op (take m ops) (engine_view e0)"
    proof (cases "stored_view e2 = engine_view e")
      case True
      then show ?thesis using that[of "length ops"] v by simp
    next
      case False
      then have "stored_view e2 = stored_view e" using o(3) wf seq fits dk clean True by simp
      moreover obtain k where "k \<le> length ops" "stored_view e = fold apply_op (take k ops) (engine_view e0)"
        using p by (auto simp: prefixes_def intro: le_trans)
      ultimately show ?thesis using that by metis
    qed
    then show ?thesis using o(2) wf seq fits dk clean True v unfolding prefixes_def
      by (intro exI[of _ m] exI[of _ "length ops"]) simp
  qed
  moreover have "en_clean e2" using o(1) wf seq fits dk clean True by simp
  moreover have "flushWorker_turn dk e = (if length (en_sstables e2) \<ge> compactionThreshold then e2\<lparr>en_compactCh := True\<rparr> else e2)"
    using True by (simp add: flushWorker_turn_def rotateAndFlush_def e2_def Let_def)
  ultimately show ?thesis using prefixes_cong[of e0 ops e2 "e2\<lparr>en_compactCh := True\<rparr>"] by simp
qed

lemma compaction_commutes:
  "doCompaction dk (drop_buffers e) = drop_buffers (doCompaction dk e)" "doCompaction dk (drop_active e) = drop_active (doCompaction dk e)"
  by (simp_all add: doCompaction_def compaction_finish_def drop_buffers_def drop_active_def Let_def split: sum.split)

lemma fst_removes: "fst ` set (fold dir_remove ps d) = fst ` set d - set ps"
  by (induction ps arbitrary: d) (auto simp: dir_remove_def)

lemma compaction_clean:
  assumes wf: "en_wf e" and clean: "en_clean e" and dk: "disk_clean dk" and fits: "table_fits (MergeEntries (table_layers e))"
    and seq: "Suc (en_sstableSeq e) < 10 ^ 16"
  shows "en_clean (doCompaction dk e)"
proof (cases "2 \<le> length (en_sstables e)")
  case False
  then show ?thesis using clean by (simp add: doCompaction_def)
next
  case n: True
  note u = doCompaction_unfold[OF wf n]
  show ?thesis
  proof (cases "dk = DiskOk")
    case True
    have len: "length (data_block (MergeEntries (table_layers e))) < 2 ^ 63" using fits by (simp add: table_fits_def)
    have "sst_path (Suc (en_sstableSeq e)) \<notin> r_path ` set (en_sstables e)" using fresh_path[OF wf seq] by (metis imageE)
    then show ?thesis
      unfolding u True compaction_finish_ok[OF len] using clean
      by (auto simp: en_clean_def set_Glob fst_removes set_dir_put has_suffix_sst_path)
  next
    case False
    then show ?thesis using dk clean by (simp add: u compaction_finish_def disk_clean_def disk_write_def en_clean_def Let_def)
  qed
qed

lemma compaction_prefixes:
  assumes p: "prefixes e0 ops e" and wf: "en_wf e" and fits: "table_fits (MergeEntries (table_layers e))"
    and seq: "Suc (en_sstableSeq e) < 10 ^ 16"
  shows "prefixes e0 ops (doCompaction dk e)"
proof (rule prefixes_cong[OF p])
  show "stored_view (doCompaction dk e) = stored_view e"
    using doCompaction_keeps[OF drop_wf(1)[OF wf], of dk] fits seq unfolding compaction_commutes[symmetric] by simp
  show "engine_view (drop_active (doCompaction dk e)) = engine_view (drop_active e)"
    using doCompaction_keeps[OF drop_wf(2)[OF wf], of dk] fits seq unfolding compaction_commutes[symmetric] by simp
qed

lemma clean_history_prefixes:
  assumes "clean_history e0 ops e" and e0: "en_open e0" "en_clean e0" "en_active e0 = NewMemtable" "en_immutable e0 = None"
  shows "prefixes e0 ops e \<and> en_clean e"
  using assms(1)
proof (induction rule: clean_history.induct)
  case clean_begin
  have "drop_buffers e0 = e0" "drop_active e0 = e0" using e0(3,4) by (simp_all add: drop_buffers_def drop_active_def)
  then show ?case using e0(2) by (simp add: prefixes_def)
next
  case (clean_write ops e op)
  moreover have "en_clean (engine_run_op op e) = en_clean e" by (cases op) (simp_all add: en_clean_def Put_open Delete_open)
  ultimately show ?case using prefixes_write by simp
next
  case (clean_flush ops e dk)
  have "en_wf e" "engine_view e = fold apply_op ops (engine_view e0)"
    using engine_history_keeps[OF clean_is_history[OF clean_flush(1)] e0(1)] by (simp_all add: en_open_def)
  then show ?case using flush_prefixes[of e0 ops e dk] clean_flush by blast
next
  case (clean_compaction ops e dk tick)
  let ?e = "e\<lparr>en_compactCh := False\<rparr>"
  have "en_wf e" using engine_history_keeps[OF clean_is_history[OF clean_compaction(1)] e0(1)] by (simp add: en_open_def)
  moreover have "prefixes e0 ops ?e" using clean_compaction.IH prefixes_cong[of e0 ops e ?e] by simp
  ultimately show ?case
    using clean_compaction compaction_prefixes[of e0 ops ?e dk] compaction_prefixes[of e0 ops e dk]
      compaction_clean[of ?e dk] compaction_clean[of e dk] by (simp add: compactionWorker_turn_def)
qed

section \<open>Crash during a compaction\<close>

text \<open>
  The files after \<open>doCompaction\<close> has written the merged table and removed \<open>n\<close> of the tables it
  merged, in the order of \<open>toCompact\<close>, newest first.
\<close>

definition compaction_files :: "nat \<Rightarrow> Engine \<Rightarrow> dir" where
  "compaction_files n e =
     fold dir_remove (map r_path (take n (en_sstables e)))
       (dir_put (sst_path (en_sstableSeq e + 1)) (SSTableWriter_Write (MergeEntries (table_layers e))) (en_dir e))"

lemma compaction_files_all:
  assumes "en_wf e" "2 \<le> length (en_sstables e)" "table_fits (MergeEntries (table_layers e))"
  shows "en_dir (doCompaction DiskOk e) = compaction_files (length (en_sstables e)) e"
  using assms(3) compaction_finish_ok[of "MergeEntries (table_layers e)" "en_sstables e" e]
  by (simp add: doCompaction_unfold[OF assms(1,2)] compaction_files_def table_fits_def)

text \<open>The engine that would have these files: the merged table above the tables that are left.\<close>

definition half_compacted :: "nat \<Rightarrow> Engine \<Rightarrow> Engine" where
  "half_compacted n e =
     e\<lparr>en_sstables := reader_of (sst_path (Suc (en_sstableSeq e))) (MergeEntries (table_layers e)) # drop n (en_sstables e),
       en_dir := compaction_files n e, en_sstableSeq := Suc (en_sstableSeq e)\<rparr>"

lemma half_compacted_tables:
  assumes wf: "en_wf e" and fits: "table_fits (MergeEntries (table_layers e))" and seq: "Suc (en_sstableSeq e) < 10 ^ 16"
  defines "p \<equiv> sst_path (Suc (en_sstableSeq e))" and "m \<equiv> MergeEntries (table_layers e)"
  shows "table_is (compaction_files n e) (reader_of p m) m"
    and "r \<in> set (drop n (en_sstables e)) \<Longrightarrow> dir_get (compaction_files n e) (r_path r) = dir_get (en_dir e) (r_path r)"
proof -
  have fr: "r_path r \<noteq> p" if "r \<in> set (en_sstables e)" for r using fresh_path[OF wf seq that] by (simp add: p_def)
  have "p \<notin> r_path ` set (take n (en_sstables e))" using fr by (metis imageE in_set_takeD)
  then have "dir_get (compaction_files n e) p = Some (SSTableWriter_Write m)"
    by (simp add: compaction_files_def dir_get_removes p_def m_def)
  then show "table_is (compaction_files n e) (reader_of p m) m"
    using fits MergeEntries_spec(1)[OF table_layers_sorted[OF wf]] by (intro table_is_reader_of) (simp_all add: m_def)
  assume r: "r \<in> set (drop n (en_sstables e))"
  obtain ns where ns: "map r_path (en_sstables e) = map sst_path ns" "sorted_wrt (>) ns" "list_all (\<lambda>n. n \<le> en_sstableSeq e) ns"
    using wf by (auto simp: en_wf_def)
  have "inj_on sst_path (set ns)"
  proof (rule inj_onI)
    fix x y assume "x \<in> set ns" "y \<in> set ns" and eq: "sst_path x = sst_path y"
    then have "x \<le> en_sstableSeq e" "y \<le> en_sstableSeq e" using ns(3) by (simp_all add: list_all_iff)
    then have "x < 10 ^ 16" "y < 10 ^ 16" using seq by linarith+
    then show "x = y" using eq sst_path_inj by blast
  qed
  moreover have "distinct ns" using ns(2) by (induction ns) auto
  ultimately have "distinct (map r_path (en_sstables e))" unfolding ns(1) by (simp add: distinct_map)
  then have "distinct (map r_path (take n (en_sstables e)) @ map r_path (drop n (en_sstables e)))"
    by (metis append_take_drop_id map_append)
  then have "r_path r \<notin> set (map r_path (take n (en_sstables e)))" using r by auto
  moreover have "r_path r \<noteq> p" by (rule fr[OF in_set_dropD[OF r]])
  ultimately show "dir_get (compaction_files n e) (r_path r) = dir_get (en_dir e) (r_path r)"
    by (simp add: compaction_files_def dir_get_removes p_def)
qed

lemma half_compacted_layers:
  assumes wf: "en_wf e" and fits: "table_fits (MergeEntries (table_layers e))" and seq: "Suc (en_sstableSeq e) < 10 ^ 16"
  shows "table_layers (half_compacted n e)
    = take (length (en_sstables e) - n) (table_layers e) @ [map forget_seq (MergeEntries (table_layers e))]"
proof -
  note t = half_compacted_tables[OF wf fits seq]
  have "reader_entries (compaction_files n e) r = reader_entries (en_dir e) r" if "r \<in> set (drop n (en_sstables e))" for r
    using t(2)[OF that] by (simp add: reader_entries_def SSTableReader_IterateAll_def)
  then have "map (reader_entries (compaction_files n e)) (rev (drop n (en_sstables e)))
      = map (reader_entries (en_dir e)) (rev (drop n (en_sstables e)))" by simp
  then show ?thesis
    using table_is_entries[OF t(1), of n] by (simp add: table_layers_def half_compacted_def take_map rev_drop)
qed

lemma half_compacted_wf:
  assumes wf: "en_wf e" and fits: "table_fits (MergeEntries (table_layers e))" and seq: "Suc (en_sstableSeq e) < 10 ^ 16"
  shows "en_wf (half_compacted n e)"
proof -
  let ?p = "sst_path (Suc (en_sstableSeq e))" let ?m = "MergeEntries (table_layers e)"
  note t = half_compacted_tables[OF wf fits seq]
  obtain ns where ns: "map r_path (en_sstables e) = map sst_path ns" "sorted_wrt (>) ns" "list_all (\<lambda>n. n \<le> en_sstableSeq e) ns"
    using wf by (auto simp: en_wf_def)
  have "map r_path (reader_of ?p ?m # drop n (en_sstables e)) = map sst_path (Suc (en_sstableSeq e) # drop n ns)"
    using ns(1) by (simp add: drop_map[symmetric])
  moreover have "sorted_wrt (>) (Suc (en_sstableSeq e) # drop n ns)" "list_all (\<lambda>n. n \<le> Suc (en_sstableSeq e)) (Suc (en_sstableSeq e) # drop n ns)"
    using ns(2,3) by (fastforce simp: list_all_iff dest: in_set_dropD)+
  ultimately have "\<exists>ms. map r_path (reader_of ?p ?m # drop n (en_sstables e)) = map sst_path ms \<and> sorted_wrt (>) ms
      \<and> list_all (\<lambda>n. n \<le> Suc (en_sstableSeq e)) ms" by blast
  moreover have "table_ok (compaction_files n e) r" if "r \<in> set (drop n (en_sstables e))" for r
    using wf that t(2)[OF that] in_set_dropD[OF that] by (auto simp: en_wf_def list_all_iff table_ok_def table_is_def)
  moreover have "dir_ok (compaction_files n e)" using wf by (simp add: compaction_files_def en_wf_def dir_ok_removes)
  ultimately show ?thesis
    using wf seq half_compacted_tables(1)[OF wf fits seq, of n] unfolding en_wf_def half_compacted_def
    by (auto simp: table_ok_def list_all_iff simp del: list.map)
qed

lemma half_compacted_clean:
  assumes "en_clean e" and wf: "en_wf e" and fits: "table_fits (MergeEntries (table_layers e))" and seq: "Suc (en_sstableSeq e) < 10 ^ 16"
  shows "en_clean (half_compacted n e)"
proof -
  have "r_path ` set (en_sstables e) - r_path ` set (take n (en_sstables e)) = r_path ` set (drop n (en_sstables e))" (is "?a = ?b")
  proof -
    have "dir_get (compaction_files n e) q = None" if "q \<in> r_path ` set (take n (en_sstables e))" for q
      using that by (simp add: compaction_files_def dir_get_removes)
    moreover have "dir_get (compaction_files n e) (r_path r) \<noteq> None" if "r \<in> set (drop n (en_sstables e))" for r
      using wf half_compacted_tables(2)[OF wf fits seq that] in_set_dropD[OF that] by (auto simp: en_wf_def list_all_iff table_ok_def table_is_def)
    ultimately have "?b \<inter> r_path ` set (take n (en_sstables e)) = {}" by blast
    moreover have "set (en_sstables e) = set (take n (en_sstables e)) \<union> set (drop n (en_sstables e))"
      by (metis append_take_drop_id set_append)
    ultimately show ?thesis by blast
  qed
  moreover have "sst_path (Suc (en_sstableSeq e)) \<notin> r_path ` set (take n (en_sstables e))"
    using fresh_path[OF wf seq] by (metis imageE in_set_takeD)
  moreover have "set (Glob ''.sst'' (compaction_files n e))
      = insert (sst_path (Suc (en_sstableSeq e))) (set (Glob ''.sst'' (en_dir e))) - r_path ` set (take n (en_sstables e))"
    by (auto simp: compaction_files_def set_Glob fst_removes set_dir_put has_suffix_sst_path)
  ultimately show ?thesis using assms(1) unfolding en_clean_def half_compacted_def by auto
qed

section \<open>A sample with a tombstone\<close>

definition sample_put :: memEntry where
  "sample_put = \<lparr>me_key = ''a'', me_value = [1], me_kind = kindPut, me_seq = 1\<rparr>"

definition sample_tombstone :: memEntry where
  "sample_tombstone = \<lparr>me_key = ''a'', me_value = [], me_kind = kindDelete, me_seq = 2\<rparr>"

definition sample_two_tables :: Engine where
  "sample_two_tables =
     \<lparr>en_dir = [(sst_path 1, SSTableWriter_Write [sample_put]), (sst_path 2, SSTableWriter_Write [sample_tombstone])],
      en_active = NewMemtable, en_immutable = None,
      en_sstables = [reader_of (sst_path 2) [sample_tombstone], reader_of (sst_path 1) [sample_put]],
      en_flushCh = False, en_compactCh = False, en_sstableSeq = 2, en_closed = False\<rparr>"

lemma sample_two_tables_ok:
  "en_open sample_two_tables" "en_clean sample_two_tables"
  "table_layers sample_two_tables = [[forget_seq sample_put], [forget_seq sample_tombstone]]"
proof -
  have l: "sst_path 1 < sst_path 2" "sst_path 2 \<noteq> sst_path 1" by (simp_all add: sst_path_less_iff sst_path_inj)
  have t: "table_is (en_dir sample_two_tables) (reader_of (sst_path 1) [sample_put]) [sample_put]"
    "table_is (en_dir sample_two_tables) (reader_of (sst_path 2) [sample_tombstone]) [sample_tombstone]"
    using l by (simp_all add: table_is_def sample_two_tables_def table_fits_def entry_fits_def keys_sorted_def
        length_encode_entry sample_put_def sample_tombstone_def)
  then have "table_ok (en_dir sample_two_tables) (reader_of (sst_path 1) [sample_put])"
    "table_ok (en_dir sample_two_tables) (reader_of (sst_path 2) [sample_tombstone])" by (auto simp: table_ok_def)
  then show "en_open sample_two_tables" using l
    by (auto simp: en_open_def en_wf_def sample_two_tables_def dir_ok_def mt_wf_def NewMemtable_def keys_sorted_def
        intro!: exI[of _ "[2, 1]"])
  show "en_clean sample_two_tables"
    using has_suffix_sst_path[of 1] has_suffix_sst_path[of 2] by (auto simp: en_clean_def sample_two_tables_def set_Glob)
  show "table_layers sample_two_tables = [[forget_seq sample_put], [forget_seq sample_tombstone]]"
    using table_is_entries[OF t(1)] table_is_entries[OF t(2)] by (simp add: table_layers_def sample_two_tables_def)
qed

section \<open>Properties\<close>



text \<open>
  C39: a crash while a compaction removes files can bring deleted keys back. After \<open>doCompaction\<close> has
  written the merged table and removed the \<open>n\<close> newest of the tables it merged, opening the directory
  succeeds, and every key that has a value in the tables keeps it; but the merged table has no
  tombstones, so a deleted key has the value the tables still there give it, which is a value as soon
  as the table with the tombstone is gone and an older one with the value is left.
\<close>

theorem compaction_crash_reopen:
  assumes "en_open e" "en_clean e" "table_fits (MergeEntries (table_layers e))" "Suc (en_sstableSeq e) < 10 ^ 16"
  shows "\<exists>e'. Engine_Open (compaction_files n e) = Inr e' \<and> en_open e'
    \<and> (\<forall>k. engine_view e' k = (case stored_view e k of
           Some v \<Rightarrow> Some v
         | None \<Rightarrow> live_value (newest_lookup (take (length (en_sstables e) - n) (table_layers e)) k)))"
proof -
  have wf: "en_wf e" using assms(1) by (simp add: en_open_def)
  let ?h = "half_compacted n e"
  obtain e' where e: "Engine_Open (en_dir ?h) = Inr e'" "en_open e'" "engine_view e' = stored_view ?h"
    using reopen_stored[OF half_compacted_wf[OF wf assms(3,4)] half_compacted_clean[OF assms(2) wf assms(3,4)]] by blast
  have "stored_view ?h k = (case stored_view e k of
      Some v \<Rightarrow> Some v | None \<Rightarrow> live_value (newest_lookup (take (length (en_sstables e) - n) (table_layers e)) k))" for k
    using MergeEntries_spec(2)[OF table_layers_sorted[OF wf], of k]
    by (auto simp: stored_view_layers half_compacted_layers[OF wf assms(3,4)] newest_lookup_append lookup_forget drop_tombstone_def
        live_value_def split: option.splits)
  then show ?thesis using e by (auto simp: half_compacted_def)
qed

theorem compaction_crash_reopen_witness:
  "\<exists>e'. Engine_Open (compaction_files 1 sample_two_tables) = Inr e'
    \<and> engine_view sample_two_tables ''a'' = None \<and> engine_view e' ''a'' = Some [1]"
proof -
  note l = sample_two_tables_ok(3)
  have "MergeEntries (table_layers sample_two_tables) = []" unfolding l by code_simp
  then have f: "table_fits (MergeEntries (table_layers sample_two_tables))" "Suc (en_sstableSeq sample_two_tables) < 10 ^ 16"
    by (simp_all add: table_fits_def sample_two_tables_def)
  have "stored_view sample_two_tables = engine_view sample_two_tables" by (simp add: drop_buffers_def sample_two_tables_def)
  moreover have "stored_view sample_two_tables ''a'' = None" unfolding stored_view_layers l by code_simp
  moreover have "live_value (newest_lookup (take (length (en_sstables sample_two_tables) - 1) (table_layers sample_two_tables)) ''a'') = Some [1]"
    unfolding l by (simp add: sample_two_tables_def) code_simp
  ultimately show ?thesis
    using compaction_crash_reopen[OF sample_two_tables_ok(1,2) f, of 1] by auto
qed

end
