(* ===== verification/KV_Restart.thy ===== *)
theory KV_Restart
  imports KV_Server KV_EngineCrash
begin

text \<open>
  A server that crashes and starts again. The log is on disk, the engine keeps a prefix of the writes,
  the table of client sequence numbers and the commit index are gone: the new process applies the log
  from its first entry to an engine that may already hold some of it.
\<close>

section \<open>The writes a log makes\<close>

definition command_op :: "Command \<Rightarrow> kv_op option" where
  "command_op cmd = (if c_Op cmd = ''put'' then Some (KvPut (c_Key cmd) (c_Value cmd))
     else if c_Op cmd = ''delete'' then Some (KvDelete (c_Key cmd)) else None)"

text \<open>The operations the state machine runs on its engine, and the rest of its state, for the entries \<open>es\<close>.\<close>

definition entry_effect ::
  "(bytes \<Rightarrow> Command option) \<Rightarrow> LogEntry \<Rightarrow> (string \<Rightarrow> nat option) \<times> nat \<Rightarrow> kv_op list \<times> (string \<Rightarrow> nat option) \<times> nat" where
  "entry_effect dec entry st =
     (case st of (seqs, applied) \<Rightarrow>
        if le_index entry \<le> applied then ([], st)
        else
          (case dec (le_data entry) of
             None \<Rightarrow> ([], seqs, le_index entry)
           | Some cmd \<Rightarrow>
               if is_dup cmd seqs then ([], seqs, le_index entry)
               else
                 (case command_op cmd of
                    None \<Rightarrow> ([], seqs, le_index entry)
                  | Some op \<Rightarrow> ([op], if c_ClientID cmd \<noteq> '''' then seqs(c_ClientID cmd := Some (c_SeqNum cmd)) else seqs, le_index entry))))"

fun log_effect ::
  "(bytes \<Rightarrow> Command option) \<Rightarrow> LogEntry list \<Rightarrow> (string \<Rightarrow> nat option) \<times> nat \<Rightarrow> kv_op list \<times> (string \<Rightarrow> nat option) \<times> nat" where
  "log_effect dec [] st = ([], st)"
| "log_effect dec (e # es) st =
     (let (ops, st1) = entry_effect dec e st; (ops', st2) = log_effect dec es st1 in (ops @ ops', st2))"

lemma spec_write_op: "spec_write cmd f = map_option (\<lambda>op. apply_op op f) (command_op cmd)"
  by (simp add: spec_write_def command_op_def)

lemma spec_apply_effect:
  "spec_apply dec entry (f, st) = (fold apply_op (fst (entry_effect dec entry st)) f, snd (entry_effect dec entry st))"
  by (cases st) (auto simp: spec_apply_def entry_effect_def spec_write_op split: option.split)

lemma spec_applies_effect:
  "fold (spec_apply dec) es (f, st) = (fold apply_op (fst (log_effect dec es st)) f, snd (log_effect dec es st))"
proof (induction es arbitrary: f st)
  case (Cons e es)
  then show ?case by (simp add: spec_apply_effect case_prod_unfold Let_def prod.case_eq_if)
qed simp

lemma log_effect_append:
  "log_effect dec (xs @ ys) st =
     (fst (log_effect dec xs st) @ fst (log_effect dec ys (snd (log_effect dec xs st))), snd (log_effect dec ys (snd (log_effect dec xs st))))"
  by (induction xs arbitrary: st) (auto simp: case_prod_unfold Let_def)

text \<open>Writes made once more: what a key held before does not matter when the key is written.\<close>

fun op_key :: "kv_op \<Rightarrow> string" where
  "op_key (KvPut k v) = k"
| "op_key (KvDelete k) = k"

lemma fold_ops_other: "k \<notin> op_key ` set ops \<Longrightarrow> fold apply_op ops f k = f k"
proof (induction ops arbitrary: f)
  case (Cons op ops)
  then show ?case by (cases op) simp_all
qed simp

lemma fold_ops_cong: "k \<in> op_key ` set ops \<or> f k = g k \<Longrightarrow> fold apply_op ops f k = fold apply_op ops g k"
proof (induction ops arbitrary: f g)
  case (Cons op ops)
  have "k \<in> op_key ` set ops \<or> apply_op op f k = apply_op op g k" using Cons.prems by (cases op) auto
  then show ?case using Cons.IH by simp
qed simp

section \<open>A process and its workers\<close>

text \<open>
  What a process does to its state machine: the apply loop applies entries while the flush and the
  compaction worker of the engine take their turns.
\<close>

inductive sm_history :: "StateMachine \<Rightarrow> LogEntry list \<Rightarrow> StateMachine \<Rightarrow> bool" for sm0 where
  sm_begin: "sm_history sm0 [] sm0"
| sm_entry: "sm_history sm0 es sm \<Longrightarrow> sm_history sm0 (es @ [entry]) (sm_apply Command_Unmarshal entry sm)"
| sm_flush: "sm_history sm0 es sm \<Longrightarrow> table_fits (mt_entries (en_active (sm_engine sm))) \<Longrightarrow>
    Suc (en_sstableSeq (sm_engine sm)) < 10 ^ 16 \<Longrightarrow> disk_clean dk \<Longrightarrow>
    sm_history sm0 es (sm\<lparr>sm_engine := flushWorker_turn dk (sm_engine sm)\<rparr>)"
| sm_compaction: "sm_history sm0 es sm \<Longrightarrow> table_fits (MergeEntries (table_layers (sm_engine sm))) \<Longrightarrow>
    Suc (en_sstableSeq (sm_engine sm)) < 10 ^ 16 \<Longrightarrow> disk_clean dk \<Longrightarrow>
    sm_history sm0 es (sm\<lparr>sm_engine := compactionWorker_turn dk tick (sm_engine sm)\<rparr>)"

lemma apply_write_op:
  assumes "\<not> en_closed e"
  shows "snd (apply_write cmd e) = (case command_op cmd of None \<Rightarrow> e | Some op \<Rightarrow> engine_run_op op e)"
    "fst (apply_write cmd e) = ResultOk \<longleftrightarrow> command_op cmd \<noteq> None"
  using Put_open(1)[OF assms] Delete_open(1)[OF assms] by (simp_all add: apply_write_def command_op_def case_prod_unfold Let_def)

lemma sm_apply_effect:
  assumes "\<not> en_closed (sm_engine sm)"
  shows "sm_engine (sm_apply dec entry sm) = fold engine_run_op (fst (entry_effect dec entry (sm_lastSeq sm, sm_lastApplied sm))) (sm_engine sm)"
    "(sm_lastSeq (sm_apply dec entry sm), sm_lastApplied (sm_apply dec entry sm)) = snd (entry_effect dec entry (sm_lastSeq sm, sm_lastApplied sm))"
  by (auto simp: sm_apply_def entry_effect_def Let_def case_prod_unfold apply_write_op[OF assms] split: option.split)

lemma entry_effect_ops: "fst (entry_effect dec entry st) = [] \<or> (\<exists>op. fst (entry_effect dec entry st) = [op])"
  by (auto simp: entry_effect_def split: prod.split option.split)

lemma sm_history_effect:
  assumes "sm_history sm0 es sm" and o: "en_open (sm_engine sm0)"
  shows "clean_history (sm_engine sm0) (fst (log_effect Command_Unmarshal es (sm_lastSeq sm0, sm_lastApplied sm0))) (sm_engine sm)
    \<and> (sm_lastSeq sm, sm_lastApplied sm) = snd (log_effect Command_Unmarshal es (sm_lastSeq sm0, sm_lastApplied sm0))"
  using assms(1)
proof (induction rule: sm_history.induct)
  case sm_begin
  then show ?case by (simp add: clean_begin)
next
  case (sm_entry es sm entry)
  have "\<not> en_closed (sm_engine sm)"
    using engine_history_keeps[OF clean_is_history[OF conjunct1[OF sm_entry.IH]] o] by (simp add: en_open_def)
  note e = sm_apply_effect[OF this, of Command_Unmarshal entry]
  show ?case
    using sm_entry.IH e entry_effect_ops[of Command_Unmarshal entry "(sm_lastSeq sm, sm_lastApplied sm)"]
    by (auto simp: log_effect_append case_prod_unfold Let_def intro: clean_write)
qed (auto intro: clean_flush clean_compaction)

lemma sm_history_view:
  assumes h: "sm_history sm0 es sm" and o: "en_open (sm_engine sm0)"
  shows "sm_view sm = fold (spec_apply Command_Unmarshal) es (sm_view sm0)"
proof -
  note e = sm_history_effect[OF h o]
  have "engine_view (sm_engine sm) = fold apply_op (fst (log_effect Command_Unmarshal es (sm_lastSeq sm0, sm_lastApplied sm0))) (engine_view (sm_engine sm0))"
    using engine_history_keeps[OF clean_is_history[OF conjunct1[OF e]] o] by simp
  then show ?thesis using e by (auto simp: sm_view_def spec_applies_effect)
qed

section \<open>Any number of crashes\<close>

text \<open>
  The processes of node \<open>i\<close> in a run of the cluster, one after the other. Each takes some messages
  from its apply channel and crashes, and the next one opens what it left. \<open>e\<close> is the engine of the
  process now running, and no process before it has taken more than \<open>m\<close> messages.
\<close>

abbreviation disk_run :: "marshal \<Rightarrow> unmarshal \<Rightarrow> string list \<Rightarrow> walState cluster \<Rightarrow> bool" where
  "disk_run mar unm ids c \<equiv> lossless_run (reopen_walState unm) (walState_ops (\<lambda>_. None) mar unm) (fresh_walState unm) ids c"

abbreviation disk_steps :: "marshal \<Rightarrow> unmarshal \<Rightarrow> string list \<Rightarrow> walState cluster \<Rightarrow> walState cluster \<Rightarrow> bool" where
  "disk_steps mar unm ids c c' \<equiv> (lossless_step (reopen_walState unm) (walState_ops (\<lambda>_. None) mar unm) ids)\<^sup>*\<^sup>* c c'"

inductive lives :: "marshal \<Rightarrow> unmarshal \<Rightarrow> string list \<Rightarrow> string \<Rightarrow> Engine \<Rightarrow> walState cluster \<Rightarrow> nat \<Rightarrow> Engine \<Rightarrow> bool"
  for mar unm ids i e0 where
  first_life: "disk_run mar unm ids c \<Longrightarrow> lives mar unm ids i e0 c 0 e0"
| next_life: "lives mar unm ids i e0 c m e \<Longrightarrow> disk_steps mar unm ids c c' \<Longrightarrow> k \<le> length (ApplyCh (nd c' i)) \<Longrightarrow>
    map CommandMsg es = take k (ApplyCh (nd c' i)) \<Longrightarrow> sm_history (NewStateMachine 0 e) es sm \<Longrightarrow>
    Engine_Open (en_dir (sm_engine sm)) = Inr e' \<Longrightarrow> lives mar unm ids i e0 c' (max m k) e'"

abbreviation log_ops :: "LogEntry list \<Rightarrow> kv_op list" where
  "log_ops es \<equiv> fst (log_effect Command_Unmarshal es (\<lambda>_. None, 0))"

lemma log_ops_append: "set (log_ops es) \<subseteq> set (log_ops (es @ fs))"
  by (simp add: log_effect_append)

lemma same_commands: "map CommandMsg xs = map CommandMsg ys \<Longrightarrow> xs = ys"
  by (simp add: inj_def)

lemma life_reopens:
  assumes h: "sm_history (NewStateMachine 0 e) es sm" and e: "en_open e" "en_clean e" "en_active e = NewMemtable" "en_immutable e = None"
  shows "prefixes e (log_ops es) (sm_engine sm)"
    and "\<exists>e'. Engine_Open (en_dir (sm_engine sm)) = Inr e' \<and> en_open e' \<and> engine_view e' = stored_view (sm_engine sm)
      \<and> en_clean e' \<and> en_active e' = NewMemtable \<and> en_immutable e' = None"
proof -
  have c: "clean_history e (log_ops es) (sm_engine sm)" using sm_history_effect[OF h] e(1) by (simp add: NewStateMachine_def)
  have p: "prefixes e (log_ops es) (sm_engine sm)" "en_clean (sm_engine sm)" using clean_history_prefixes[OF c e] by simp_all
  have "en_wf (sm_engine sm)" using engine_history_keeps[OF clean_is_history[OF c] e(1)] by (simp add: en_open_def)
  then show "prefixes e (log_ops es) (sm_engine sm)"
    "\<exists>e'. Engine_Open (en_dir (sm_engine sm)) = Inr e' \<and> en_open e' \<and> engine_view e' = stored_view (sm_engine sm)
      \<and> en_clean e' \<and> en_active e' = NewMemtable \<and> en_immutable e' = None"
    using reopen_stored[OF _ p(2)] p(1) by blast+
qed

lemma life_ends:
  assumes h: "sm_history (NewStateMachine 0 e) es sm" and e: "en_open e" "en_clean e" "en_active e = NewMemtable" "en_immutable e = None"
    and crash: "Engine_Open (en_dir (sm_engine sm)) = Inr e'"
  shows "en_open e'" "en_clean e'" "en_active e' = NewMemtable" "en_immutable e' = None"
    and "q \<notin> op_key ` set (log_ops es) \<Longrightarrow> engine_view e' q = engine_view e q"
proof -
  note p = life_reopens[OF h e]
  then have r: "en_open e' \<and> en_clean e' \<and> en_active e' = NewMemtable \<and> en_immutable e' = None \<and> engine_view e' = stored_view (sm_engine sm)"
    using crash by auto
  then show "en_open e'" "en_clean e'" "en_active e' = NewMemtable" "en_immutable e' = None" by blast+
  assume "q \<notin> op_key ` set (log_ops es)"
  then have "q \<notin> op_key ` set (take l (log_ops es))" for l using set_take_subset by fast
  then show "engine_view e' q = engine_view e q" using r p(1) fold_ops_other unfolding prefixes_def by metis
qed

lemma lives_inv:
  assumes "lives mar unm ids i e0 c m e" and e0: "en_open e0" "en_clean e0" "en_active e0 = NewMemtable" "en_immutable e0 = None"
    and ids: "valid_ids ids" "\<forall>j \<in> set ids. valid_utf8 j" "i \<in> set ids"
  shows "disk_run mar unm ids c \<and> en_open e \<and> en_clean e \<and> en_active e = NewMemtable \<and> en_immutable e = None
    \<and> (\<forall>c' k es q. disk_steps mar unm ids c c' \<longrightarrow> m \<le> k \<longrightarrow> k \<le> length (ApplyCh (nd c' i)) \<longrightarrow>
        map CommandMsg es = take k (ApplyCh (nd c' i)) \<longrightarrow> q \<notin> op_key ` set (log_ops es) \<longrightarrow> engine_view e q = engine_view e0 q)"
  using assms(1)
proof (induction rule: lives.induct)
  case (first_life c)
  then show ?case using e0 by blast
next
  case (next_life c m e c1 k1 es1 sm e1)
  note IH = next_life.IH
  have run1: "disk_run mar unm ids c1" using lossless_run_later[of _ _ _ ids c c1] IH next_life.hyps(2) by blast
  have "en_open e" "en_clean e" "en_active e = NewMemtable" "en_immutable e = None" using IH by blast+
  note l = life_ends[OF next_life.hyps(5) this next_life.hyps(6)]
  have "engine_view e1 q = engine_view e0 q"
    if st: "disk_steps mar unm ids c1 c2" and k: "max m k1 \<le> k2" "k2 \<le> length (ApplyCh (nd c2 i))"
      and es: "map CommandMsg es2 = take k2 (ApplyCh (nd c2 i))" and q: "q \<notin> op_key ` set (log_ops es2)" for c2 k2 es2 q
  proof -
    have "take k1 (ApplyCh (nd c2 i)) = take k1 (ApplyCh (nd c1 i))"
      using disk_messages[OF run1 ids(1,2) st ids(3,3) next_life.hyps(3)] k by fastforce
    then have "map CommandMsg es1 = map CommandMsg (take k1 es2)"
      using next_life.hyps(4) es k by (metis min.absorb1 max.boundedE take_map take_take)
    then have "es1 = take k1 es2" by (rule same_commands)
    then have "es2 = es1 @ drop k1 es2" by simp
    then have "q \<notin> op_key ` set (log_ops es1)" using q log_ops_append[of es1 "drop k1 es2"] by fastforce
    moreover have "disk_steps mar unm ids c c2" using next_life.hyps(2) st by (rule rtranclp_trans)
    ultimately show ?thesis using l(5) IH k es q by (metis max.boundedE)
  qed
  then show ?case using run1 l(1-4) by blast
qed

section \<open>A server that starts again alone\<close>

text \<open>A server without peers whose election timer fires.\<close>

abbreviation elected_alone :: "'s PersistentState \<Rightarrow> ('s, 'conn) KVServer \<Rightarrow> ('s, 'conn) KVServer" where
  "elected_alone ps s \<equiv> s\<lparr>srv_node := run_election_tick ps (srv_node s)\<rparr>"

definition put_command :: "string \<Rightarrow> bytes \<Rightarrow> Command" where
  "put_command key value = \<lparr>c_Op = ''put'', c_Key = key, c_Value = value, c_ClientID = '''', c_SeqNum = 0\<rparr>"

definition put_log_entry :: "nat \<Rightarrow> nat \<Rightarrow> string \<Rightarrow> bytes \<Rightarrow> LogEntry" where
  "put_log_entry idx tm key value =
     \<lparr>le_index = idx, le_term = tm, le_data = Command_Marshal (put_command key value), le_type = ENTRY_NORMAL\<rparr>"

lemma put_command_ok: "valid_utf8 key \<Longrightarrow> command_ok (put_command key value)"
  by (simp add: command_ok_def put_command_def valid_utf8.simps[of "''''"] valid_utf8_ascii)

lemma alone_leads:
  assumes "Peers n = []" "role n = RoleFollower"
  shows "run_election_tick ps n = n\<lparr>electionTimer := False, heartbeatTimer := True, currentTerm := Suc (currentTerm n), role := RoleLeader,
      votedFor := nodeID n, leaderID := nodeID n, votes := (votes n)(Suc (currentTerm n) := 1),
      storage := snd (ps_SaveHardState ps (Suc (currentTerm n)) (nodeID n) (storage n))\<rparr>"
  using assms by (simp add: run_election_tick_def startElection_def store_def resetElectionTimer_def quorum_def becomeLeader_def
      resetHeartbeatTimer_def sendHeartbeats_def Let_def)

lemma ws_rel_save:
  assumes "ws_rel mar unm hi ws m" "t < 2 ^ 64" "valid_utf8 v"
  shows "ws_rel mar unm hi (snd (ps_SaveHardState (walState_ops (\<lambda>_. None) mar unm) t v ws)) (m\<lparr>ms_term := t, ms_voted := v\<rparr>)"
  using ws_rel_step[OF assms(1), of "OpSaveHardState t v"] assms(2,3)
  by (auto simp: run_storage_op_def memState_defs case_prod_unfold split: if_splits)

lemma ws_rel_append:
  assumes "ws_rel mar unm hi ws m" "entry_codes mar unm e" "hi < le_index e" "le_index e < 10 ^ 16"
  shows "ws_rel mar unm (le_index e) (snd (ps_AppendEntries (walState_ops (\<lambda>_. None) mar unm) [e] ws)) (m\<lparr>ms_entries := ms_entries m @ [e]\<rparr>)"
  using ws_rel_step[OF assms(1), of "OpAppendEntries [e]"] assms(2-4)
  by (auto simp: run_storage_op_def memState_defs case_prod_unfold split: if_splits)

lemma ws_rel_crash:
  assumes "ws_rel mar unm hi ws m"
  shows "\<exists>ws1. newWALState unm (ws_files ws) = Inr ws1 \<and> ws_rel mar unm hi ws1 m"
  using ws_rel_step[OF assms, of OpCrash] by (auto simp: run_storage_op_def reopen_walState_def split: sum.splits)

lemma write_end_same: "(r, s') \<in> set (write_end ch s) \<Longrightarrow> s' = s\<lparr>srv_inflight := remove1 ch (srv_inflight s)\<rparr>"
  by (auto simp: write_end_def)

lemma apply_turn_node: "sm_snapshotInterval (srv_sm s) = 0 \<Longrightarrow> srv_node (apply_turn dk ps s) = srv_node s"
  by (cases "ApplyCh (srv_node s) ! srv_consumed s") (simp_all add: apply_turn_def sm_apply_interval case_prod_unfold Let_def)

text \<open>The first life: start in empty directories, win the election, write once.\<close>

lemma first_write:
  assumes cfg: "cfg_Peers cfg = []" "valid_utf8 (cfg_NodeID cfg)" and key: "valid_utf8 key"
    and codes: "entry_codes mar unm (put_log_entry 1 1 key value)"
  obtains s0 s1 s2 s3 :: "(walState, 'conn) KVServer" and ch
  where "NewKVServer unm cfg [] [] = Inr s0" "KVServer_Start (walState_ops (\<lambda>_. None) mar unm) True s0 = (None, s1)"
    "srv_Put (walState_ops (\<lambda>_. None) mar unm) key value (elected_alone (walState_ops (\<lambda>_. None) mar unm) s1) = (Waiting ch, s2)"
    "write_end ch (apply_turn dk (walState_ops (\<lambda>_. None) mar unm) s2) = [(Inr \<lparr>wr_Success = True, wr_LeaderHint = ''''\<rparr>, s3)]"
    "en_dir (sm_engine (srv_sm s3)) = []"
    "ws_rel mar unm 1 (storage (srv_node s3)) (newMemState\<lparr>ms_term := 1, ms_voted := cfg_NodeID cfg, ms_entries := [put_log_entry 1 1 key value]\<rparr>)"
proof -
  let ?ps = "walState_ops (\<lambda>_. None) mar unm"
  obtain s0 s1 :: "(walState, 'conn) KVServer" where s: "NewKVServer unm cfg [] [] = Inr s0" "KVServer_Start ?ps True s0 = (None, s1)"
    "serving_alone (elected_alone ?ps s1)" using fresh_serving_alone[OF cfg(1)] by blast
  obtain e where e: "Engine_Open [] = Inr e" using fresh_engine by blast
  have ed: "en_dir e = []" using e by (auto simp: Engine_Open_def split: sum.splits prod.splits)
  have s0: "srv_node s0 = NewNode (cfg_NodeID cfg) [] (fresh_walState unm)" "sm_engine (srv_sm s0) = e"
    using s(1) e fresh_walState(1)[of unm] cfg(1) by (auto simp: NewKVServer_def NewStateMachine_def)
  have s1: "srv_node s1 = (NewNode (cfg_NodeID cfg) [] (fresh_walState unm))\<lparr>electionTimer := True\<rparr>" "srv_sm s1 = srv_sm s0"
    using s(2) s0(1) whf.fresh_meta[of mar unm] whf.fresh_load[of mar unm] whf.fresh_entries[of mar unm]
    by (auto simp: KVServer_Start_def Start_def NewNode_def resetElectionTimer_def split: option.splits)
  let ?s = "elected_alone ?ps s1"
  define n where "n = srv_node ?s"
  have n: "currentTerm n = 1" "lastLogIndex n = 0" "role n = RoleLeader" "Peers n = []" "log n \<noteq> []" "commitIndex n = 0"
    "storage n = snd (ps_SaveHardState ?ps 1 (cfg_NodeID cfg) (fresh_walState unm))"
    unfolding n_def using alone_leads[of "srv_node s1" ?ps] by (simp_all add: s1 NewNode_def lastLogIndex_def)
  have r: "ws_rel mar unm 0 (storage n) (newMemState\<lparr>ms_term := 1, ms_voted := cfg_NodeID cfg\<rparr>)"
    unfolding n(7) by (rule ws_rel_save[OF fresh_walState(2) _ cfg(2)]) simp
  obtain s2 s3 where p: "srv_Put ?ps key value ?s = (Waiting (sm_channels (srv_sm ?s)), s2)"
    "write_end (sm_channels (srv_sm ?s)) (apply_turn dk ?ps s2) = [(Inr \<lparr>wr_Success = True, wr_LeaderHint = ''''\<rparr>, s3)]"
    "sm_engine (srv_sm s3) = snd (Engine_Put key value (sm_engine (srv_sm ?s)))"
    using put_alone[OF s(3) key] by metis
  have pr: "Propose ?ps (Command_Marshal (put_command key value)) n = ((1, 1, True),
      n\<lparr>log := log n @ [put_log_entry 1 1 key value], storage := snd (ps_AppendEntries ?ps [put_log_entry 1 1 key value] (storage n)),
        commitIndex := 1, ApplyCh := ApplyCh n @ [CommandMsg (put_log_entry 1 1 key value)]\<rparr>)"
    using Propose_alone[of n "put_log_entry 1 1 key value" "Command_Marshal (put_command key value)" ?ps] n
    by (simp add: put_log_entry_def)
  have s2: "storage (srv_node s2) = snd (ps_AppendEntries ?ps [put_log_entry 1 1 key value] (storage n))" "sm_snapshotInterval (srv_sm s2) = 0"
    using p(1) pr s(3) by (auto simp: srv_Put_def write_begin_def ProposeWrite_def put_command_def[symmetric] n_def[symmetric] serving_alone_def Let_def)
  have "srv_node s3 = srv_node s2"
    using write_end_same[of _ s3 "sm_channels (srv_sm ?s)" "apply_turn dk ?ps s2"] apply_turn_node[OF s2(2)] p(2) by simp
  then have "ws_rel mar unm 1 (storage (srv_node s3)) (newMemState\<lparr>ms_term := 1, ms_voted := cfg_NodeID cfg, ms_entries := [put_log_entry 1 1 key value]\<rparr>)"
    using ws_rel_append[OF r codes] s2(1) by (simp add: put_log_entry_def newMemState_def)
  moreover have "en_dir (sm_engine (srv_sm s3)) = []" using p(3) s0(2) s1(2) ed by (simp add: Put_open)
  ultimately show ?thesis using that s(1,2) p(1,2) by blast
qed

text \<open>The second life: the log is there, nothing is known to be committed, and the engine is empty.\<close>

definition restarted_alone :: "(walState, 'conn) KVServer \<Rightarrow> nat \<Rightarrow> LogEntry \<Rightarrow> bool" where
  "restarted_alone s tm entry \<longleftrightarrow> role (srv_node s) = RoleLeader \<and> Peers (srv_node s) = [] \<and> currentTerm (srv_node s) = tm
     \<and> log (srv_node s) = [sentinel 0 0, entry] \<and> lastIncludedIndex (srv_node s) = 0 \<and> commitIndex (srv_node s) = 0
     \<and> ApplyCh (srv_node s) = [] \<and> srv_consumed s = 0 \<and> Engine_Open [] = Inr (sm_engine (srv_sm s))
     \<and> srv_sm s = NewStateMachine 0 (sm_engine (srv_sm s))"

lemma second_life:
  assumes cfg: "cfg_Peers cfg = []" and r: "ws_rel mar unm 1 ws (newMemState\<lparr>ms_term := 1, ms_voted := v, ms_entries := [entry]\<rparr>)"
  obtains r0 r1 :: "(walState, 'conn) KVServer"
  where "NewKVServer unm cfg [] (ws_files ws) = Inr r0" "KVServer_Start (walState_ops (\<lambda>_. None) mar unm) True r0 = (None, r1)"
    "restarted_alone (elected_alone (walState_ops (\<lambda>_. None) mar unm) r1) 2 entry"
proof -
  let ?ps = "walState_ops (\<lambda>_. None) mar unm"
  obtain ws1 where w: "newWALState unm (ws_files ws) = Inr ws1"
    "ws_rel mar unm 1 ws1 (newMemState\<lparr>ms_term := 1, ms_voted := v, ms_entries := [entry]\<rparr>)"
    using ws_rel_crash[OF r] by blast
  obtain e where e: "Engine_Open [] = Inr e" using fresh_engine by blast
  define r0 :: "(walState, 'conn) KVServer" where "r0 = \<lparr>srv_cfg = cfg, srv_node = NewNode (cfg_NodeID cfg) [] ws1,
      srv_sm = NewStateMachine 0 e, srv_transport = NewGRPCTransport [], srv_consumed = 0, srv_serving = False,
      srv_inflight = [], srv_watchers = [], srv_stopCh = False\<rparr>"
  have n0: "NewKVServer unm cfg [] (ws_files ws) = Inr r0" using e w(1) cfg by (simp add: NewKVServer_def r0_def)
  define n1 where "n1 = (NewNode (cfg_NodeID cfg) [] ws1)\<lparr>currentTerm := 1, votedFor := v, log := [sentinel 0 0, entry], electionTimer := True\<rparr>"
  have l: "ps_LoadSnapshotMeta ?ps ws1 = Some (0, 0)" "ps_LoadHardState ?ps ws1 = Some (1, v)" "ps_LoadEntries ?ps ws1 = Some [entry]"
    using ws_rel_loads[OF w(2)] by (simp_all add: walState_ops_def memState_defs newMemState_def)
  then have st: "KVServer_Start ?ps True r0 = (None, r0\<lparr>srv_node := n1, srv_serving := True\<rparr>)"
    by (simp add: KVServer_Start_def r0_def n1_def Start_def NewNode_def resetElectionTimer_def)
  have "restarted_alone (elected_alone ?ps (r0\<lparr>srv_node := n1, srv_serving := True\<rparr>)) 2 entry"
    using alone_leads[of n1 ?ps] e by (simp add: restarted_alone_def r0_def n1_def NewNode_def NewStateMachine_def)
  then show ?thesis using that n0 st by blast
qed

lemma fresh_engine_fields:
  "Engine_Open [] = Inr e \<Longrightarrow> en_active e = NewMemtable"
  "Engine_Open [] = Inr e \<Longrightarrow> en_immutable e = None"
  "Engine_Open [] = Inr e \<Longrightarrow> en_sstables e = []"
  "Engine_Open [] = Inr e \<Longrightarrow> en_open e"
  using fresh_engine by (auto simp: Engine_Open_def loadSSTables_def Glob_def open_all_def List.map_filter_def)

lemma restarted_read:
  assumes "restarted_alone s tm entry"
  shows "srv_Get key s = Inr \<lparr>gr_Key = key, gr_Value = [], gr_Found = False, gr_LeaderHint = ''''\<rparr>"
proof -
  have "Engine_Open [] = Inr (sm_engine (srv_sm s))" using assms by (simp add: restarted_alone_def)
  from fresh_engine_fields[OF this] have "Engine_Get key (sm_engine (srv_sm s)) = None"
    by (simp add: Engine_Get_def Memtable_Get_lookup NewMemtable_def mt_wf_def keys_sorted_def)
  then show ?thesis using assms by (simp add: srv_Get_def ReadValue_def IsLeader_def restarted_alone_def)
qed

text \<open>The next write commits the old entry with it.\<close>

lemma Propose_restarted:
  assumes "role n = RoleLeader" "Peers n = []" "log n = [sentinel 0 0, e1]" "lastIncludedIndex n = 0" "commitIndex n = 0" "ApplyCh n = []"
    and e2: "e2 = \<lparr>le_index = 2, le_term = currentTerm n, le_data = data, le_type = ENTRY_NORMAL\<rparr>"
  shows "\<exists>n'. Propose ps data n = ((2, currentTerm n, True), n') \<and> ApplyCh n' = [CommandMsg e1, CommandMsg e2] \<and> role n' = RoleLeader"
proof -
  define n2 where "n2 = n\<lparr>log := [sentinel 0 0, e1, e2], storage := snd (ps_AppendEntries ps [e2] (storage n))\<rparr>"
  have n2: "lastLogIndex n2 = 2" "lastIncludedIndex n2 = 0" "commitIndex n2 = 0" "log n2 = [sentinel 0 0, e1, e2]" "ApplyCh n2 = []"
    "currentTerm n2 = currentTerm n" "role n2 = RoleLeader"
    using assms by (simp_all add: n2_def lastLogIndex_def)
  have p: "logPos 2 n2 = Some 2" using n2 by (simp add: logPos_Some)
  have "quorum n2 \<le> replicated_count 2 n2" using assms(2) by (simp add: n2_def quorum_def replicated_count_def)
  then have "maybeAdvanceCommit n2 = advanceCommitTo 2 n2"
    using p n2 e2 by (simp add: maybeAdvanceCommit_def numeral_2_eq_2 Let_def)
  then have "ApplyCh (maybeAdvanceCommit n2) = [CommandMsg e1, CommandMsg e2]"
    using delivered_entries[of n2 2] n2 by (simp add: upt_rec)
  moreover have "role (maybeAdvanceCommit n2) = RoleLeader"
    using \<open>maybeAdvanceCommit n2 = advanceCommitTo 2 n2\<close> n2(7) by (simp add: advanceCommitTo_def Let_def)
  moreover have "Propose ps data n = ((2, currentTerm n, True), maybeAdvanceCommit n2)"
    using assms by (simp add: Propose_def store_def n2_def lastLogIndex_def Let_def numeral_2_eq_2)
  ultimately show ?thesis by blast
qed

lemma sm_apply_pending:
  "map_of (sm_pending sm) (le_index entry) = None \<Longrightarrow> sm_pending (sm_apply dec entry sm) = sm_pending sm"
  by (auto simp: sm_apply_def notifyPending_def Let_def case_prod_unfold split: option.split)

lemma next_write:
  assumes s: "restarted_alone s tm (put_log_entry 1 t key value)" and keys: "valid_utf8 key" "valid_utf8 key2" "key \<noteq> key2"
  shows "\<exists>ch s1 s2. srv_Put ps key2 value2 s = (Waiting ch, s1)
    \<and> write_end ch (apply_turn dk ps (apply_turn dk ps s1)) = [(Inr \<lparr>wr_Success = True, wr_LeaderHint = ''''\<rparr>, s2)]
    \<and> srv_Get key s2 = Inr \<lparr>gr_Key = key, gr_Value = value, gr_Found = True, gr_LeaderHint = ''''\<rparr>"
proof -
  define e1 where "e1 = put_log_entry 1 t key value"
  define e2 where "e2 = put_log_entry 2 tm key2 value2"
  define e where "e = sm_engine (srv_sm s)"
  note sa = s[unfolded restarted_alone_def]
  have e: "en_open e" using fresh_engine_fields(4) sa by (simp add: e_def)
  have sm: "srv_sm s = NewStateMachine 0 e" using sa by (simp add: e_def)
  obtain n where n: "Propose ps (Command_Marshal (put_command key2 value2)) (srv_node s) = ((2, tm, True), n)"
    "ApplyCh n = [CommandMsg e1, CommandMsg e2]" "role n = RoleLeader"
    using Propose_restarted[of "srv_node s" e1 e2 "Command_Marshal (put_command key2 value2)" ps] sa
    by (auto simp: e1_def e2_def put_log_entry_def)
  define pw where "pw = \<lparr>pw_logIndex = 2, pw_term = tm, pw_done = 0\<rparr>"
  define sm1 where "sm1 = (NewStateMachine 0 e)\<lparr>sm_pending := [(2, pw)], sm_channels := 1\<rparr>"
  define s1 where "s1 = s\<lparr>srv_sm := sm1, srv_node := n, srv_inflight := 0 # srv_inflight s\<rparr>"
  have put: "srv_Put ps key2 value2 s = (Waiting 0, s1)"
    using n(1) by (simp add: srv_Put_def put_command_def[symmetric] write_begin_def ProposeWrite_def s1_def sm1_def pw_def sm NewStateMachine_def)
  define sm2 where "sm2 = sm_apply Command_Unmarshal e1 sm1"
  have f2: "sm_engine sm2 = snd (Engine_Put key value e)" "sm_lastApplied sm2 = 1" "sm_sent sm2 = []" "sm_pending sm2 = [(2, pw)]"
    "sm_snapshotInterval sm2 = 0" "\<not> sm_stopped sm2"
    using apply_put_alone[of sm1 e1 "put_command key value"] put_command_ok[OF keys(1), of "value"] e sm_apply_pending[of sm1 e1 Command_Unmarshal]
    by (simp_all add: sm2_def sm1_def e1_def put_log_entry_def NewStateMachine_def put_command_def)
  have o2: "en_open (sm_engine sm2)" using en.run_op_invar[OF e, of "KvPut key value"] f2(1) by simp
  define sm3 where "sm3 = sm_apply Command_Unmarshal e2 sm2"
  have f3: "sm_engine sm3 = snd (Engine_Put key2 value2 (snd (Engine_Put key value e)))" "sm_sent sm3 = [(0, ResultOk)]"
    "sm_snapshotInterval sm3 = 0" "\<not> sm_stopped sm3"
    using apply_put_alone[of sm2 e2 "put_command key2 value2"] put_command_ok[OF keys(2), of value2] o2 f2
    by (simp_all add: sm3_def e2_def put_log_entry_def pw_def put_command_def)
  have t1: "apply_turn dk ps s1 = s1\<lparr>srv_sm := sm2, srv_consumed := 1\<rparr>"
    using sa n f2(5) by (simp add: apply_turn_def s1_def sm2_def[symmetric] Let_def)
  have t2: "apply_turn dk ps (s1\<lparr>srv_sm := sm2, srv_consumed := 1\<rparr>) = s1\<lparr>srv_sm := sm3, srv_consumed := 2\<rparr>"
    using sa n f3(3) by (simp add: apply_turn_def s1_def sm3_def[symmetric] Let_def)
  define s2 where "s2 = s1\<lparr>srv_sm := sm3, srv_consumed := 2, srv_inflight := srv_inflight s\<rparr>"
  have w: "write_end 0 (apply_turn dk ps (apply_turn dk ps s1)) = [(Inr \<lparr>wr_Success = True, wr_LeaderHint = ''''\<rparr>, s2)]"
    unfolding t1 t2 using f3 by (simp add: write_end_def ProposeWrite_wait_def write_reply_def s2_def) (simp add: s1_def)
  have "Engine_Get key (sm_engine sm3) = Some value"
    using o2[unfolded f2(1)] e keys(3)
    by (simp add: f3(1) Engine_Get_def Put_open Memtable_Get_lookup mt_lookup_Put en_open_def en_wf_def)
  then have "srv_Get key s2 = Inr \<lparr>gr_Key = key, gr_Value = value, gr_Found = True, gr_LeaderHint = ''''\<rparr>"
    using n(3) by (simp add: srv_Get_def ReadValue_def IsLeader_def s2_def s1_def)
  then show ?thesis using put w by blast
qed

section \<open>Properties\<close>



text \<open>
  C29: after a restart a leader serves reads that miss acknowledged writes. A server without peers
  starts in empty directories, wins its election, and acknowledges a \<open>Put\<close>. It crashes and starts
  again on the files it left, its log is read back, and it leads again. \<open>Get\<close> of the key then answers
  "not found" without a hint, because nothing is committed in the new term and nothing has been
  applied; only when the next write of any other key has been acknowledged does \<open>Get\<close> return the value.
\<close>

theorem restarted_leader_misses_writes:
  assumes "cfg_Peers cfg = []" "valid_utf8 (cfg_NodeID cfg)" and "valid_utf8 key" "valid_utf8 key2" "key \<noteq> key2"
    and "entry_codes mar unm (put_log_entry 1 1 key value)" and ps: "ps = walState_ops (\<lambda>_. None) mar unm"
  shows "\<exists>(s0 :: (walState, 'conn) KVServer) s1 s2 s3 ch (r0 :: (walState, 'conn) KVServer) r1 ch' r2 r3.
    NewKVServer unm cfg [] [] = Inr s0 \<and> KVServer_Start ps True s0 = (None, s1)
    \<and> srv_Put ps key value (elected_alone ps s1) = (Waiting ch, s2)
    \<and> write_end ch (apply_turn dk ps s2) = [(Inr \<lparr>wr_Success = True, wr_LeaderHint = ''''\<rparr>, s3)]
    \<and> NewKVServer unm cfg (en_dir (sm_engine (srv_sm s3))) (ws_files (storage (srv_node s3))) = Inr r0
    \<and> KVServer_Start ps True r0 = (None, r1)
    \<and> srv_Get key (elected_alone ps r1) = Inr \<lparr>gr_Key = key, gr_Value = [], gr_Found = False, gr_LeaderHint = ''''\<rparr>
    \<and> srv_Put ps key2 value2 (elected_alone ps r1) = (Waiting ch', r2)
    \<and> write_end ch' (apply_turn dk ps (apply_turn dk ps r2)) = [(Inr \<lparr>wr_Success = True, wr_LeaderHint = ''''\<rparr>, r3)]
    \<and> srv_Get key r3 = Inr \<lparr>gr_Key = key, gr_Value = value, gr_Found = True, gr_LeaderHint = ''''\<rparr>"
proof -
  obtain s0 s1 s2 s3 :: "(walState, 'conn) KVServer" and ch where s: "NewKVServer unm cfg [] [] = Inr s0" "KVServer_Start ps True s0 = (None, s1)"
    "srv_Put ps key value (elected_alone ps s1) = (Waiting ch, s2)"
    "write_end ch (apply_turn dk ps s2) = [(Inr \<lparr>wr_Success = True, wr_LeaderHint = ''''\<rparr>, s3)]" "en_dir (sm_engine (srv_sm s3)) = []"
    "ws_rel mar unm 1 (storage (srv_node s3)) (newMemState\<lparr>ms_term := 1, ms_voted := cfg_NodeID cfg, ms_entries := [put_log_entry 1 1 key value]\<rparr>)"
    using first_write[OF assms(1,2,3,6)] unfolding ps by metis
  obtain r0 r1 :: "(walState, 'conn) KVServer" where r: "NewKVServer unm cfg [] (ws_files (storage (srv_node s3))) = Inr r0"
    "KVServer_Start ps True r0 = (None, r1)" "restarted_alone (elected_alone ps r1) 2 (put_log_entry 1 1 key value)"
    using second_life[OF assms(1) s(6)] unfolding ps by metis
  obtain ch' r2 r3 where w: "srv_Put ps key2 value2 (elected_alone ps r1) = (Waiting ch', r2)"
    "write_end ch' (apply_turn dk ps (apply_turn dk ps r2)) = [(Inr \<lparr>wr_Success = True, wr_LeaderHint = ''''\<rparr>, r3)]"
    "srv_Get key r3 = Inr \<lparr>gr_Key = key, gr_Value = value, gr_Found = True, gr_LeaderHint = ''''\<rparr>"
    using next_write[OF r(3) assms(3,4,5)] by metis
  have "NewKVServer unm cfg (en_dir (sm_engine (srv_sm s3))) (ws_files (storage (srv_node s3))) = Inr r0" using r(1) s(5) by simp
  then show ?thesis using s(1-4) r(2) restarted_read[OF r(3), of key] w by blast
qed

text \<open>A coding that knows one entry, and the server with it.\<close>

definition one_mar :: "LogEntry \<Rightarrow> marshal" where
  "one_mar x e = (if e = x then Some [1] else None)"

definition one_unm :: "LogEntry \<Rightarrow> unmarshal" where
  "one_unm x b = (if b = [1] then Some x else None)"

theorem restarted_leader_misses_writes_witness:
  "\<exists>(s0 :: (walState, unit) KVServer) s1 s2 s3 ch (r0 :: (walState, unit) KVServer) r1.
    let x = put_log_entry 1 1 ''k'' [7]; ps = walState_ops (\<lambda>_. None) (one_mar x) (one_unm x)
    in NewKVServer (one_unm x) sample_cfg [] [] = Inr s0 \<and> KVServer_Start ps True s0 = (None, s1)
      \<and> srv_Put ps ''k'' [7] (elected_alone ps s1) = (Waiting ch, s2)
      \<and> write_end ch (apply_turn DiskOk ps s2) = [(Inr \<lparr>wr_Success = True, wr_LeaderHint = ''''\<rparr>, s3)]
      \<and> NewKVServer (one_unm x) sample_cfg (en_dir (sm_engine (srv_sm s3))) (ws_files (storage (srv_node s3))) = Inr r0
      \<and> KVServer_Start ps True r0 = (None, r1)
      \<and> srv_Get ''k'' (elected_alone ps r1) = Inr \<lparr>gr_Key = ''k'', gr_Value = [], gr_Found = False, gr_LeaderHint = ''''\<rparr>"
proof -
  define x where "x = put_log_entry 1 1 ''k'' [7]"
  have "entry_codes (one_mar x) (one_unm x) x" by (simp add: entry_codes_def one_mar_def one_unm_def headerSize_def maxSegmentSize_def)
  then have c: "entry_codes (one_mar x) (one_unm x) (put_log_entry 1 1 ''k'' [7])" by (simp add: x_def)
  have v: "valid_utf8 ''k''" "valid_utf8 ''l''" "''k'' \<noteq> ''l''" "cfg_Peers sample_cfg = []" "valid_utf8 (cfg_NodeID sample_cfg)"
    by (simp_all add: valid_utf8_ascii sample_cfg_def)
  show ?thesis
    unfolding Let_def x_def[symmetric]
    using restarted_leader_misses_writes[OF v(4,5,1,2,3) c refl, of DiskOk "[]", where 'conn = unit] by blast
qed

end
