(* ===== verification/Spec2Isabelle.thy ===== *)
theory Spec2Isabelle
  imports KV_Snapshot KV_RaftProps KV_Timers KV_Client KV_Threads KV_Restart
begin

text \<open>
  A verification development for the replicated key-value store. A server (\<open>server/kvserver.go\<close>)
  joins a Raft node (\<open>raft/node.go\<close>) that keeps its state on disk (\<open>server/walstate.go\<close> over the
  write-ahead log of \<open>wal/wal.go\<close>), a state machine (\<open>server/statemachine.go\<close>) that applies what
  the node commits to a log-structured engine (\<open>storage/\<close>), and a transport to the other servers
  (\<open>server/transport.go\<close>). A command-line client (\<open>client/main.go\<close>) finds the leader by hints.

  \<^bold>\<open>Theories: storage.\<close>
  \<^item> \<open>KV_Prelude\<close>: bytes, little-endian integers, Go's \<open>io.ReadFull\<close>, \<open>sort.Search\<close>,
    \<open>fmt.Sprintf\<close> with sixteen digits, directories as sorted association lists.
  \<^item> \<open>KV_Memtable\<close>: \<open>storage/memtable.go\<close>, and the contract of a key-value store as the locale
    \<open>kv_store\<close>, interpreted on the buffer and, in \<open>KV_Engine\<close>, on the engine.
  \<^item> \<open>KV_SSTable\<close>, \<open>KV_Merge\<close>: \<open>storage/sstable.go\<close>: bloom filter, table file, compaction merge.
  \<^item> \<open>KV_Engine\<close>, \<open>KV_EngineProps\<close>: \<open>storage/engine.go\<close>, its two background workers included.
  \<^item> \<open>KV_EngineCrash\<close>: what \<open>Engine_Open\<close> finds after a crash between two operations, and after one
    while a compaction removes files.
  \<^item> \<open>KV_Snapshot\<close>: \<open>storage/snapshot.go\<close>.

  \<^bold>\<open>Theories: consensus.\<close>
  \<^item> \<open>KV_RaftNode\<close>: the data, handlers and event loop of \<open>raft/node.go\<close>.
  \<^item> \<open>KV_RaftStore\<close>: \<open>raft/memstate.go\<close>, and what a node relies on for its votes as the locale
    \<open>hard_storage\<close>, with the vote discipline of every handler proved once inside it. The locale
    is interpreted on the in-memory state and, in \<open>KV_WalState\<close>, on the state on disk.
  \<^item> \<open>KV_RaftLog\<close>, \<open>KV_RaftProps\<close>: the log of a node, its commit rule, snapshot transfers, and
    exchanges that lose entries, votes or progress.
  \<^item> \<open>KV_Cluster\<close>: nodes over an unreliable network with crashes and restarts, as a step relation.
  \<^item> \<open>KV_LogMatching\<close>, \<open>KV_RaftSafety\<close>: the invariant of a cluster without compaction, and that
    every step keeps it and extends what was recorded of the past.
  \<^item> \<open>KV_Recovery\<close>: the same with crashes after which the log is read back, when a restart is of
    this kind, and the properties of such runs.
  \<^item> \<open>KV_Timers\<close>: the timers of the nodes of a cluster.
  \<^item> \<open>KV_Wal\<close>: \<open>wal/wal.go\<close> at byte level, with the IEEE checksum. Protocol buffer encoding is a
    parameter, and \<open>entry_codes\<close> is what the theorems rely on of it.

  \<^bold>\<open>Theories: server and client.\<close>
  \<^item> \<open>KV_Json\<close>, \<open>KV_JsonProps\<close>: the part of Go's \<open>encoding/json\<close> that the program uses: encoding
    of strings, numbers and byte slices, and the full decoder.
  \<^item> \<open>KV_WalState\<close>: \<open>server/walstate.go\<close>; the outcome of each file write and rename is an argument.
  \<^item> \<open>KV_StateMachine\<close>: \<open>server/statemachine.go\<close> over the engine and a node, and the broadcaster of
    \<open>server/watch.go\<close>, for any coding of commands; \<open>KV_Command\<close> is the JSON coding of the program.
  \<^item> \<open>KV_Transport\<close>: \<open>raft/memtransport.go\<close>, and the connection pool of \<open>server/transport.go\<close>.
  \<^item> \<open>KV_Server\<close>: \<open>server/kvserver.go\<close>, with the counters of \<open>server/metrics.go\<close>.
  \<^item> \<open>KV_Threads\<close>: the goroutines of one server with \<open>n.mu\<close>, \<open>sm.mu\<close> and the bounded \<open>ApplyCh\<close>, as a
    step relation.
  \<^item> \<open>KV_Restart\<close>: a server whose processes crash and start again: log, engine and state machine.
  \<^item> \<open>KV_Client\<close>: \<open>client/main.go\<close> and the server program \<open>main.go\<close>.

  \<^bold>\<open>Modelling.\<close> A method that holds its object's lock is one function on the object's record; a
  method that gives the lock up, or blocks, is split there. Goroutines a Raft handler starts and
  messages it sends on a channel are collected in lists; in \<open>KV_Threads\<close> the list of the apply
  channel is sent message by message into a buffer of 4096, with the locks held as in the code. There
  a critical section changes the node in one step, and stopping the server is not a step. The outcome of a
  table write is an argument; files of the write-ahead log take every write. A turn of the flush
  worker is one step; a compaction is also split at its swap and, for a crash, at the removal of each
  file. A timer is armed or not, and may fire
  whenever it is armed. The iteration order of a Go map is an argument where it matters. Terms,
  indices and sequence numbers are natural numbers, so runs in which a \<open>uint64\<close> counter wraps are
  outside the model; the 32-bit length fields of the file formats are 32-bit words and wrap. Loops
  are total functions with termination proofs. Only the JSON decoder has fuel: twice the length of
  the input plus two, and \<open>KV_Command\<close> proves that more fuel changes nothing.

  \<^bold>\<open>Results on storage.\<close> The buffer refines a finite map; the bloom filter has no false negatives;
  table files and snapshots round-trip; the merge keeps the newest entry of every key; flushes and
  compactions, failed ones included, never change the contents of the engine; closing and
  reopening keeps them, and a crash keeps the effect of a prefix of the writes. Four theorems state
  behaviours that lose or hide data: a read after a delete can return the old value, a flush during a
  compaction can be dropped, an empty rotation stops flushing for good, and a crash while a
  compaction removes files can bring deleted keys back.

  \<^bold>\<open>Results on Raft.\<close> No two nodes ever lead in the same term, in every run with lost, repeated
  and reordered messages and with restarts, over storage that keeps what it saved; the files of
  \<open>server/walstate.go\<close> are such a storage. In runs without compaction, in which a node may crash
  whenever starting again reads back its log, logs match, leaders hold everything committed, and
  processes deliver the same entries in the same order, now and later. \<open>KV_Recovery\<close> shows that
  appending new entries and proposing keep a log readable in this sense; a request that repeats
  entries does not, as stated below, and nothing is claimed of runs that go on after such a restart.
  Every node always has a timer to wait for. The append handler equals a reference splice of two
  logs, the conflict hint is the start of a term's run, the leader commits by majority and only in its
  own term, and a chunked snapshot arrives whole. Four theorems state behaviours that go wrong: repeated
  entries are persisted twice, a snapshot can discard committed entries, a lagging follower may
  never be sent the snapshot, and a vote whose save failed is forgotten by a restart.

  \<^bold>\<open>Results on durable state.\<close> Appends, truncations and reopenings of the write-ahead log refine a
  list of entries across segment files; a segment cut by a crash reads as its complete records. The
  store on disk refines the in-memory store, and saving term and vote is atomic whatever the disk
  does. One theorem states that entries appended behind a torn record header are lost, and a lemma of
  \<open>KV_Wal\<close> that a crash inside a truncation leaves a log that opens empty; the refinements take
  truncations as completed.

  \<^bold>\<open>Results on the state machine.\<close> Application of committed entries refines a map with
  deduplication, a retried command takes effect at most once, commands survive their coding, and a
  subscriber with room receives its events in order. One theorem states that the waiter of a lost
  entry can be told success.

  \<^bold>\<open>Results on concurrency.\<close> In every interleaving the apply channel keeps the order of the node, holds
  at most 4096 messages, and the state machine sees each message once; the channel drains under every
  schedule as long as no write holds \<open>sm.mu\<close>. With one that does, a handler that has 4098 messages to
  send can deadlock the server; \<open>stuck_iff\<close> says exactly when no goroutine can go on.

  \<^bold>\<open>Results on the whole.\<close> Replicas that have applied equally many entries hold the same contents,
  also at different times; a node whose processes crash any number of times has, once it has caught
  up, the contents of one that never crashed;
  a write to a server that leads alone is acknowledged and read back, through coding, log, apply
  loop and engine; a client read reaches the leader of a settled cluster; the transport holds at
  most one connection per peer. Two theorems and a lemma of \<open>KV_Client\<close> state behaviours that go
  wrong: a write that does not commit keeps the server from stopping, a leader that has started again
  answers reads before it has applied its log, and a server without a leader makes the client report
  a key as absent.

  \<^bold>\<open>Not modelled.\<close> The generated protocol buffer code and the gRPC and Prometheus libraries, which
  are parameters or left out; in \<open>server/metrics.go\<close> the registration of metrics and the HTTP
  endpoint, which only call such libraries; durations, sleeps and log output; signals and flag
  syntax in the two programs; the scripts and the fault injector. Safety of the log is not shown for
  runs with compaction and snapshots between nodes, where the behaviours above break it.
\<close>

end
